(* ===== verification/Prelude.thy ===== *)
theory Prelude
  imports Main "HOL-Library.Word" "HOL-Library.AList" "HOL-Library.Monad_Syntax"
begin

text \<open>
  Shared vocabulary of the development: the machine integer types of the Rust sources, their
  saturating and checked arithmetic, fixed-width byte encodings, the \<open>while let Some(..)\<close> loop,
  and two interfaces every component reuses: \<open>byte_codec\<close> (an encoding that can be decoded back)
  and \<open>guarded_machine\<close> (a step function with an invariant that runs keep).

  A Rust call that may panic or loop is modelled by a function into \<open>option\<close>: \<open>None\<close> is "the call
  does not return a value", and a theorem that it returns is a theorem that the result is \<open>Some\<close>.
\<close>

named_theorems wire_simps \<open>encodings and parsers of the wire format\<close>
named_theorems keeps \<open>operations that keep an invariant\<close>

section \<open>Machine integers\<close>

type_synonym u8 = "8 word"
type_synonym u16 = "16 word"
type_synonym u32 = "32 word"
type_synonym u64 = "64 word"
type_synonym bytes = "u8 list"

text \<open>A monotonic instant, in nanoseconds since an arbitrary epoch (\<open>std::time::Instant\<close>).\<close>

type_synonym instant = nat

definition saturating_sub :: "'l::len word \<Rightarrow> 'l word \<Rightarrow> 'l word" where
  "saturating_sub a b = (if a < b then 0 else a - b)"

definition saturating_add :: "'l::len word \<Rightarrow> 'l word \<Rightarrow> 'l word" where
  "saturating_add a b = (if unat a + unat b < 2 ^ LENGTH('l) then a + b else - 1)"

definition checked_add :: "'l::len word \<Rightarrow> 'l word \<Rightarrow> 'l word option" where
  "checked_add a b = (if unat a + unat b < 2 ^ LENGTH('l) then Some (a + b) else None)"

lemma unat_saturating_sub: "unat (saturating_sub a b) = unat a - unat b"
  by (simp add: saturating_sub_def unat_sub_if' word_less_nat_alt)

lemma unat_saturating_add:
  "unat (saturating_add a (b :: 'l::len word)) = min (unat a + unat b) (2 ^ LENGTH('l) - 1)"
proof (cases "unat a + unat b < 2 ^ LENGTH('l)")
  case True
  then show ?thesis by (simp add: saturating_add_def unat_word_ariths)
next
  case False
  then show ?thesis by (simp add: saturating_add_def unsigned_minus_1_eq_mask mask_eq_exp_minus_1)
qed

lemma checked_add_Some:
  "checked_add a b = Some c \<Longrightarrow> unat c = unat a + unat (b :: 'l::len word)"
  by (auto simp: checked_add_def unat_word_ariths split: if_splits)

section \<open>Fixed-width byte encodings\<close>

fun le_bytes :: "nat \<Rightarrow> nat \<Rightarrow> bytes" where
  "le_bytes 0 x = []"
| "le_bytes (Suc n) x = word_of_nat (x mod 256) # le_bytes n (x div 256)"

fun nat_of_le :: "bytes \<Rightarrow> nat" where
  "nat_of_le [] = 0"
| "nat_of_le (b # bs) = unat b + 256 * nat_of_le bs"

lemma length_le_bytes [simp]: "length (le_bytes n x) = n"
  by (induction n arbitrary: x) auto

lemma nat_of_le_bytes: "nat_of_le (le_bytes n x) = x mod 256 ^ n"
proof (induction n arbitrary: x)
  case 0
  then show ?case by simp
next
  case (Suc n)
  have "unat (word_of_nat (x mod 256) :: u8) = x mod 256"
    by (simp add: unat_of_nat)
  then show ?case
    using mod_mult2_eq [of x 256 "256 ^ n"] by (simp add: Suc)
qed

lemma le_bytes_of_nat_of_le: "length bs = n \<Longrightarrow> le_bytes n (nat_of_le bs) = bs"
proof (induction bs arbitrary: n)
  case Nil
  then show ?case by simp
next
  case (Cons b bs)
  have "unat b < 256" using unsigned_less [of b] by simp
  then show ?case using Cons by auto
qed

lemma nat_of_le_bound: "nat_of_le bs < 256 ^ length bs"
proof (induction bs)
  case Nil
  then show ?case by simp
next
  case (Cons b bs)
  have "unat b < 256" using unsigned_less [of b] by simp
  then show ?case using Cons by simp
qed

text \<open>\<open>u32::to_le_bytes\<close>, \<open>u32::from_le_bytes\<close>, and the big-endian encoding of a \<open>w\<close>-byte integer.\<close>

definition u32_to_le :: "u32 \<Rightarrow> bytes" where
  "u32_to_le w = le_bytes 4 (unat w)"

definition u32_from_le :: "bytes \<Rightarrow> u32" where
  "u32_from_le bs = word_of_nat (nat_of_le bs)"

definition be_bytes :: "nat \<Rightarrow> nat \<Rightarrow> bytes" where
  "be_bytes n x = rev (le_bytes n x)"

lemma length_u32_to_le [simp]: "length (u32_to_le w) = 4"
  by (simp add: u32_to_le_def)

lemma u32_from_to_le [simp]: "u32_from_le (u32_to_le w) = w"
proof -
  have "unat w < 2 ^ 32" using unsigned_less [of w] by simp
  then have "nat_of_le (u32_to_le w) = unat w"
    by (simp add: u32_to_le_def nat_of_le_bytes del: le_bytes.simps)
  then show ?thesis by (simp add: u32_from_le_def)
qed

lemma u32_to_from_le: "length bs = 4 \<Longrightarrow> u32_to_le (u32_from_le bs) = bs"
proof -
  assume l: "length bs = 4"
  then have "nat_of_le bs < 2 ^ 32" using nat_of_le_bound [of bs] by simp
  then have "unat (u32_from_le bs) = nat_of_le bs"
    by (simp add: u32_from_le_def unat_of_nat)
  with l show ?thesis by (simp add: u32_to_le_def le_bytes_of_nat_of_le del: le_bytes.simps)
qed

lemma length_be_bytes [simp]: "length (be_bytes n x) = n"
  by (simp add: be_bytes_def)

lemma be_bytes_inj:
  "x < 256 ^ n \<Longrightarrow> y < 256 ^ n \<Longrightarrow> be_bytes n x = be_bytes n y \<longleftrightarrow> x = y"
proof -
  assume x: "x < 256 ^ n" and y: "y < 256 ^ n"
  have "x = y" if "be_bytes n x = be_bytes n y"
  proof -
    from that have "nat_of_le (le_bytes n x) = nat_of_le (le_bytes n y)"
      by (simp add: be_bytes_def)
    with x y show ?thesis by (simp add: nat_of_le_bytes)
  qed
  then show ?thesis by blast
qed

subsection \<open>The codec interface\<close>

text \<open>
  What a wire encoding promises its users: every well-formed value is decoded back, encodings have
  one fixed width, and only strings of that width decode.
\<close>

locale byte_codec =
  fixes enc :: "'a \<Rightarrow> bytes"
    and dec :: "bytes \<Rightarrow> 'a option"
    and wf :: "'a \<Rightarrow> bool"
    and width :: nat
  assumes dec_enc: "wf a \<Longrightarrow> dec (enc a) = Some a"
    and enc_width: "wf a \<Longrightarrow> length (enc a) = width"
    and enc_dec: "dec bs = Some a \<Longrightarrow> enc a = bs \<and> wf a"
begin

lemma enc_inj: "wf a \<Longrightarrow> wf b \<Longrightarrow> enc a = enc b \<Longrightarrow> a = b"
  by (metis dec_enc option.inject)

lemma dec_width: "dec bs = Some a \<Longrightarrow> length bs = width"
  using enc_dec enc_width by blast

lemma dec_inj: "dec bs = Some a \<Longrightarrow> dec cs = Some a \<Longrightarrow> bs = cs"
  using enc_dec by blast

lemma dec_iff: "dec bs = Some a \<longleftrightarrow> wf a \<and> enc a = bs"
  using enc_dec dec_enc by blast

end

definition u32_dec :: "bytes \<Rightarrow> u32 option" where
  "u32_dec bs = (if length bs = 4 then Some (u32_from_le bs) else None)"

interpretation u32_codec: byte_codec u32_to_le u32_dec "\<lambda>_. True" 4
  by unfold_locales (auto simp: u32_dec_def u32_to_from_le split: if_splits)

section \<open>Slices\<close>

text \<open>\<open>xs.get(i)\<close>, and \<open>&xs[i..j]\<close> for bounds the caller has checked.\<close>

definition nth_opt :: "'a list \<Rightarrow> nat \<Rightarrow> 'a option" where
  "nth_opt xs i = (if i < length xs then Some (xs ! i) else None)"

definition slice :: "nat \<Rightarrow> nat \<Rightarrow> 'a list \<Rightarrow> 'a list" where
  "slice i j xs = take (j - i) (drop i xs)"

text \<open>\<open>xs.get(i..j)\<close>, and copying \<open>src\<close> over the elements of \<open>dst\<close> from position \<open>i\<close> on.\<close>

definition get_range :: "'a list \<Rightarrow> nat \<Rightarrow> nat \<Rightarrow> 'a list option" where
  "get_range xs i j = (if i \<le> j \<and> j \<le> length xs then Some (slice i j xs) else None)"

definition copy_at :: "'a list \<Rightarrow> nat \<Rightarrow> 'a list \<Rightarrow> 'a list" where
  "copy_at dst i src = take i dst @ src @ drop (i + length src) dst"

lemma length_slice [simp]: "length (slice i j xs) = min (j - i) (length xs - i)"
  by (simp add: slice_def min.commute)

lemma length_copy_at [simp]: "i + length src \<le> length dst \<Longrightarrow> length (copy_at dst i src) = length dst"
  by (simp add: copy_at_def)

lemma take_copy_at:
  "i + length src \<le> length dst \<Longrightarrow> take (i + length src) (copy_at dst i src) = take i dst @ src"
  by (simp add: copy_at_def)

lemma slice_append_middle: "length xs = i \<Longrightarrow> length ys = j - i \<Longrightarrow> slice i j (xs @ ys @ zs) = ys"
  by (simp add: slice_def)

lemma split_three:
  "i \<le> j \<Longrightarrow> xs = take i xs @ slice i j xs @ drop j xs"
  by (metis append_take_drop_id drop_drop le_add_diff_inverse2 slice_def)

section \<open>The \<open>while let Some(x) = poll()\<close> loop\<close>

text \<open>
  \<open>while_some poll body s\<close> polls until the poll answers \<open>None\<close>, running the body on everything it
  yields. \<open>None\<close> is a loop that does not return.
\<close>

partial_function (option) while_some ::
  "('s \<Rightarrow> 'a option \<times> 's) \<Rightarrow> ('a \<Rightarrow> 's \<Rightarrow> 's option) \<Rightarrow> 's \<Rightarrow> 's option" where
  "while_some poll body s =
     (case poll s of
        (None, s') \<Rightarrow> Some s'
      | (Some x, s') \<Rightarrow> Option.bind (body x s') (\<lambda>t. while_some poll body t))"

lemma while_some_step:
  "poll s = (Some x, s') \<Longrightarrow> body x s' = Some t \<Longrightarrow> while_some poll body s = while_some poll body t"
  by (subst while_some.simps) simp

lemma while_some_stop: "poll s = (None, s') \<Longrightarrow> while_some poll body s = Some s'"
  by (subst while_some.simps) simp

text \<open>Partial correctness: what poll and body keep, the loop keeps; and the poll has run dry.\<close>

lemma while_some_invariant:
  assumes ret: "while_some poll body s = Some t"
    and start: "I s"
    and step: "\<And>u x u' v. I u \<Longrightarrow> poll u = (Some x, u') \<Longrightarrow> body x u' = Some v \<Longrightarrow> I v"
    and stop: "\<And>u u'. I u \<Longrightarrow> poll u = (None, u') \<Longrightarrow> J u'"
  shows "J t"
proof -
  have "(\<forall>u x u' v. I u \<longrightarrow> p u = (Some x, u') \<longrightarrow> b x u' = Some v \<longrightarrow> I v) \<longrightarrow>
        (\<forall>u u'. I u \<longrightarrow> p u = (None, u') \<longrightarrow> J u') \<longrightarrow> I s \<longrightarrow> J t"
    if "while_some p b s = Some t" for p and b :: "'b \<Rightarrow> 'a \<Rightarrow> 'a option" and s t
  proof (rule while_some.raw_induct
      [where P = "\<lambda>p b s t. (\<forall>u x u' v. I u \<longrightarrow> p u = (Some x, u') \<longrightarrow> b x u' = Some v \<longrightarrow> I v) \<longrightarrow>
        (\<forall>u u'. I u \<longrightarrow> p u = (None, u') \<longrightarrow> J u') \<longrightarrow> I s \<longrightarrow> J t", OF _ that], intro impI)
    fix f :: "('a \<Rightarrow> 'b option \<times> 'a) \<Rightarrow> ('b \<Rightarrow> 'a \<Rightarrow> 'a option) \<Rightarrow> 'a \<Rightarrow> 'a option"
    fix p b s t
    assume IH: "\<And>p b s t. f p b s = Some t \<Longrightarrow>
        (\<forall>u x u' v. I u \<longrightarrow> p u = (Some x, u') \<longrightarrow> b x u' = Some v \<longrightarrow> I v) \<longrightarrow>
        (\<forall>u u'. I u \<longrightarrow> p u = (None, u') \<longrightarrow> J u') \<longrightarrow> I s \<longrightarrow> J t"
      and eq: "(case p s of (None, s') \<Rightarrow> Some s' | (Some x, s') \<Rightarrow> Option.bind (b x s') (f p b)) = Some t"
      and stp: "\<forall>u x u' v. I u \<longrightarrow> p u = (Some x, u') \<longrightarrow> b x u' = Some v \<longrightarrow> I v"
      and stop: "\<forall>u u'. I u \<longrightarrow> p u = (None, u') \<longrightarrow> J u'"
      and I: "I s"
    obtain o' s' where p: "p s = (o', s')" by (cases "p s")
    show "J t"
    proof (cases o')
      case None
      with p eq stop I show ?thesis by auto
    next
      case (Some x)
      with p eq obtain v where v: "b x s' = Some v" and f: "f p b v = Some t"
        by (auto simp: bind_eq_Some_conv)
      from stp I p Some v have "I v" by blast
      with IH [OF f] stp stop show ?thesis by blast
    qed
  qed
  with assms show ?thesis by blast
qed

text \<open>Total correctness: a measure that every yielding round decreases makes the loop return.\<close>

lemma while_some_total:
  assumes start: "I s"
    and step: "\<And>u x u'. I u \<Longrightarrow> poll u = (Some x, u') \<Longrightarrow>
                 \<exists>v. body x u' = Some v \<and> I v \<and> (m v :: nat) < m u"
  shows "\<exists>t. while_some poll body s = Some t"
  using start
proof (induction "m s" arbitrary: s rule: less_induct)
  case less
  obtain o' s' where p: "poll s = (o', s')" by (cases "poll s")
  show ?case
  proof (cases o')
    case None
    with p show ?thesis by (auto simp: while_some_stop)
  next
    case (Some x)
    with p less.prems obtain v where v: "body x s' = Some v" "I v" "m v < m s"
      using step by blast
    with less.hyps obtain t where "while_some poll body v = Some t" by blast
    with p Some v(1) show ?thesis by (auto simp: while_some_step)
  qed
qed

section \<open>Runs of a step function\<close>

fun run :: "('s \<Rightarrow> 'i \<Rightarrow> 'o \<times> 's) \<Rightarrow> 's \<Rightarrow> 'i list \<Rightarrow> 'o list \<times> 's" where
  "run step s [] = ([], s)"
| "run step s (i # is) =
     (fst (step s i) # fst (run step (snd (step s i)) is), snd (run step (snd (step s i)) is))"

lemma length_run [simp]: "length (fst (run step s is)) = length is"
  by (induction "is" arbitrary: s) auto

lemma run_append:
  "run step s (is @ js) =
     (fst (run step s is) @ fst (run step (snd (run step s is)) js),
      snd (run step (snd (run step s is)) js))"
  by (induction "is" arbitrary: s) auto

text \<open>The same for a step that may not return: the run returns only if every step does.\<close>

fun run_opt :: "('s \<Rightarrow> 'i \<Rightarrow> ('o \<times> 's) option) \<Rightarrow> 's \<Rightarrow> 'i list \<Rightarrow> ('o list \<times> 's) option" where
  "run_opt step s [] = Some ([], s)"
| "run_opt step s (i # is) =
     do {
       (o1, s1) \<leftarrow> step s i;
       (os, s2) \<leftarrow> run_opt step s1 is;
       Some (o1 # os, s2)
     }"

fun fold_opt :: "('s \<Rightarrow> 'i \<Rightarrow> 's option) \<Rightarrow> 's \<Rightarrow> 'i list \<Rightarrow> 's option" where
  "fold_opt step s [] = Some s"
| "fold_opt step s (i # is) = Option.bind (step s i) (\<lambda>s1. fold_opt step s1 is)"

text \<open>
  A component whose every operation returns and keeps an invariant: every sequence of operations
  returns, one answer per operation, and keeps it too.
\<close>

locale guarded_machine =
  fixes step :: "'s \<Rightarrow> 'i \<Rightarrow> ('o \<times> 's) option"
    and inv :: "'s \<Rightarrow> bool"
  assumes step_returns: "inv s \<Longrightarrow> \<exists>o1 s1. step s i = Some (o1, s1) \<and> inv s1"
begin

lemma run_returns: "inv s \<Longrightarrow> \<exists>os s'. run_opt step s is = Some (os, s') \<and> inv s' \<and> length os = length is"
proof (induction "is" arbitrary: s)
  case Nil
  then show ?case by simp
next
  case (Cons i "is")
  obtain o1 s1 where "step s i = Some (o1, s1)" and "inv s1"
    using step_returns [OF Cons.prems] by blast
  with Cons.IH [OF \<open>inv s1\<close>] show ?case by auto
qed

lemma run_inv: "inv s \<Longrightarrow> run_opt step s is = Some (os, s') \<Longrightarrow> inv s'"
  using run_returns [of s "is"] by auto

end

section \<open>Association lists as hash maps\<close>

text \<open>
  A \<open>HashMap\<close> that the code iterates or counts is an association list with distinct keys; lookup is
  \<open>map_of\<close>, insertion \<open>AList.update\<close>, removal \<open>AList.delete\<close>.
\<close>

lemma length_delete_distinct:
  "distinct (map fst al) \<Longrightarrow> k \<in> fst ` set al \<Longrightarrow> Suc (length (AList.delete k al)) = length al"
proof (induction al)
  case Nil
  then show ?case by simp
next
  case (Cons p al)
  show ?case
  proof (cases "fst p = k")
    case True
    with Cons.prems have "k \<notin> fst ` set al" by auto
    then have "AList.delete k al = al" by (simp add: delete_id)
    with True show ?thesis by (cases p) auto
  next
    case False
    with Cons show ?thesis by (cases p) auto
  qed
qed

lemma length_update_new:
  "k \<notin> fst ` set al \<Longrightarrow> length (AList.update k v al) = Suc (length al)"
  by (induction al) auto

lemma length_update_old:
  "k \<in> fst ` set al \<Longrightarrow> length (AList.update k v al) = length al"
  by (induction al) auto

lemma fst_set_update: "fst ` set (AList.update k v al) = insert k (fst ` set al)"
  using dom_update [of k v al] by (simp add: dom_map_of_conv_image_fst)

lemma fst_set_delete: "fst ` set (AList.delete k al) = fst ` set al - {k}"
  by (auto simp: AList.delete_eq)

lemma mem_fst_iff_map_of: "k \<in> fst ` set al \<longleftrightarrow> map_of al k \<noteq> None"
  by (simp add: dom_map_of_conv_image_fst [symmetric] dom_def)

end
