(* ===== verification/InitialKeys.thy ===== *)
theory InitialKeys
  imports Prelude
begin

unbundle bit_operations_syntax

text \<open>
  \<open>proto/src/initial_keys.rs\<close>: the PSK-derived keys of QUIC Initial packets, the packet protection
  and the header protection built on them. HKDF-SHA256, AES-128-GCM and the AES header-protection
  mask are \<open>aws-lc-rs\<close> primitives, the parameter \<open>P\<close>; \<open>crypto_ok\<close> is what the code relies on of them.
  \<open>None\<close> is a slice-index panic of the source.
\<close>

section \<open>The primitives\<close>

record crypto_prims =
  hkdf_extract :: "bytes \<Rightarrow> bytes \<Rightarrow> bytes"
  hkdf_expand :: "bytes \<Rightarrow> bytes \<Rightarrow> nat \<Rightarrow> bytes"
  aead_seal :: "bytes \<Rightarrow> bytes \<Rightarrow> bytes \<Rightarrow> bytes \<Rightarrow> bytes \<times> bytes"
  aead_open :: "bytes \<Rightarrow> bytes \<Rightarrow> bytes \<Rightarrow> bytes \<Rightarrow> bytes option"
  hp_mask :: "bytes \<Rightarrow> bytes \<Rightarrow> bytes"

definition AEAD_KEY_LEN :: nat where "AEAD_KEY_LEN = 16"
definition IV_LEN :: nat where "IV_LEN = 12"
definition TAG_LEN :: nat where "TAG_LEN = 16"
definition HP_SAMPLE_LEN :: nat where "HP_SAMPLE_LEN = 16"
definition SECRET_LEN :: nat where "SECRET_LEN = 32"
definition CONFIDENTIALITY_LIMIT :: u64 where "CONFIDENTIALITY_LIMIT = push_bit 23 1"
definition INTEGRITY_LIMIT :: u64 where "INTEGRITY_LIMIT = push_bit 52 1"
definition QUIC_V1 :: u32 where "QUIC_V1 = 1"

text \<open>
  Documented behaviour: \<open>expand\<close> fills the requested length; sealing keeps the plaintext's length,
  makes a 16-byte tag, and what was sealed opens under the same key, nonce and associated data;
  a header-protection mask has five bytes.
\<close>

definition crypto_ok :: "crypto_prims \<Rightarrow> bool" where
  "crypto_ok P \<longleftrightarrow>
     (\<forall>prk info n. length (hkdf_expand P prk info n) = n)
     \<and> (\<forall>k n a pt. length (fst (aead_seal P k n a pt)) = length pt
                   \<and> length (snd (aead_seal P k n a pt)) = TAG_LEN
                   \<and> aead_open P k n a (fst (aead_seal P k n a pt) @ snd (aead_seal P k n a pt)) = Some pt)
     \<and> (\<forall>k s. length (hp_mask P k s) = 5)"

section \<open>The key schedule\<close>

definition ascii :: "string \<Rightarrow> bytes" where
  "ascii = map of_char"

definition hkdf_label_info :: "nat \<Rightarrow> bytes \<Rightarrow> bytes" where
  "hkdf_label_info out_len label =
     (let prefix = ascii ''tls13 ''
      in be_bytes 2 (unat (word_of_nat out_len :: u16))
         @ [word_of_nat (length prefix + length label)] @ prefix @ label @ [0])"

definition expand_label :: "crypto_prims \<Rightarrow> bytes \<Rightarrow> bytes \<Rightarrow> nat \<Rightarrow> bytes" where
  "expand_label P prk label out_len = hkdf_expand P prk (hkdf_label_info out_len label) out_len"

record initial_packet_key =
  ipk_key :: bytes
  ipk_iv :: bytes

record initial_header_key =
  ihk_key :: bytes

record directional_keys =
  dk_packet :: initial_packet_key
  dk_header :: initial_header_key

definition directional_keys_of :: "crypto_prims \<Rightarrow> bytes \<Rightarrow> directional_keys" where
  "directional_keys_of P secret =
     (let key = expand_label P secret (ascii ''quic key'') AEAD_KEY_LEN;
          iv = expand_label P secret (ascii ''quic iv'') IV_LEN;
          hp = expand_label P secret (ascii ''quic hp'') AEAD_KEY_LEN
      in \<lparr>dk_packet = \<lparr>ipk_key = key, ipk_iv = iv\<rparr>, dk_header = \<lparr>ihk_key = hp\<rparr>\<rparr>)"

datatype side = Client | Server

record keys =
  header_local :: initial_header_key
  header_remote :: initial_header_key
  packet_local :: initial_packet_key
  packet_remote :: initial_packet_key

text \<open>
  The code's further argument \<open>version\<close> occurs only in a \<open>debug_assert_eq!\<close> against \<open>QUIC_V1\<close>, and is no argument here:
  both callers pass \<open>QUIC_V1\<close>, one as a constant and \<open>server_initial_keys\<close> below after refusing any other version.
\<close>

definition initial_keys_from_psk :: "crypto_prims \<Rightarrow> bytes \<Rightarrow> bytes \<Rightarrow> side \<Rightarrow> keys" where
  "initial_keys_from_psk P psk dcid side =
     (let initial_prk = hkdf_extract P psk dcid;
          client_secret = expand_label P initial_prk (ascii ''client in'') SECRET_LEN;
          server_secret = expand_label P initial_prk (ascii ''server in'') SECRET_LEN;
          client = directional_keys_of P client_secret;
          server = directional_keys_of P server_secret;
          (loc, rem) = (case side of Client \<Rightarrow> (client, server) | Server \<Rightarrow> (server, client))
      in \<lparr>header_local = dk_header loc, header_remote = dk_header rem,
          packet_local = dk_packet loc, packet_remote = dk_packet rem\<rparr>)"

text \<open>\<open>PskServerConfig::initial_keys\<close>: the server's first unseal of a client's Initial.\<close>

definition server_initial_keys :: "crypto_prims \<Rightarrow> bytes \<Rightarrow> u32 \<Rightarrow> bytes \<Rightarrow> keys option" where
  "server_initial_keys P psk version dst_cid =
     (if version \<noteq> QUIC_V1 then None else Some (initial_keys_from_psk P psk dst_cid Server))"

text \<open>\<open>PskSession::initial_keys\<close>: each connection's Initial packet space.\<close>

definition session_initial_keys :: "crypto_prims \<Rightarrow> bytes \<Rightarrow> bytes \<Rightarrow> side \<Rightarrow> keys" where
  "session_initial_keys P psk dst_cid side = initial_keys_from_psk P psk dst_cid side"

section \<open>Packet protection\<close>

definition packet_nonce :: "initial_packet_key \<Rightarrow> u64 \<Rightarrow> bytes" where
  "packet_nonce k packet =
     (let pn = be_bytes 8 (unat packet)
      in take (IV_LEN - 8) (ipk_iv k) @ map2 (XOR) (drop (IV_LEN - 8) (ipk_iv k)) pn)"

definition packet_encrypt :: "crypto_prims \<Rightarrow> initial_packet_key \<Rightarrow> u64 \<Rightarrow> bytes \<Rightarrow> nat \<Rightarrow> bytes option" where
  "packet_encrypt P k packet buf header_len =
     (if length buf < header_len + TAG_LEN then None
      else let header = take header_len buf;
               payload_tag = drop header_len buf;
               payload_len = length payload_tag - TAG_LEN;
               payload = take payload_len payload_tag;
               (ct, tag) = aead_seal P (ipk_key k) (packet_nonce k packet) header payload
           in Some (header @ ct @ tag))"

definition packet_decrypt :: "crypto_prims \<Rightarrow> initial_packet_key \<Rightarrow> u64 \<Rightarrow> bytes \<Rightarrow> bytes \<Rightarrow> bytes option" where
  "packet_decrypt P k packet header payload =
     aead_open P (ipk_key k) (packet_nonce k packet) header payload"

definition packet_tag_len :: nat where "packet_tag_len = TAG_LEN"
definition packet_confidentiality_limit :: u64 where "packet_confidentiality_limit = CONFIDENTIALITY_LIMIT"
definition packet_integrity_limit :: u64 where "packet_integrity_limit = INTEGRITY_LIMIT"

section \<open>Header protection\<close>

definition header_sample_size :: nat where "header_sample_size = HP_SAMPLE_LEN"

definition xor_at :: "bytes \<Rightarrow> nat \<Rightarrow> bytes \<Rightarrow> bytes" where
  "xor_at packet i ms =
     take i packet @ map2 (XOR) (slice i (i + length ms) packet) ms @ drop (i + length ms) packet"

definition hp_apply :: "crypto_prims \<Rightarrow> initial_header_key \<Rightarrow> nat \<Rightarrow> bytes \<Rightarrow> bool \<Rightarrow> bytes option" where
  "hp_apply P k pn_offset packet masked =
     do {
       let sample_offset = pn_offset + 4;
       sample \<leftarrow> get_range packet sample_offset (sample_offset + HP_SAMPLE_LEN);
       let mask = hp_mask P (ihk_key k) sample;
       let bits = (if packet ! 0 AND 0x80 = 0x80 then 0x0f else 0x1f);
       let first_plain = (if masked then packet ! 0 XOR (mask ! 0 AND bits) else packet ! 0);
       let pn_len = unat ((first_plain AND 0x03) + 1);
       let packet1 = packet[0 := packet ! 0 XOR (mask ! 0 AND bits)];
       Some (xor_at packet1 pn_offset (slice 1 (1 + pn_len) mask))
     }"

definition header_encrypt :: "crypto_prims \<Rightarrow> initial_header_key \<Rightarrow> nat \<Rightarrow> bytes \<Rightarrow> bytes option" where
  "header_encrypt P k pn_offset packet = hp_apply P k pn_offset packet False"

definition header_decrypt :: "crypto_prims \<Rightarrow> initial_header_key \<Rightarrow> nat \<Rightarrow> bytes \<Rightarrow> bytes option" where
  "header_decrypt P k pn_offset packet = hp_apply P k pn_offset packet True"

section \<open>Lemmas\<close>

lemma hkdf_label_info_layout:
  "hkdf_label_info n l = be_bytes 2 (unat (word_of_nat n :: u16)) @ [word_of_nat (6 + length l)] @
     ascii ''tls13 '' @ l @ [0]"
  by (simp add: hkdf_label_info_def ascii_def)

lemma map2_xor_cancel: "length xs = length ms \<Longrightarrow> map2 (XOR) (map2 (XOR) xs ms) ms = (xs :: bytes)"
  by (induction xs ms rule: list_induct2) (auto simp: bit_eq_iff bit_simps)

lemma map2_xor_inj:
  "length xs = length ms \<Longrightarrow> length ns = length ms \<Longrightarrow>
   map2 (XOR) xs ms = map2 (XOR) (xs :: bytes) ns \<Longrightarrow> ms = ns"
proof (induction xs ms arbitrary: ns rule: list_induct2)
  case Nil
  then show ?case by simp
next
  case (Cons x xs m ms)
  then obtain n ns' where ns: "ns = n # ns'" by (cases ns) auto
  have "x XOR m = x XOR n \<Longrightarrow> m = n" by (metis xor.left_commute xor_self_eq xor.right_neutral)
  with Cons ns show ?case by auto
qed

lemma xor_at_twice:
  assumes "i + length ms \<le> length p"
  shows "xor_at (xor_at p i ms) i ms = p"
proof -
  have l: "length (take i p) = i" using assms by simp
  let ?mid = "map2 (XOR) (slice i (i + length ms) p) ms"
  have m: "length ?mid = length ms" using assms by simp
  have "slice i (i + length ms) (xor_at p i ms) = ?mid"
    unfolding xor_at_def by (rule slice_append_middle) (use l m in auto)
  then have "xor_at (xor_at p i ms) i ms =
      take i (xor_at p i ms) @ map2 (XOR) ?mid ms @ drop (i + length ms) (xor_at p i ms)"
    by (subst xor_at_def) simp
  also have "\<dots> = take i p @ slice i (i + length ms) p @ drop (i + length ms) p"
    using assms by (simp add: map2_xor_cancel) (simp add: xor_at_def)
  also have "\<dots> = p" by (rule split_three [symmetric]) simp
  finally show ?thesis .
qed

lemma length_xor_at [simp]: "i + length ms \<le> length p \<Longrightarrow> length (xor_at p i ms) = length p"
  by (simp add: xor_at_def)

lemma xor_at_first: "1 \<le> i \<Longrightarrow> p \<noteq> [] \<Longrightarrow> xor_at p i ms ! 0 = p ! 0"
  by (cases p) (auto simp: xor_at_def nth_append)

lemma xor_at_update_first:
  assumes "1 \<le> i"
  shows "xor_at (p[0 := x]) i ms = (xor_at p i ms)[0 := x]"
proof (cases p)
  case Nil
  then show ?thesis by (simp add: xor_at_def slice_def)
next
  case (Cons a q)
  moreover obtain j where "i = Suc j" using assms by (cases i) auto
  ultimately show ?thesis by (simp add: xor_at_def slice_def)
qed

lemma slice_xor_at_after:
  "i + length ms \<le> a \<Longrightarrow> i + length ms \<le> length p \<Longrightarrow> slice a b (xor_at p i ms) = slice a b p"
  by (simp add: xor_at_def slice_def)

lemma slice_update_first: "1 \<le> a \<Longrightarrow> slice a b (p[0 := x]) = slice a b p"
  by (simp add: slice_def drop_update_cancel)

lemma form_bit_same:
  fixes x m :: u8
  shows "(x XOR (m AND (if c then 0x0f else 0x1f))) AND 0x80 = x AND 0x80"
proof -
  have z: "(m AND (if c then 0x0f else 0x1f)) AND 0x80 = 0" by (simp add: and.assoc)
  have "(x XOR y) AND 0x80 = (x AND 0x80) XOR (y AND 0x80)" for y
    by (simp add: bit_eq_iff bit_simps) blast
  with z show ?thesis by simp
qed

lemma pn_len_bounds: "1 \<le> unat (((x :: u8) AND 0x03) + 1)" "unat (((x :: u8) AND 0x03) + 1) \<le> 4"
proof -
  have "x AND 0x03 \<le> 0x03" by (rule word_and_le1)
  then have "unat (x AND 0x03) \<le> 3" by (simp add: word_le_nat_alt)
  then have "unat ((x AND 0x03) + 1) = Suc (unat (x AND 0x03))" by (simp add: unat_word_ariths)
  with \<open>unat (x AND 0x03) \<le> 3\<close> show "1 \<le> unat ((x AND 0x03) + 1)" "unat ((x AND 0x03) + 1) \<le> 4"
    by simp_all
qed

lemma get_range_Some:
  "get_range xs i j = Some ys \<longleftrightarrow> i \<le> j \<and> j \<le> length xs \<and> ys = slice i j xs"
  by (auto simp: get_range_def)

text \<open>
  One application of the mask, as two updates of disjoint parts of the packet: the first byte, and
  the packet-number field in front of the sample.
\<close>

lemma hp_apply_result:
  assumes "pn_offset + 4 + HP_SAMPLE_LEN \<le> length p"
  shows "hp_apply P k pn_offset p masked =
    (let m = hp_mask P (ihk_key k) (slice (pn_offset + 4) (pn_offset + 4 + HP_SAMPLE_LEN) p);
         f = p ! 0 XOR (m ! 0 AND (if p ! 0 AND 0x80 = 0x80 then 0x0f else 0x1f));
         n = unat (((if masked then f else p ! 0) AND 0x03) + 1)
     in Some (xor_at (p[0 := f]) pn_offset (slice 1 (1 + n) m)))"
  using assms by (simp add: hp_apply_def get_range_def Let_def)

lemma length_hkdf_label_info [simp]: "length (hkdf_label_info n l) = length l + 10"
  by (simp add: hkdf_label_info_layout ascii_def)

lemma length_initial_iv:
  "crypto_ok P \<Longrightarrow> length (ipk_iv (packet_local (initial_keys_from_psk P psk dcid s))) = IV_LEN"
  by (cases s) (simp_all add: initial_keys_from_psk_def directional_keys_of_def expand_label_def
      crypto_ok_def Let_def)

text \<open>Both sides derive the same pair of directional keys; what one side calls local the other calls remote.\<close>

fun peer :: "side \<Rightarrow> side" where
  "peer Client = Server"
| "peer Server = Client"

lemma peer_keys:
  "packet_remote (initial_keys_from_psk P psk dcid (peer s)) = packet_local (initial_keys_from_psk P psk dcid s)"
  "header_remote (initial_keys_from_psk P psk dcid (peer s)) = header_local (initial_keys_from_psk P psk dcid s)"
  by (cases s; simp add: initial_keys_from_psk_def Let_def)+

lemma server_opens_client:
  "\<exists>ks. server_initial_keys P psk QUIC_V1 dcid = Some ks
     \<and> packet_remote ks = packet_local (session_initial_keys P psk dcid Client)"
  using peer_keys(1) [of P psk dcid Client] by (simp add: server_initial_keys_def session_initial_keys_def)

lemma seal_opens:
  assumes ok: "crypto_ok P" and room: "length tagroom = TAG_LEN"
  shows "\<exists>sealed. packet_encrypt P k pn (hdr @ payload @ tagroom) (length hdr) = Some (hdr @ sealed)
     \<and> length sealed = length payload + TAG_LEN \<and> packet_decrypt P k pn hdr sealed = Some payload"
proof -
  let ?sealed = "fst (aead_seal P (ipk_key k) (packet_nonce k pn) hdr payload) @
                 snd (aead_seal P (ipk_key k) (packet_nonce k pn) hdr payload)"
  have "packet_encrypt P k pn (hdr @ payload @ tagroom) (length hdr) = Some (hdr @ ?sealed)"
    using room by (simp add: packet_encrypt_def Let_def case_prod_beta)
  moreover have "packet_decrypt P k pn hdr ?sealed = Some payload" "length ?sealed = length payload + TAG_LEN"
    using ok by (auto simp: packet_decrypt_def crypto_ok_def)
  ultimately show ?thesis by blast
qed

text \<open>A concrete instance of the primitives, for the witnesses: an additive cipher with a constant tag.\<close>

definition toy_prims :: crypto_prims where
  "toy_prims = \<lparr>hkdf_extract = (\<lambda>salt ikm. salt @ ikm),
     hkdf_expand = (\<lambda>prk info n. map (\<lambda>i. word_of_nat (length prk + length info + i)) [0..<n]),
     aead_seal = (\<lambda>k n a pt. (map (\<lambda>b. b + 7) pt, replicate 16 (word_of_nat (length a)))),
     aead_open = (\<lambda>k n a ct. if drop (length ct - 16) ct = replicate 16 (word_of_nat (length a))
                            then Some (map (\<lambda>b. b - 7) (take (length ct - 16) ct)) else None),
     hp_mask = (\<lambda>k s. [hd s + 3, 5, 6, 7, 8])\<rparr>"

lemma toy_prims_ok: "crypto_ok toy_prims"
  by (auto simp: crypto_ok_def toy_prims_def TAG_LEN_def o_def)

section \<open>Properties\<close>

text \<open>
  C31. Header protection is undone by its inverse: whenever the packet holds a whole sample, masking
  succeeds, keeps the length and the header form bit, and unmasking the result gives the packet back,
  although the number of masked packet-number bytes is read from the first byte, which is itself
  masked. Too short a packet is a slice panic on both sides.
\<close>

theorem header_protection_roundtrip:
  assumes ok: "crypto_ok P" and pn: "1 \<le> pn_offset"
  shows "if pn_offset + 4 + HP_SAMPLE_LEN \<le> length p
         then \<exists>q. header_encrypt P k pn_offset p = Some q \<and> length q = length p
                \<and> (q ! 0 AND 0x80 = p ! 0 AND 0x80)
                \<and> slice (pn_offset + 4) (length p) q = slice (pn_offset + 4) (length p) p
                \<and> header_decrypt P k pn_offset q = Some p
         else header_encrypt P k pn_offset p = None \<and> header_decrypt P k pn_offset p = None"
proof (cases "pn_offset + 4 + HP_SAMPLE_LEN \<le> length p")
  case False
  then show ?thesis
    by (simp add: header_encrypt_def header_decrypt_def hp_apply_def get_range_def)
next
  case True
  define m where "m = hp_mask P (ihk_key k) (slice (pn_offset + 4) (pn_offset + 4 + HP_SAMPLE_LEN) p)"
  define bits :: u8 where "bits = (if p ! 0 AND 0x80 = 0x80 then 0x0f else 0x1f)"
  define f where "f = p ! 0 XOR (m ! 0 AND bits)"
  define ms where "ms = slice 1 (1 + unat ((p ! 0 AND 0x03) + 1)) m"
  define q where "q = xor_at (p[0 := f]) pn_offset ms"
  have lm: "length m = 5" using ok by (simp add: m_def crypto_ok_def)
  have lms: "length ms \<le> 4" using pn_len_bounds [of "p ! 0"] lm by (simp add: ms_def)
  have ne: "p \<noteq> []" using True by (auto simp: HP_SAMPLE_LEN_def)
  have fit: "pn_offset + length ms \<le> length p" using lms True by simp
  have enc: "header_encrypt P k pn_offset p = Some q"
    using hp_apply_result [OF True, of P k False]
    by (simp add: header_encrypt_def Let_def q_def f_def ms_def m_def bits_def)
  have lq: "length q = length p" using fit by (simp add: q_def)
  have q0: "q ! 0 = f" using ne pn by (simp add: q_def xor_at_first)
  have form: "(f AND 0x80 = 0x80) = (p ! 0 AND 0x80 = 0x80)" by (simp add: f_def bits_def form_bit_same)
  have form': "f AND 0x80 = p ! 0 AND 0x80" 
    unfolding f_def bits_def by (rule form_bit_same)
  have tail: "slice a b q = slice a b p" if "pn_offset + 4 \<le> a" for a b
    using that lms fit pn by (simp add: q_def slice_xor_at_after slice_update_first)
  have unmask: "f XOR (m ! 0 AND bits) = p ! 0" by (simp add: f_def xor.assoc)
  have "header_decrypt P k pn_offset q = Some (xor_at (q[0 := p ! 0]) pn_offset ms)"
    using True lq hp_apply_result [of pn_offset q P k True]
    by (simp add: header_decrypt_def Let_def tail m_def [symmetric] q0 form bits_def [symmetric] unmask ms_def)
  also have "xor_at (q[0 := p ! 0]) pn_offset ms = (xor_at q pn_offset ms)[0 := p ! 0]"
    using pn by (rule xor_at_update_first)
  also have "xor_at q pn_offset ms = p[0 := f]" using fit by (simp add: q_def xor_at_twice)
  finally have "header_decrypt P k pn_offset q = Some p" by simp
  with True enc lq q0 form' tail show ?thesis by auto
qed

text \<open>Witness: a 22-byte long-header packet under the concrete primitives.\<close>

theorem header_protection_roundtrip_witness:
  "\<exists>q. header_encrypt toy_prims \<lparr>ihk_key = []\<rparr> 1 (0xc1 # replicate 21 9) = Some q
     \<and> q \<noteq> 0xc1 # replicate 21 9
     \<and> header_decrypt toy_prims \<lparr>ihk_key = []\<rparr> 1 q = Some (0xc1 # replicate 21 9)"
proof -
  have "header_encrypt toy_prims \<lparr>ihk_key = []\<rparr> 1 (0xc1 # replicate 21 9) \<noteq> Some (0xc1 # replicate 21 9)"
    by code_simp
  with header_protection_roundtrip [OF toy_prims_ok, of 1 "0xc1 # replicate 21 9" "\<lparr>ihk_key = []\<rparr>"]
  show ?thesis by (auto simp: HP_SAMPLE_LEN_def)
qed

text \<open>
  C32. A sealed Initial opens at the other side, whichever side sends it: the local packet key of one
  endpoint is the remote key of its peer when both derived them from the same PSK and DCID, the server
  through \<open>PskServerConfig\<close> only for QUIC v1. A buffer without room for the tag is a slice panic.
\<close>

theorem initial_packet_opens_at_peer:
  assumes ok: "crypto_ok P" and room: "length hdr = header_len" "length tagroom = TAG_LEN"
  shows "\<exists>sealed. packet_encrypt P (packet_local (session_initial_keys P psk dcid s)) pn (hdr @ payload @ tagroom) header_len
             = Some (hdr @ sealed) \<and> length sealed = length payload + TAG_LEN
           \<and> packet_decrypt P (packet_remote (session_initial_keys P psk dcid (peer s))) pn hdr sealed = Some payload
           \<and> (s = Client \<longrightarrow> (\<exists>ks. server_initial_keys P psk QUIC_V1 dcid = Some ks
                 \<and> packet_decrypt P (packet_remote ks) pn hdr sealed = Some payload))"
proof -
  let ?k = "packet_local (session_initial_keys P psk dcid s)"
  obtain sealed where enc: "packet_encrypt P ?k pn (hdr @ payload @ tagroom) header_len = Some (hdr @ sealed)"
    "length sealed = length payload + TAG_LEN" "packet_decrypt P ?k pn hdr sealed = Some payload"
    using seal_opens [OF ok room(2), of ?k pn hdr payload] room(1) by blast
  have peer: "packet_remote (session_initial_keys P psk dcid (peer s)) = ?k"
    by (simp add: session_initial_keys_def peer_keys)
  have "\<exists>ks. server_initial_keys P psk QUIC_V1 dcid = Some ks \<and> packet_remote ks = ?k" if "s = Client"
    using that server_opens_client [of P psk dcid] by blast
  with enc peer show ?thesis by (intro exI [of _ sealed]) auto
qed

text \<open>Witness: a three-byte payload behind a two-byte header.\<close>

theorem initial_packet_opens_at_peer_witness:
  "\<exists>sealed. packet_encrypt toy_prims (packet_local (session_initial_keys toy_prims [1] [2] Client)) 0
       ([9, 9] @ [1, 2, 3] @ replicate 16 0) 2 = Some ([9, 9] @ sealed)
     \<and> packet_decrypt toy_prims (packet_remote (session_initial_keys toy_prims [1] [2] Server)) 0 [9, 9] sealed
        = Some [1, 2, 3]"
  using initial_packet_opens_at_peer [OF toy_prims_ok, of "[9, 9]" 2 "replicate 16 0" "[1]" "[2]" Client 0 "[1, 2, 3]"]
  by (auto simp: TAG_LEN_def)

text \<open>
  No two Initial packets of a direction share a nonce: the nonce is a 12-byte injective function
  of the packet number.
\<close>

theorem packet_nonce_unique:
  assumes ok: "crypto_ok P"
  shows "length (packet_nonce (packet_local (session_initial_keys P psk dcid s)) i) = IV_LEN
         \<and> (packet_nonce (packet_local (session_initial_keys P psk dcid s)) i
            = packet_nonce (packet_local (session_initial_keys P psk dcid s)) j \<longleftrightarrow> i = j)"
proof -
  let ?iv = "ipk_iv (packet_local (session_initial_keys P psk dcid s))"
  have iv: "length ?iv = 12"
    using length_initial_iv [OF ok, of psk dcid s] by (simp add: session_initial_keys_def IV_LEN_def)
  have bnd: "unat (x :: u64) < 256 ^ 8" for x using unsigned_less [of x] by simp
  have "i = j" if "map2 (XOR) (drop (IV_LEN - 8) ?iv) (be_bytes 8 (unat i)) =
                   map2 (XOR) (drop (IV_LEN - 8) ?iv) (be_bytes 8 (unat j))"
  proof -
    have "length (drop (IV_LEN - 8) ?iv) = 8" using iv by (simp add: IV_LEN_def)
    then have "be_bytes 8 (unat i) = be_bytes 8 (unat j)"
      using map2_xor_inj [OF _ _ that] by (simp only: length_be_bytes)
    then have "unat i = unat j" using be_bytes_inj [OF bnd bnd] by blast
    then show ?thesis by (rule unsigned_word_eqI)
  qed
  with iv show ?thesis by (auto simp: packet_nonce_def Let_def IV_LEN_def)
qed

text \<open>Witness: packets 1 and 2 under the concrete primitives.\<close>

theorem packet_nonce_unique_witness:
  "packet_nonce (packet_local (session_initial_keys toy_prims [1] [2] Client)) 1
   \<noteq> packet_nonce (packet_local (session_initial_keys toy_prims [1] [2] Client)) 2"
proof -
  have "(1 :: u64) \<noteq> 2" by simp
  with packet_nonce_unique [OF toy_prims_ok, of "[1]" "[2]" Client 1 2] show ?thesis by blast
qed

text \<open>
  The derivation's labels are pairwise separated: two \<open>HkdfLabel\<close> infos are equal only for the
  same label and the same requested length, in the range where the two-byte length does not wrap; so
  the five Initial secrets, keys, IVs and header-protection keys are expanded from different infos.
\<close>

theorem hkdf_label_info_separates:
  "(hkdf_label_info n l = hkdf_label_info m l' \<longleftrightarrow> n mod 65536 = m mod 65536 \<and> l = l')
   \<and> distinct [hkdf_label_info SECRET_LEN (ascii ''client in''), hkdf_label_info SECRET_LEN (ascii ''server in''),
        hkdf_label_info AEAD_KEY_LEN (ascii ''quic key''), hkdf_label_info IV_LEN (ascii ''quic iv''),
        hkdf_label_info AEAD_KEY_LEN (ascii ''quic hp'')]"
proof -
  have iff: "hkdf_label_info n l = hkdf_label_info m l' \<longleftrightarrow> n mod 65536 = m mod 65536 \<and> l = l'" for n m l l'
  proof -
    have u: "unat (word_of_nat x :: u16) = x mod 65536" for x by (simp add: unat_of_nat)
    have "be_bytes 2 (n mod 65536) = be_bytes 2 (m mod 65536) \<longleftrightarrow> n mod 65536 = m mod 65536"
      by (rule be_bytes_inj) simp_all
    moreover have "a @ [b] @ t @ l @ [z] = a' @ [b'] @ t @ l' @ [z] \<longleftrightarrow> a = a' \<and> b = b' \<and> l = l'"
      if "length a = length a'" for a a' t :: bytes and b b' z
      using that by simp
    ultimately show ?thesis by (auto simp only: hkdf_label_info_layout u length_be_bytes)
  qed
  have "distinct [hkdf_label_info SECRET_LEN (ascii ''client in''), hkdf_label_info SECRET_LEN (ascii ''server in''),
        hkdf_label_info AEAD_KEY_LEN (ascii ''quic key''), hkdf_label_info IV_LEN (ascii ''quic iv''),
        hkdf_label_info AEAD_KEY_LEN (ascii ''quic hp'')]"
    by (simp add: iff ascii_def AEAD_KEY_LEN_def IV_LEN_def SECRET_LEN_def)
  with iff show ?thesis by blast
qed

end
