(* ===== verification/Session.thy ===== *)
theory Session
  imports InitialKeys
begin

text \<open>
  \<open>proto/src/initial_keys.rs\<close>, the crypto configurations and the TLS session wrapper: quinn drives a
  \<open>Session\<close>; \<open>PskSession\<close> answers \<open>initial_keys\<close> from the pre-shared key and hands every other call to the
  rustls session inside. The rustls session and configurations are parameters.
\<close>

section \<open>A TLS session as quinn drives it\<close>

text \<open>
  Initial keys are the ones of this crate or another implementation's. A session's operations, by value:
  those that take \<open>&mut self\<close> return the session they leave; \<open>write_handshake\<close> also returns the buffer,
  \<open>export_keying_material\<close> the bytes it fills the output with.
\<close>

datatype 'k any_keys = FromPsk keys | FromTls 'k

record ('s, 'k, 'x, 'p, 'err) tls_session =
  ts_initial_keys :: "'s \<Rightarrow> bytes \<Rightarrow> side \<Rightarrow> 'k any_keys"
  ts_handshake_data :: "'s \<Rightarrow> 'x option"
  ts_peer_identity :: "'s \<Rightarrow> 'x option"
  ts_early_crypto :: "'s \<Rightarrow> 'k option"
  ts_early_data_accepted :: "'s \<Rightarrow> bool option"
  ts_is_handshaking :: "'s \<Rightarrow> bool"
  ts_read_handshake :: "bytes \<Rightarrow> 's \<Rightarrow> ('err + bool) \<times> 's"
  ts_transport_parameters :: "'s \<Rightarrow> 'err + 'p option"
  ts_write_handshake :: "bytes \<Rightarrow> 's \<Rightarrow> 'k any_keys option \<times> bytes \<times> 's"
  ts_next_1rtt_keys :: "'s \<Rightarrow> 'k option \<times> 's"
  ts_is_valid_retry :: "'s \<Rightarrow> bytes \<Rightarrow> bytes \<Rightarrow> bytes \<Rightarrow> bool"
  ts_export_keying_material :: "'s \<Rightarrow> nat \<Rightarrow> bytes \<Rightarrow> bytes \<Rightarrow> bytes option"

section \<open>The wrapper\<close>

record 's psk_session =
  ps_inner :: 's
  ps_key :: bytes

definition psk_initial_keys :: "crypto_prims \<Rightarrow> 's psk_session \<Rightarrow> bytes \<Rightarrow> side \<Rightarrow> 'k any_keys" where
  "psk_initial_keys P ps dst_cid side = FromPsk (session_initial_keys P (ps_key ps) dst_cid side)"

definition psk_handshake_data :: "('s, 'k, 'x, 'p, 'err) tls_session \<Rightarrow> 's psk_session \<Rightarrow> 'x option" where
  "psk_handshake_data T ps = ts_handshake_data T (ps_inner ps)"

definition psk_peer_identity :: "('s, 'k, 'x, 'p, 'err) tls_session \<Rightarrow> 's psk_session \<Rightarrow> 'x option" where
  "psk_peer_identity T ps = ts_peer_identity T (ps_inner ps)"

definition psk_early_crypto :: "('s, 'k, 'x, 'p, 'err) tls_session \<Rightarrow> 's psk_session \<Rightarrow> 'k option" where
  "psk_early_crypto T ps = ts_early_crypto T (ps_inner ps)"

definition psk_early_data_accepted :: "('s, 'k, 'x, 'p, 'err) tls_session \<Rightarrow> 's psk_session \<Rightarrow> bool option" where
  "psk_early_data_accepted T ps = ts_early_data_accepted T (ps_inner ps)"

definition psk_is_handshaking :: "('s, 'k, 'x, 'p, 'err) tls_session \<Rightarrow> 's psk_session \<Rightarrow> bool" where
  "psk_is_handshaking T ps = ts_is_handshaking T (ps_inner ps)"

definition psk_read_handshake ::
  "('s, 'k, 'x, 'p, 'err) tls_session \<Rightarrow> bytes \<Rightarrow> 's psk_session \<Rightarrow> ('err + bool) \<times> 's psk_session" where
  "psk_read_handshake T buf ps = (let (r, s) = ts_read_handshake T buf (ps_inner ps) in (r, ps\<lparr>ps_inner := s\<rparr>))"

definition psk_transport_parameters :: "('s, 'k, 'x, 'p, 'err) tls_session \<Rightarrow> 's psk_session \<Rightarrow> 'err + 'p option" where
  "psk_transport_parameters T ps = ts_transport_parameters T (ps_inner ps)"

definition psk_write_handshake ::
  "('s, 'k, 'x, 'p, 'err) tls_session \<Rightarrow> bytes \<Rightarrow> 's psk_session \<Rightarrow> 'k any_keys option \<times> bytes \<times> 's psk_session" where
  "psk_write_handshake T buf ps =
     (let (r, buf', s) = ts_write_handshake T buf (ps_inner ps) in (r, buf', ps\<lparr>ps_inner := s\<rparr>))"

definition psk_next_1rtt_keys :: "('s, 'k, 'x, 'p, 'err) tls_session \<Rightarrow> 's psk_session \<Rightarrow> 'k option \<times> 's psk_session" where
  "psk_next_1rtt_keys T ps = (let (r, s) = ts_next_1rtt_keys T (ps_inner ps) in (r, ps\<lparr>ps_inner := s\<rparr>))"

definition psk_is_valid_retry :: "('s, 'k, 'x, 'p, 'err) tls_session \<Rightarrow> 's psk_session \<Rightarrow> bytes \<Rightarrow> bytes \<Rightarrow> bytes \<Rightarrow> bool" where
  "psk_is_valid_retry T ps orig_dst_cid header payload = ts_is_valid_retry T (ps_inner ps) orig_dst_cid header payload"

definition psk_export_keying_material ::
  "('s, 'k, 'x, 'p, 'err) tls_session \<Rightarrow> 's psk_session \<Rightarrow> nat \<Rightarrow> bytes \<Rightarrow> bytes \<Rightarrow> bytes option" where
  "psk_export_keying_material T ps out_len label context = ts_export_keying_material T (ps_inner ps) out_len label context"

text \<open>\<open>impl Session for PskSession\<close>\<close>

definition psk_session_of ::
  "crypto_prims \<Rightarrow> ('s, 'k, 'x, 'p, 'err) tls_session \<Rightarrow> ('s psk_session, 'k, 'x, 'p, 'err) tls_session" where
  "psk_session_of P T = \<lparr>
     ts_initial_keys = psk_initial_keys P,
     ts_handshake_data = psk_handshake_data T,
     ts_peer_identity = psk_peer_identity T,
     ts_early_crypto = psk_early_crypto T,
     ts_early_data_accepted = psk_early_data_accepted T,
     ts_is_handshaking = psk_is_handshaking T,
     ts_read_handshake = psk_read_handshake T,
     ts_transport_parameters = psk_transport_parameters T,
     ts_write_handshake = psk_write_handshake T,
     ts_next_1rtt_keys = psk_next_1rtt_keys T,
     ts_is_valid_retry = psk_is_valid_retry T,
     ts_export_keying_material = psk_export_keying_material T\<rparr>"

section \<open>The configurations\<close>

text \<open>\<open>'i\<close> is the rustls configuration inside.\<close>

record 'i psk_server_config =
  pv_inner :: 'i
  pv_psk :: bytes

definition psk_server_new :: "'i \<Rightarrow> bytes \<Rightarrow> 'i psk_server_config" where
  "psk_server_new inner psk = \<lparr>pv_inner = inner, pv_psk = psk\<rparr>"

definition psk_server_initial_keys :: "crypto_prims \<Rightarrow> 'i psk_server_config \<Rightarrow> u32 \<Rightarrow> bytes \<Rightarrow> keys option" where
  "psk_server_initial_keys P cfg version dst_cid = server_initial_keys P (pv_psk cfg) version dst_cid"

definition psk_retry_tag ::
  "('i \<Rightarrow> u32 \<Rightarrow> bytes \<Rightarrow> bytes \<Rightarrow> bytes) \<Rightarrow> 'i psk_server_config \<Rightarrow> u32 \<Rightarrow> bytes \<Rightarrow> bytes \<Rightarrow> bytes" where
  "psk_retry_tag tag cfg version orig_dst_cid packet = tag (pv_inner cfg) version orig_dst_cid packet"

definition psk_server_start_session ::
  "('i \<Rightarrow> u32 \<Rightarrow> 'p \<Rightarrow> 's) \<Rightarrow> 'i psk_server_config \<Rightarrow> u32 \<Rightarrow> 'p \<Rightarrow> 's psk_session" where
  "psk_server_start_session start cfg version params = \<lparr>ps_inner = start (pv_inner cfg) version params, ps_key = pv_psk cfg\<rparr>"

record 'i psk_client_config =
  pc_inner :: 'i
  pc_psk :: bytes

definition psk_client_new :: "'i \<Rightarrow> bytes \<Rightarrow> 'i psk_client_config" where
  "psk_client_new inner psk = \<lparr>pc_inner = inner, pc_psk = psk\<rparr>"

definition psk_client_start_session ::
  "('i \<Rightarrow> u32 \<Rightarrow> string \<Rightarrow> 'p \<Rightarrow> 'err + 's) \<Rightarrow> 'i psk_client_config \<Rightarrow> u32 \<Rightarrow> string \<Rightarrow> 'p \<Rightarrow> 'err + 's psk_session" where
  "psk_client_start_session start cfg version server_name params =
     (case start (pc_inner cfg) version server_name params of
        Inl e \<Rightarrow> Inl e
      | Inr s \<Rightarrow> Inr \<lparr>ps_inner = s, ps_key = pc_psk cfg\<rparr>)"

section \<open>The contract: nothing but the Initial keys changes\<close>

text \<open>The calls quinn makes on a session, and their answers, as data.\<close>

datatype session_call =
    InitialKeysCall bytes side
  | HandshakeData
  | PeerIdentity
  | EarlyCrypto
  | EarlyDataAccepted
  | IsHandshaking
  | ReadHandshake bytes
  | TransportParameters
  | WriteHandshake bytes
  | Next1rttKeys
  | IsValidRetry bytes bytes bytes
  | ExportKeyingMaterial nat bytes bytes

datatype ('k, 'x, 'p, 'err) session_answer =
    KeysAnswer "'k any_keys"
  | DataAnswer "'x option"
  | CryptoAnswer "'k option"
  | AcceptedAnswer "bool option"
  | BoolAnswer bool
  | ReadAnswer "'err + bool"
  | ParametersAnswer "'err + 'p option"
  | WriteAnswer "'k any_keys option" bytes
  | BytesAnswer "bytes option"

fun session_exec ::
  "('s, 'k, 'x, 'p, 'err) tls_session \<Rightarrow> 's \<Rightarrow> session_call \<Rightarrow> ('k, 'x, 'p, 'err) session_answer \<times> 's" where
  "session_exec T s (InitialKeysCall cid sd) = (KeysAnswer (ts_initial_keys T s cid sd), s)"
| "session_exec T s HandshakeData = (DataAnswer (ts_handshake_data T s), s)"
| "session_exec T s PeerIdentity = (DataAnswer (ts_peer_identity T s), s)"
| "session_exec T s EarlyCrypto = (CryptoAnswer (ts_early_crypto T s), s)"
| "session_exec T s EarlyDataAccepted = (AcceptedAnswer (ts_early_data_accepted T s), s)"
| "session_exec T s IsHandshaking = (BoolAnswer (ts_is_handshaking T s), s)"
| "session_exec T s (ReadHandshake buf) = (let (r, s') = ts_read_handshake T buf s in (ReadAnswer r, s'))"
| "session_exec T s TransportParameters = (ParametersAnswer (ts_transport_parameters T s), s)"
| "session_exec T s (WriteHandshake buf) = (let (r, buf', s') = ts_write_handshake T buf s in (WriteAnswer r buf', s'))"
| "session_exec T s Next1rttKeys = (let (r, s') = ts_next_1rtt_keys T s in (CryptoAnswer r, s'))"
| "session_exec T s (IsValidRetry cid hdr payload) = (BoolAnswer (ts_is_valid_retry T s cid hdr payload), s)"
| "session_exec T s (ExportKeyingMaterial n label ctx) = (BytesAnswer (ts_export_keying_material T s n label ctx), s)"

text \<open>
  A wrapper refines the machine inside it, up to the answers it replaces: \<open>inner\<close> is the abstraction
  function, \<open>answer i a\<close> what the wrapper says where the machine inside says \<open>a\<close>.
\<close>

locale transparent_wrapper =
  fixes outer :: "'w \<Rightarrow> 'i \<Rightarrow> 'o \<times> 'w" and inner :: "'s \<Rightarrow> 'i \<Rightarrow> 'o \<times> 's"
    and abs :: "'w \<Rightarrow> 's" and tag :: "'w \<Rightarrow> 't" and answer :: "'t \<Rightarrow> 'i \<Rightarrow> 'o \<Rightarrow> 'o"
  assumes step_answer: "fst (outer w i) = answer (tag w) i (fst (inner (abs w) i))"
    and step_abs: "abs (snd (outer w i)) = snd (inner (abs w) i)"
    and step_tag: "tag (snd (outer w i)) = tag w"
begin

lemma run_transparent:
  "fst (run outer w is) = map2 (answer (tag w)) is (fst (run inner (abs w) is))
    \<and> abs (snd (run outer w is)) = snd (run inner (abs w) is) \<and> tag (snd (run outer w is)) = tag w"
  by (induction "is" arbitrary: w) (simp_all add: step_answer step_abs step_tag)

end

text \<open>\<open>PskSession\<close> replaces the answers to \<open>initial_keys\<close>, and only those.\<close>

fun rekeyed :: "crypto_prims \<Rightarrow> bytes \<Rightarrow> session_call \<Rightarrow> ('k, 'x, 'p, 'err) session_answer \<Rightarrow> ('k, 'x, 'p, 'err) session_answer" where
  "rekeyed P psk (InitialKeysCall cid sd) a = KeysAnswer (FromPsk (session_initial_keys P psk cid sd))"
| "rekeyed P psk _ a = a"

lemmas psk_session_defs = psk_session_of_def psk_initial_keys_def psk_handshake_data_def psk_peer_identity_def
  psk_early_crypto_def psk_early_data_accepted_def psk_is_handshaking_def psk_read_handshake_def
  psk_transport_parameters_def psk_write_handshake_def psk_next_1rtt_keys_def psk_is_valid_retry_def
  psk_export_keying_material_def

interpretation psk_wrapper: transparent_wrapper "session_exec (psk_session_of P T)" "session_exec T" ps_inner ps_key "rekeyed P"
  for P and T :: "('s, 'k, 'x, 'p, 'err) tls_session"
proof
  fix w :: "'s psk_session" and i
  show "fst (session_exec (psk_session_of P T) w i) = rekeyed P (ps_key w) i (fst (session_exec T (ps_inner w) i))"
    "ps_inner (snd (session_exec (psk_session_of P T) w i)) = snd (session_exec T (ps_inner w) i)"
    "ps_key (snd (session_exec (psk_session_of P T) w i)) = ps_key w"
    by (cases i; simp add: psk_session_defs case_prod_beta)+
qed

section \<open>Properties\<close>

text \<open>
  C33. The wrapped TLS session is the rustls session except for the Initial keys: a session started by
  either configuration answers every sequence of calls exactly as the rustls session inside it would,
  with each \<open>initial_keys\<close> answered from the configuration's key and the given connection ID whatever
  happened before; a client configuration fails to start exactly when rustls does.
\<close>

theorem psk_session_transparent:
  "fst (run (session_exec (psk_session_of P T)) (psk_server_start_session start (psk_server_new i psk) v params) calls)
      = map2 (rekeyed P psk) calls (fst (run (session_exec T) (start i v params) calls))
    \<and> (case (psk_client_start_session cstart (psk_client_new j psk) v name params, cstart j v name params) of
         (Inl e, Inl e') \<Rightarrow> e = e'
       | (Inr ps, Inr s) \<Rightarrow> fst (run (session_exec (psk_session_of P T)) ps calls) = map2 (rekeyed P psk) calls (fst (run (session_exec T) s calls))
       | _ \<Rightarrow> False)"
  using psk_wrapper.run_transparent [of P T]
  by (auto simp: psk_server_start_session_def psk_server_new_def psk_client_start_session_def psk_client_new_def split: sum.splits)

end
