(* ===== verification/F64.thy ===== *)
theory F64
  imports Prelude Complex_Main "HOL-Library.Log_Nat"
begin

text \<open>
  The \<open>f64\<close> arithmetic the rate limiter does. A finite, normal, non-NaN \<open>f64\<close> is the rational it
  denotes; each operation computes the exact result and rounds it to 53 significant bits, ties to
  even (IEEE 754 binary64). Overflow, subnormals, infinities and NaN are outside the model: the
  limiter's quantities are token counts, seconds and tokens per second.
\<close>

type_synonym f64 = rat

section \<open>Rounding to 53 significant bits\<close>

definition binexp :: "rat \<Rightarrow> int" where
  "binexp x =
     (let (p, q) = quotient_of x; e = bitlen p - bitlen q
      in if 2 powi e \<le> x then e else e - 1)"

definition round_even :: "rat \<Rightarrow> int" where
  "round_even x =
     (let f = \<lfloor>x\<rfloor>; d = x - of_int f
      in if d < 1 / 2 then f else if 1 / 2 < d then f + 1 else if even f then f else f + 1)"

definition round_pos :: "rat \<Rightarrow> rat" where
  "round_pos x = of_int (round_even (x * 2 powi (52 - binexp x))) * 2 powi (binexp x - 52)"

definition f64_round :: "rat \<Rightarrow> f64" where
  "f64_round x = (if x = 0 then 0 else if 0 < x then round_pos x else - round_pos (- x))"

definition f64_add :: "f64 \<Rightarrow> f64 \<Rightarrow> f64" where
  "f64_add a b = f64_round (a + b)"

definition f64_sub :: "f64 \<Rightarrow> f64 \<Rightarrow> f64" where
  "f64_sub a b = f64_round (a - b)"

definition f64_mul :: "f64 \<Rightarrow> f64 \<Rightarrow> f64" where
  "f64_mul a b = f64_round (a * b)"

definition f64_div :: "f64 \<Rightarrow> f64 \<Rightarrow> f64" where
  "f64_div a b = f64_round (a / b)"

definition f64_of_nat :: "nat \<Rightarrow> f64" where
  "f64_of_nat n = f64_round (of_nat n)"

text \<open>\<open>Duration::as_secs_f64\<close> of a duration in nanoseconds: \<open>secs as f64 + nanos as f64 / 1e9\<close>.\<close>

definition as_secs_f64 :: "nat \<Rightarrow> f64" where
  "as_secs_f64 d =
     f64_add (f64_of_nat (d div 1000000000))
       (f64_div (f64_of_nat (d mod 1000000000)) (f64_of_nat 1000000000))"

section \<open>Rounding is monotone and exact on small integers\<close>

lemma powi2_pos [simp]: "(0 :: rat) < 2 powi e"
  by simp

lemma powi2_split: "(2 :: rat) powi (a + b) = 2 powi a * 2 powi b"
  by (rule power_int_add) simp

lemma powi2_mono: "a \<le> b \<Longrightarrow> (2 :: rat) powi a \<le> 2 powi b"
  by (rule power_int_increasing) auto

lemma powi2_nat: "0 \<le> e \<Longrightarrow> (2 :: rat) powi e = of_int (2 ^ nat e)"
  by (simp add: power_int_def)

lemma bitlen_powi:
  assumes "0 < p"
  shows "2 powi (bitlen p - 1) \<le> (of_int p :: rat)" and "(of_int p :: rat) < 2 powi bitlen p"
proof -
  have b: "0 < bitlen p" using assms bitlen_nonneg [of p] bitlen_eq_zero_iff [of p] by linarith
  from bitlen_bounds [OF assms] have "2 ^ nat (bitlen p - 1) \<le> p" "p < 2 ^ nat (bitlen p)" by auto
  then have "(of_int (2 ^ nat (bitlen p - 1)) :: rat) \<le> of_int p"
    and "(of_int p :: rat) < of_int (2 ^ nat (bitlen p))"
    by (simp_all only: of_int_le_iff of_int_less_iff)
  with b show "2 powi (bitlen p - 1) \<le> (of_int p :: rat)" and "(of_int p :: rat) < 2 powi bitlen p"
    by (simp_all add: powi2_nat)
qed

lemma binexp_bounds:
  assumes "0 < x"
  shows "2 powi binexp x \<le> x" and "x < 2 powi (binexp x + 1)"
proof -
  obtain p q where pq: "quotient_of x = (p, q)" by (cases "quotient_of x")
  have q: "0 < q" and x: "x = of_int p / of_int q"
    using quotient_of_denom_pos [OF pq] quotient_of_div [OF pq] by auto
  with assms have p: "0 < p" by (simp add: zero_less_divide_iff)
  let ?e = "bitlen p - bitlen q"
  have lo: "2 powi (?e - 1) \<le> x"
  proof -
    have "2 powi (?e - 1) * of_int q \<le> (2 powi (?e - 1) * 2 powi bitlen q :: rat)"
      using bitlen_powi(2) [OF q] by (simp add: mult_left_mono)
    also have "\<dots> = 2 powi (bitlen p - 1)" by (simp flip: powi2_split)
    also have "\<dots> \<le> of_int p" by (rule bitlen_powi(1) [OF p])
    finally show ?thesis using q by (simp add: x pos_le_divide_eq)
  qed
  have hi: "x < 2 powi (?e + 1)"
  proof -
    have "of_int p < (2 powi bitlen p :: rat)" by (rule bitlen_powi(2) [OF p])
    also have "\<dots> = 2 powi (?e + 1) * 2 powi (bitlen q - 1)" by (simp flip: powi2_split)
    also have "\<dots> \<le> 2 powi (?e + 1) * of_int q"
      using bitlen_powi(1) [OF q] by (simp add: mult_left_mono)
    finally show ?thesis using q by (simp add: x pos_divide_less_eq)
  qed
  show "2 powi binexp x \<le> x" and "x < 2 powi (binexp x + 1)"
    using lo hi by (auto simp: binexp_def pq Let_def)
qed

lemma binexp_mono: "0 < x \<Longrightarrow> x \<le> y \<Longrightarrow> binexp x \<le> binexp y"
proof (rule ccontr)
  assume x: "0 < x" and xy: "x \<le> y" and "\<not> binexp x \<le> binexp y"
  then have "binexp y + 1 \<le> binexp x" by simp
  then have "(2 :: rat) powi (binexp y + 1) \<le> 2 powi binexp x" by (rule powi2_mono)
  with binexp_bounds [of x] binexp_bounds [of y] x xy show False by simp
qed

lemma round_even_bounds: "\<lfloor>x\<rfloor> \<le> round_even x" "round_even x \<le> \<lfloor>x\<rfloor> + 1"
  by (auto simp: round_even_def Let_def)

lemma round_even_of_int [simp]: "round_even (of_int n) = n"
  by (simp add: round_even_def)

lemma round_even_mono: "x \<le> y \<Longrightarrow> round_even x \<le> round_even y"
proof -
  assume xy: "x \<le> y"
  then have f: "\<lfloor>x\<rfloor> \<le> \<lfloor>y\<rfloor>" by (rule floor_mono)
  show ?thesis
  proof (cases "\<lfloor>x\<rfloor> = \<lfloor>y\<rfloor>")
    case True
    with xy show ?thesis by (auto simp: round_even_def Let_def)
  next
    case False
    with f have "\<lfloor>x\<rfloor> + 1 \<le> \<lfloor>y\<rfloor>" by simp
    with round_even_bounds [of x] round_even_bounds [of y] show ?thesis by linarith
  qed
qed

text \<open>The rounded value stays inside the closed binade of its argument.\<close>

lemma round_pos_binade:
  assumes "0 < x"
  shows "2 powi binexp x \<le> round_pos x" and "round_pos x \<le> 2 powi (binexp x + 1)"
proof -
  let ?e = "binexp x"
  have s: "(2 :: rat) powi ?e * 2 powi (52 - ?e) = of_int (2 ^ 52)"
    by (simp flip: powi2_split)
  have t: "(2 :: rat) powi (?e + 1) * 2 powi (52 - ?e) = of_int (2 ^ 53)"
    by (simp flip: powi2_split)
  have "of_int (2 ^ 52) \<le> x * 2 powi (52 - ?e)" and "x * 2 powi (52 - ?e) \<le> of_int (2 ^ 53)"
    unfolding s [symmetric] t [symmetric]
    using binexp_bounds [OF assms] by (simp_all add: mult_right_mono del: of_int_power)
  then have r: "2 ^ 52 \<le> round_even (x * 2 powi (52 - ?e))"
    "round_even (x * 2 powi (52 - ?e)) \<le> 2 ^ 53"
    using round_even_mono round_even_of_int by metis+
  have "of_int (2 ^ 52) * 2 powi (?e - 52) \<le> round_pos x"
    and "round_pos x \<le> of_int (2 ^ 53) * 2 powi (?e - 52)"
    unfolding round_pos_def using r by (simp_all only: mult_right_mono of_int_le_iff powi2_pos less_imp_le)
  moreover have "of_int (2 ^ 52) * 2 powi (?e - 52) = (2 powi ?e :: rat)"
    using powi2_split [of 52 "?e - 52"] by simp
  moreover have "of_int (2 ^ 53) * 2 powi (?e - 52) = (2 powi (?e + 1) :: rat)"
    using powi2_split [of 53 "?e - 52"] by (simp add: add.commute)
  ultimately show "2 powi ?e \<le> round_pos x" and "round_pos x \<le> 2 powi (?e + 1)"
    by simp_all
qed

lemma round_pos_mono: "0 < x \<Longrightarrow> x \<le> y \<Longrightarrow> round_pos x \<le> round_pos y"
proof -
  assume x: "0 < x" and xy: "x \<le> y"
  then have y: "0 < y" by simp
  show ?thesis
  proof (cases "binexp x = binexp y")
    case True
    have "x * 2 powi (52 - binexp x) \<le> y * 2 powi (52 - binexp x)"
      using xy by (simp add: mult_right_mono)
    then have "round_even (x * 2 powi (52 - binexp x)) \<le> round_even (y * 2 powi (52 - binexp y))"
      unfolding True by (rule round_even_mono)
    then show ?thesis
      unfolding round_pos_def True by (simp only: mult_right_mono of_int_le_iff powi2_pos less_imp_le)
  next
    case False
    with binexp_mono [OF x xy] have "binexp x + 1 \<le> binexp y" by simp
    then have "(2 :: rat) powi (binexp x + 1) \<le> 2 powi binexp y" by (rule powi2_mono)
    with round_pos_binade [OF x] round_pos_binade [OF y] show ?thesis by linarith
  qed
qed

lemma f64_round_0 [simp]: "f64_round 0 = 0"
  by (simp add: f64_round_def)

lemma round_pos_gt_0: "0 < x \<Longrightarrow> 0 < round_pos x"
  by (rule less_le_trans [OF powi2_pos round_pos_binade(1)])

lemma f64_round_pos: "0 < x \<Longrightarrow> 0 < f64_round x"
  by (simp add: f64_round_def round_pos_gt_0)

lemma f64_round_nonneg: "0 \<le> x \<Longrightarrow> 0 \<le> f64_round x"
  using f64_round_pos [of x] by (cases "x = 0") auto

lemma f64_round_mono: "0 \<le> x \<Longrightarrow> x \<le> y \<Longrightarrow> f64_round x \<le> f64_round y"
  using round_pos_mono [of x y] f64_round_nonneg [of y]
  by (auto simp: f64_round_def)

lemma f64_round_of_nat:
  assumes n: "n \<le> 2 ^ 53"
  shows "f64_round (of_nat n) = of_nat n"
proof (cases "n = 0")
  case True
  then show ?thesis by simp
next
  case False
  let ?x = "of_nat n :: rat" and ?e = "binexp (of_nat n)"
  have x: "0 < ?x" using False by simp
  have "(of_nat n :: rat) \<le> of_nat (2 ^ 53)" using n by (simp only: of_nat_le_iff)
  also have "\<dots> = 2 powi 53" by simp
  finally have "(2 :: rat) powi ?e \<le> 2 powi 53" using binexp_bounds(1) [OF x] by simp
  then have e: "?e \<le> 53"
    using powi2_mono [of 54 ?e] by (cases "?e \<le> 53") auto
  have "\<exists>k. ?x * 2 powi (52 - ?e) = of_int k"
  proof (cases "?e = 53")
    case True
    have "(2 :: rat) powi 53 \<le> ?x" using binexp_bounds(1) [OF x] True by simp
    with \<open>?x \<le> of_nat (2 ^ 53)\<close> have "?x = 2 powi 53" by simp
    then show ?thesis using True by (intro exI [of _ "2 ^ 52"]) simp
  next
    case False
    with e have "(2 :: rat) powi (52 - ?e) = of_int (2 ^ nat (52 - ?e))" by (simp add: powi2_nat)
    then show ?thesis by (intro exI [of _ "int n * 2 ^ nat (52 - ?e)"]) simp
  qed
  then obtain k where k: "?x * 2 powi (52 - ?e) = of_int k" ..
  then have "round_pos ?x = ?x * 2 powi (52 - ?e) * 2 powi (?e - 52)"
    by (simp add: round_pos_def)
  also have "\<dots> = ?x" by (simp add: mult.assoc flip: powi2_split)
  finally show ?thesis using False by (simp add: f64_round_def)
qed

lemma f64_round_1 [simp]: "f64_round 1 = 1"
  using f64_round_of_nat [of 1] by simp

lemma f64_round_numeral: "numeral k \<le> (2 ^ 53 :: nat) \<Longrightarrow> f64_round (numeral k) = numeral k"
  using f64_round_of_nat [of "numeral k"] by simp

lemma f64_of_nat_exact [simp]: "n \<le> 2 ^ 53 \<Longrightarrow> f64_of_nat n = of_nat n"
  by (simp add: f64_of_nat_def f64_round_of_nat)

lemma as_secs_f64_nonneg: "0 \<le> as_secs_f64 d"
  by (auto simp: as_secs_f64_def f64_add_def f64_div_def f64_of_nat_def
      intro!: f64_round_nonneg add_nonneg_nonneg divide_nonneg_nonneg)

text \<open>A duration of at least \<open>n\<close> seconds reads as at least \<open>n\<close>.\<close>

lemma as_secs_f64_ge:
  assumes "n * 1000000000 \<le> d" and "n \<le> 2 ^ 53"
  shows "of_nat n \<le> as_secs_f64 d"
proof -
  have "n \<le> d div 1000000000" using assms(1) by (simp add: less_eq_div_iff_mult_less_eq)
  then have "f64_round (of_nat n) \<le> f64_of_nat (d div 1000000000)"
    unfolding f64_of_nat_def by (intro f64_round_mono) auto
  then have "of_nat n \<le> f64_of_nat (d div 1000000000)" using assms(2) by (simp add: f64_round_of_nat)
  moreover have "0 \<le> f64_div (f64_of_nat (d mod 1000000000)) (f64_of_nat 1000000000)"
    by (auto simp: f64_div_def f64_of_nat_def intro!: f64_round_nonneg divide_nonneg_nonneg)
  ultimately have "f64_round (of_nat n) \<le> as_secs_f64 d"
    unfolding as_secs_f64_def f64_add_def by (intro f64_round_mono) auto
  with assms(2) show ?thesis by (simp add: f64_round_of_nat)
qed

lemma as_secs_f64_0 [simp]: "as_secs_f64 0 = 0"
  by (simp add: as_secs_f64_def f64_add_def f64_div_def f64_of_nat_def)

text \<open>A positive duration reads as a positive number of seconds.\<close>

lemma as_secs_f64_pos: "0 < d \<Longrightarrow> 0 < as_secs_f64 d"
proof -
  assume d: "0 < d"
  have nn: "0 \<le> f64_of_nat k" for k by (simp add: f64_of_nat_def f64_round_nonneg)
  have pos: "0 < f64_of_nat k" if "0 < k" for k using that by (simp add: f64_of_nat_def f64_round_pos)
  have nd: "0 \<le> f64_div (f64_of_nat k) (f64_of_nat 1000000000)" for k
    by (auto simp: f64_div_def nn intro!: f64_round_nonneg divide_nonneg_nonneg)
  have "0 < d div 1000000000 \<or> 0 < d mod 1000000000"
    using d by (metis div_mult_mod_eq gr0I mult_is_0 add_is_0 zero_neq_numeral)
  then have "0 < f64_of_nat (d div 1000000000)
     + f64_div (f64_of_nat (d mod 1000000000)) (f64_of_nat 1000000000)"
  proof
    assume "0 < d div 1000000000"
    then show ?thesis by (rule add_pos_nonneg [OF pos nd])
  next
    assume m: "0 < d mod 1000000000"
    have "0 < f64_of_nat 1000000000" by (rule pos) simp
    with pos [OF m] have "0 < f64_div (f64_of_nat (d mod 1000000000)) (f64_of_nat 1000000000)"
      by (auto simp: f64_div_def intro!: f64_round_pos divide_pos_pos)
    then show ?thesis by (rule add_nonneg_pos [OF nn])
  qed
  then show ?thesis unfolding as_secs_f64_def f64_add_def by (rule f64_round_pos)
qed

end
