(* ===== verification/Ratelimit.thy ===== *)
theory Ratelimit
  imports F64
begin

text \<open>
  \<open>proto/src/ratelimit.rs\<close>: the token buckets and the bounded per-source table in front of the
  pre-filter. The table's intrusive doubly linked LRU list is modelled with its links; \<open>lru_touch\<close>
  is the list-level specification it is proved to refine. \<open>None\<close> is one of the source's
  \<open>expect\<close> panics; the invariant shows that none is reachable.
\<close>

datatype ip_addr = V4 u32 | V6 "128 word"

section \<open>Token bucket\<close>

record token_bucket =
  capacity :: f64
  refill_per_sec :: f64
  tokens :: f64
  last_update :: "instant option"

definition bucket_new :: "f64 \<Rightarrow> f64 \<Rightarrow> token_bucket" where
  "bucket_new cap refill =
     \<lparr>capacity = cap, refill_per_sec = refill, tokens = cap, last_update = None\<rparr>"

definition refill :: "token_bucket \<Rightarrow> instant \<Rightarrow> token_bucket" where
  "refill b now =
     (case last_update b of
        None \<Rightarrow> b\<lparr>last_update := Some now\<rparr>
      | Some last' \<Rightarrow>
          let elapsed = as_secs_f64 (now - last')
          in if 0 < elapsed
             then b\<lparr>tokens := min (f64_add (tokens b) (f64_mul elapsed (refill_per_sec b))) (capacity b),
                    last_update := Some now\<rparr>
             else b)"

definition try_take :: "token_bucket \<Rightarrow> instant \<Rightarrow> bool \<times> token_bucket" where
  "try_take b now =
     (let b1 = refill b now
      in if 1 \<le> tokens b1 then (True, b1\<lparr>tokens := f64_sub (tokens b1) 1\<rparr>) else (False, b1))"

definition bucket_ok :: "token_bucket \<Rightarrow> bool" where
  "bucket_ok b \<longleftrightarrow> 0 \<le> tokens b \<and> tokens b \<le> capacity b \<and> 0 \<le> refill_per_sec b
     \<and> f64_round (capacity b) = capacity b \<and> (last_update b = None \<longrightarrow> tokens b = capacity b)"

lemma refill_fields [simp]:
  "capacity (refill b now) = capacity b" "refill_per_sec (refill b now) = refill_per_sec b"
  by (auto simp: refill_def Let_def split: option.splits)

lemma try_take_fields [simp]:
  "capacity (snd (try_take b now)) = capacity b"
  "refill_per_sec (snd (try_take b now)) = refill_per_sec b"
  by (simp_all add: try_take_def Let_def)

lemma last_update_refill: "last_update (refill b now) \<noteq> None"
  by (auto simp: refill_def Let_def split: option.splits)

lemma bucket_ok_new: "0 \<le> cap \<Longrightarrow> f64_round cap = cap \<Longrightarrow> 0 \<le> r \<Longrightarrow> bucket_ok (bucket_new cap r)"
  by (simp add: bucket_ok_def bucket_new_def)

lemma bucket_ok_refill: "bucket_ok b \<Longrightarrow> bucket_ok (refill b now)"
proof -
  assume ok: "bucket_ok b"
  then have "0 \<le> f64_add (tokens b) (f64_mul e (refill_per_sec b))" if "0 < e" for e
    using that by (auto simp: bucket_ok_def f64_add_def f64_mul_def
        intro!: f64_round_nonneg add_nonneg_nonneg mult_nonneg_nonneg)
  with ok show ?thesis
    by (auto simp: bucket_ok_def refill_def Let_def split: option.splits)
qed

lemma bucket_ok_try_take [keeps]: "bucket_ok b \<Longrightarrow> bucket_ok (snd (try_take b now))"
proof -
  assume "bucket_ok b"
  then have ok: "bucket_ok (refill b now)" by (rule bucket_ok_refill)
  have "f64_round (tokens (refill b now) - 1) \<le> f64_round (capacity b)"
    if "1 \<le> tokens (refill b now)"
    using that ok by (intro f64_round_mono) (auto simp: bucket_ok_def)
  with ok show ?thesis
    by (auto simp: try_take_def Let_def bucket_ok_def f64_sub_def last_update_refill
        intro: f64_round_nonneg)
qed

text \<open>
  Once a bucket has been refilled for an instant, further takes at that instant add nothing: a bucket
  that then holds at most \<open>n\<close> tokens grants at most \<open>n\<close> packets.
\<close>

lemma refill_twice: "tokens (refill ((refill b now)\<lparr>tokens := t\<rparr>) now) = t"
  by (auto simp: refill_def Let_def split: option.splits)

lemma refill_try_take: "tokens (refill (snd (try_take b now)) now) = tokens (snd (try_take b now))"
  using refill_twice [where b = b and now = now and t = "tokens (refill b now)"]
    refill_twice [where b = b and now = now and t = "f64_sub (tokens (refill b now)) 1"]
  by (simp add: try_take_def Let_def)

lemma try_take_same_instant:
  assumes "tokens (refill b now) \<le> of_nat n" and "n \<le> 2 ^ 53"
  shows "tokens (refill (snd (try_take b now)) now) \<le> of_nat (if fst (try_take b now) then n - 1 else n)"
    and "fst (try_take b now) \<Longrightarrow> 0 < n"
proof -
  let ?t = "tokens (refill b now)"
  have "f64_round (?t - 1) \<le> of_nat (n - 1)" if "1 \<le> ?t"
  proof -
    have n: "1 \<le> n" using that assms(1) by (cases n) auto
    then have "?t - 1 \<le> of_nat (n - 1)" using assms(1) by (simp add: of_nat_diff)
    then have "f64_round (?t - 1) \<le> f64_round (of_nat (n - 1))"
      using that by (intro f64_round_mono) auto
    also have "\<dots> = of_nat (n - 1)" using assms(2) by (intro f64_round_of_nat) auto
    finally show ?thesis .
  qed
  then show "tokens (refill (snd (try_take b now)) now) \<le> of_nat (if fst (try_take b now) then n - 1 else n)"
    unfolding refill_try_take using assms(1) by (auto simp: try_take_def Let_def f64_sub_def)
  show "fst (try_take b now) \<Longrightarrow> 0 < n"
    using assms(1) by (cases n) (auto simp: try_take_def Let_def split: if_splits)
qed

lemma last_update_try_take: "last_update (snd (try_take b now)) \<in> {Some now, last_update b}"
  by (auto simp: try_take_def refill_def Let_def split: option.splits)

text \<open>A bucket that has had a whole second to refill at one token per second or more grants.\<close>

lemma try_take_after_second:
  assumes "bucket_ok b" and "1 \<le> capacity b" and "1 \<le> refill_per_sec b"
    and "last_update b = Some l" and "l + 1000000000 \<le> now"
  shows "fst (try_take b now)"
proof -
  have "(of_nat 1 :: rat) \<le> as_secs_f64 (now - l)"
    using assms(5) by (intro as_secs_f64_ge) auto
  then have e: "1 \<le> as_secs_f64 (now - l)" by simp
  have "1 * 1 \<le> as_secs_f64 (now - l) * refill_per_sec b"
    using e assms(3) by (intro mult_mono) auto
  then have "f64_round (of_nat 1) \<le> f64_mul (as_secs_f64 (now - l)) (refill_per_sec b)"
    unfolding f64_mul_def by (intro f64_round_mono) auto
  then have "of_nat 1 \<le> f64_mul (as_secs_f64 (now - l)) (refill_per_sec b)"
    by (simp add: f64_round_of_nat)
  then have "f64_round (of_nat 1)
      \<le> f64_add (tokens b) (f64_mul (as_secs_f64 (now - l)) (refill_per_sec b))"
    unfolding f64_add_def using assms(1) by (intro f64_round_mono) (auto simp: bucket_ok_def)
  then have "1 \<le> tokens (refill b now)"
    using e assms(2,4) by (simp add: refill_def Let_def f64_round_of_nat)
  then show ?thesis by (simp add: try_take_def Let_def)
qed

section \<open>The per-source table and its LRU list\<close>

record source_entry =
  bucket :: token_bucket
  older :: "ip_addr option"
  newer :: "ip_addr option"

record rate_limiter =
  rl_global :: token_bucket
  per_source :: "(ip_addr \<times> source_entry) list"
  lru_head :: "ip_addr option"
  lru_tail :: "ip_addr option"
  per_source_capacity :: f64
  per_source_refill :: f64
  max_tracked :: nat

definition DEFAULT_PER_SOURCE_CAPACITY :: f64 where "DEFAULT_PER_SOURCE_CAPACITY = 32"
definition DEFAULT_PER_SOURCE_REFILL :: f64 where "DEFAULT_PER_SOURCE_REFILL = 8"
definition DEFAULT_GLOBAL_CAPACITY :: f64 where "DEFAULT_GLOBAL_CAPACITY = 2048"
definition DEFAULT_GLOBAL_REFILL :: f64 where "DEFAULT_GLOBAL_REFILL = 512"
definition MAX_TRACKED_SOURCES :: nat where "MAX_TRACKED_SOURCES = 4096"

definition with_params :: "f64 \<Rightarrow> f64 \<Rightarrow> f64 \<Rightarrow> f64 \<Rightarrow> nat \<Rightarrow> rate_limiter" where
  "with_params global_capacity global_refill ps_capacity ps_refill max_track =
     \<lparr>rl_global = bucket_new global_capacity global_refill, per_source = [],
      lru_head = None, lru_tail = None, per_source_capacity = ps_capacity,
      per_source_refill = ps_refill, max_tracked = max_track\<rparr>"

definition limiter_new :: rate_limiter where
  "limiter_new = with_params DEFAULT_GLOBAL_CAPACITY DEFAULT_GLOBAL_REFILL
     DEFAULT_PER_SOURCE_CAPACITY DEFAULT_PER_SOURCE_REFILL MAX_TRACKED_SOURCES"

text \<open>\<open>self.per_source.get_mut(&ip).expect(..)\<close> followed by a field write.\<close>

definition modify_entry ::
  "ip_addr \<Rightarrow> (source_entry \<Rightarrow> source_entry) \<Rightarrow> rate_limiter \<Rightarrow> rate_limiter option" where
  "modify_entry ip f rl =
     do {
       e \<leftarrow> map_of (per_source rl) ip;
       Some (rl\<lparr>per_source := AList.update ip (f e) (per_source rl)\<rparr>)
     }"

definition detach :: "rate_limiter \<Rightarrow> ip_addr \<Rightarrow> rate_limiter option" where
  "detach rl src =
     do {
       entry \<leftarrow> map_of (per_source rl) src;
       rl1 \<leftarrow> (case older entry of
                 Some ip \<Rightarrow> modify_entry ip (\<lambda>e. e\<lparr>newer := newer entry\<rparr>) rl
               | None \<Rightarrow> Some (rl\<lparr>lru_head := newer entry\<rparr>));
       rl2 \<leftarrow> (case newer entry of
                 Some ip \<Rightarrow> modify_entry ip (\<lambda>e. e\<lparr>older := older entry\<rparr>) rl1
               | None \<Rightarrow> Some (rl1\<lparr>lru_tail := older entry\<rparr>));
       modify_entry src (\<lambda>e. e\<lparr>older := None, newer := None\<rparr>) rl2
     }"

definition attach_newest :: "rate_limiter \<Rightarrow> ip_addr \<Rightarrow> rate_limiter option" where
  "attach_newest rl src =
     do {
       let old_tail = lru_tail rl;
       rl1 \<leftarrow> modify_entry src (\<lambda>e. e\<lparr>older := old_tail, newer := None\<rparr>) rl;
       rl2 \<leftarrow> (case old_tail of
                 Some tail \<Rightarrow> modify_entry tail (\<lambda>e. e\<lparr>newer := Some src\<rparr>) rl1
               | None \<Rightarrow> Some (rl1\<lparr>lru_head := Some src\<rparr>));
       Some (rl2\<lparr>lru_tail := Some src\<rparr>)
     }"

definition evict_oldest :: "rate_limiter \<Rightarrow> rate_limiter option" where
  "evict_oldest rl =
     (if max (max_tracked rl) 1 \<le> length (per_source rl)
      then (case lru_head rl of
              Some oldest \<Rightarrow>
                do {
                  rl1 \<leftarrow> detach rl oldest;
                  Some (rl1\<lparr>per_source := AList.delete oldest (per_source rl1)\<rparr>)
                }
            | None \<Rightarrow> Some rl)
      else Some rl)"

definition touch_source :: "rate_limiter \<Rightarrow> ip_addr \<Rightarrow> rate_limiter option" where
  "touch_source rl src =
     do {
       rl1 \<leftarrow> (if map_of (per_source rl) src \<noteq> None then detach rl src
               else do {
                 rl0 \<leftarrow> evict_oldest rl;
                 Some (rl0\<lparr>per_source := AList.update src
                        \<lparr>bucket = bucket_new (per_source_capacity rl0) (per_source_refill rl0),
                         older = None, newer = None\<rparr> (per_source rl0)\<rparr>)
               });
       attach_newest rl1 src
     }"

definition check :: "rate_limiter \<Rightarrow> ip_addr \<Rightarrow> instant \<Rightarrow> (bool \<times> rate_limiter) option" where
  "check rl src now =
     (let (ok, g) = try_take (rl_global rl) now; rl0 = rl\<lparr>rl_global := g\<rparr>
      in if \<not> ok then Some (False, rl0)
         else do {
           rl1 \<leftarrow> touch_source rl0 src;
           e \<leftarrow> map_of (per_source rl1) src;
           let (granted, b) = try_take (bucket e) now;
           Some (granted, rl1\<lparr>per_source := AList.update src (e\<lparr>bucket := b\<rparr>) (per_source rl1)\<rparr>)
         })"

section \<open>The list a chain of links represents\<close>

text \<open>
  \<open>dll m p xs q\<close>: starting after \<open>p\<close> and ending before \<open>q\<close>, the entries of \<open>xs\<close> are linked in this
  order, each to its neighbours in both directions.
\<close>

definition head_opt :: "'a list \<Rightarrow> 'a option" where
  "head_opt xs = (case xs of [] \<Rightarrow> None | x # _ \<Rightarrow> Some x)"

definition last_opt :: "'a list \<Rightarrow> 'a option" where
  "last_opt xs = (if xs = [] then None else Some (last xs))"

lemma head_opt_simps [simp]:
  "head_opt [] = None" "head_opt (x # xs) = Some x"
  by (simp_all add: head_opt_def)

lemma last_opt_simps [simp]: "last_opt [] = None" "last_opt (xs @ [x]) = Some x"
  by (simp_all add: last_opt_def)

definition or_else :: "'a option \<Rightarrow> 'a option \<Rightarrow> 'a option" where
  "or_else a b = (case a of None \<Rightarrow> b | Some x \<Rightarrow> Some x)"

lemma or_else_simps [simp]: "or_else None b = b" "or_else (Some x) b = Some x" "or_else a None = a"
  by (auto simp: or_else_def split: option.splits)

fun dll :: "(ip_addr \<Rightarrow> source_entry option) \<Rightarrow> ip_addr option \<Rightarrow> ip_addr list \<Rightarrow> ip_addr option \<Rightarrow> bool" where
  "dll m p [] q = True"
| "dll m p (x # xs) q =
     (\<exists>e. m x = Some e \<and> older e = p \<and> newer e = or_else (head_opt xs) q \<and> dll m (Some x) xs q)"

lemma dll_append:
  "dll m p (xs @ ys) q \<longleftrightarrow> dll m p xs (or_else (head_opt ys) q) \<and> dll m (or_else (last_opt xs) p) ys q"
proof (induction xs arbitrary: p)
  case Nil
  then show ?case by simp
next
  case (Cons x xs)
  have "or_else (head_opt (xs @ ys)) q = or_else (head_opt xs) (or_else (head_opt ys) q)"
    by (cases xs) auto
  moreover have "or_else (last_opt (x # xs)) p = or_else (last_opt xs) (Some x)"
    by (auto simp: last_opt_def)
  ultimately show ?case using Cons by auto
qed

lemma dll_upd_other [simp]: "x \<notin> set xs \<Longrightarrow> dll (m(x := v)) p xs q = dll m p xs q"
  by (induction xs arbitrary: p) auto

lemma dll_relink_last:
  assumes "dll m p (xs @ [a]) q" and "a \<notin> set xs" and "m a = Some e"
  shows "dll (m(a \<mapsto> e\<lparr>newer := q'\<rparr>)) p (xs @ [a]) q'"
  using assms by (auto simp: dll_append)

lemma dll_relink_first:
  assumes "dll m p (b # ys) q" and "b \<notin> set ys" and "m b = Some e"
  shows "dll (m(b \<mapsto> e\<lparr>older := p'\<rparr>)) p' (b # ys) q"
  using assms by auto

lemma dll_entries: "dll m p xs q \<Longrightarrow> x \<in> set xs \<Longrightarrow> m x \<noteq> None"
  by (induction xs arbitrary: p) auto

text \<open>
  \<open>chained rl xs\<close>: following the links from the head gives \<open>xs\<close>, oldest first. \<open>lru_rep\<close> adds that
  \<open>xs\<close> is the whole table.
\<close>

definition chained :: "rate_limiter \<Rightarrow> ip_addr list \<Rightarrow> bool" where
  "chained rl xs \<longleftrightarrow> distinct xs \<and> lru_head rl = head_opt xs \<and> lru_tail rl = last_opt xs
     \<and> dll (map_of (per_source rl)) None xs None"

definition lru_rep :: "rate_limiter \<Rightarrow> ip_addr list \<Rightarrow> bool" where
  "lru_rep rl xs \<longleftrightarrow> chained rl xs \<and> set xs = fst ` set (per_source rl)
     \<and> distinct (map fst (per_source rl))"

definition buckets :: "rate_limiter \<Rightarrow> ip_addr \<Rightarrow> token_bucket option" where
  "buckets rl ip = map_option bucket (map_of (per_source rl) ip)"

text \<open>What a change of links leaves alone.\<close>

definition same_table :: "rate_limiter \<Rightarrow> rate_limiter \<Rightarrow> bool" where
  "same_table rl rl' \<longleftrightarrow> map fst (per_source rl') = map fst (per_source rl)
     \<and> buckets rl' = buckets rl
     \<and> rl_global rl' = rl_global rl \<and> per_source_capacity rl' = per_source_capacity rl
     \<and> per_source_refill rl' = per_source_refill rl \<and> max_tracked rl' = max_tracked rl"

lemma same_table_refl [simp]: "same_table rl rl"
  by (simp add: same_table_def)

lemma same_table_trans: "same_table a b \<Longrightarrow> same_table b c \<Longrightarrow> same_table a c"
  by (simp add: same_table_def)

lemma same_table_head [simp]: "same_table rl (rl\<lparr>lru_head := h\<rparr>)"
  and same_table_tail [simp]: "same_table rl (rl\<lparr>lru_tail := h\<rparr>)"
  by (simp_all add: same_table_def buckets_def fun_eq_iff)

lemma map_fst_update_old:
  "map_of al k = Some v \<Longrightarrow> map fst (AList.update k w al) = map fst al"
  by (induction al) auto

lemma modify_entry_Some:
  assumes "map_of (per_source rl) ip = Some e" and "\<And>e. bucket (f e) = bucket e"
  shows "modify_entry ip f rl = Some (rl\<lparr>per_source := AList.update ip (f e) (per_source rl)\<rparr>)"
    and "same_table rl (rl\<lparr>per_source := AList.update ip (f e) (per_source rl)\<rparr>)"
  using assms
  by (auto simp: modify_entry_def same_table_def map_fst_update_old buckets_def fun_eq_iff update_conv')

lemma dll_cong: "(\<And>y. y \<in> set xs \<Longrightarrow> m' y = m y) \<Longrightarrow> dll m' p xs q = dll m p xs q"
  by (induction xs arbitrary: p) auto

subsection \<open>Unlinking and appending\<close>

lemma relink_before:
  assumes "dll (map_of (per_source rl)) None as q" and "distinct as"
  shows "\<exists>rl1. (case last_opt as of
             Some ip \<Rightarrow> modify_entry ip (\<lambda>e. e\<lparr>newer := q'\<rparr>) rl
           | None \<Rightarrow> Some (rl\<lparr>lru_head := q'\<rparr>)) = Some rl1
         \<and> same_table rl rl1 \<and> dll (map_of (per_source rl1)) None as q'
         \<and> (\<forall>y. y \<notin> set as \<longrightarrow> map_of (per_source rl1) y = map_of (per_source rl) y)
         \<and> lru_tail rl1 = lru_tail rl \<and> lru_head rl1 = (if as = [] then q' else lru_head rl)"
proof (cases as rule: rev_cases)
  case Nil
  then show ?thesis by simp
next
  case (snoc cs a)
  with assms(1) obtain e where e: "map_of (per_source rl) a = Some e" by (auto simp: dll_append)
  have "dll ((map_of (per_source rl))(a \<mapsto> e\<lparr>newer := q'\<rparr>)) None as q'"
    unfolding snoc by (rule dll_relink_last) (use assms snoc e in auto)
  with snoc modify_entry_Some [OF e, of "\<lambda>e. e\<lparr>newer := q'\<rparr>"] show ?thesis
    by (simp add: update_conv')
qed

lemma relink_after:
  assumes "dll (map_of (per_source rl)) p bs None" and "distinct bs"
  shows "\<exists>rl2. (case head_opt bs of
             Some ip \<Rightarrow> modify_entry ip (\<lambda>e. e\<lparr>older := p'\<rparr>) rl
           | None \<Rightarrow> Some (rl\<lparr>lru_tail := p'\<rparr>)) = Some rl2
         \<and> same_table rl rl2 \<and> dll (map_of (per_source rl2)) p' bs None
         \<and> (\<forall>y. y \<notin> set bs \<longrightarrow> map_of (per_source rl2) y = map_of (per_source rl) y)
         \<and> lru_head rl2 = lru_head rl \<and> lru_tail rl2 = (if bs = [] then p' else lru_tail rl)"
proof (cases bs)
  case Nil
  then show ?thesis by simp
next
  case (Cons b cs)
  with assms(1) obtain e where e: "map_of (per_source rl) b = Some e" by auto
  have "dll ((map_of (per_source rl))(b \<mapsto> e\<lparr>older := p'\<rparr>)) p' bs None"
    unfolding Cons by (rule dll_relink_first) (use assms Cons e in auto)
  with Cons modify_entry_Some [OF e, of "\<lambda>e. e\<lparr>older := p'\<rparr>"] show ?thesis
    by (simp add: update_conv')
qed

lemma detach_chained:
  assumes "chained rl (as @ x # bs)"
  shows "\<exists>rl'. detach rl x = Some rl' \<and> chained rl' (as @ bs) \<and> same_table rl rl'"
proof -
  let ?m = "map_of (per_source rl)"
  from assms have d: "distinct (as @ x # bs)" and h: "lru_head rl = head_opt (as @ x # bs)"
    and t: "lru_tail rl = last_opt (as @ x # bs)"
    and l: "dll ?m None as (Some x)" "dll ?m (Some x) bs None"
    and ex: "\<exists>e. ?m x = Some e \<and> older e = last_opt as \<and> newer e = head_opt bs"
    by (auto simp: chained_def dll_append)
  from ex obtain e where e: "?m x = Some e" "older e = last_opt as" "newer e = head_opt bs" by blast
  from relink_before [OF l(1), of "head_opt bs"] d obtain rl1 where
    r1: "(case older e of Some ip \<Rightarrow> modify_entry ip (\<lambda>e'. e'\<lparr>newer := newer e\<rparr>) rl
          | None \<Rightarrow> Some (rl\<lparr>lru_head := newer e\<rparr>)) = Some rl1"
    and s1: "same_table rl rl1" and d1: "dll (map_of (per_source rl1)) None as (head_opt bs)"
    and o1: "\<And>y. y \<notin> set as \<Longrightarrow> map_of (per_source rl1) y = ?m y"
    and h1: "lru_tail rl1 = lru_tail rl" "lru_head rl1 = (if as = [] then head_opt bs else lru_head rl)"
    unfolding e(2,3) by auto
  have "dll (map_of (per_source rl1)) (Some x) bs None"
    using l(2) d o1 by (subst dll_cong [of bs _ ?m]) auto
  from relink_after [OF this, of "last_opt as"] d obtain rl2 where
    r2: "(case newer e of Some ip \<Rightarrow> modify_entry ip (\<lambda>e'. e'\<lparr>older := older e\<rparr>) rl1
          | None \<Rightarrow> Some (rl1\<lparr>lru_tail := older e\<rparr>)) = Some rl2"
    and s2: "same_table rl1 rl2" and d2: "dll (map_of (per_source rl2)) (last_opt as) bs None"
    and o2: "\<And>y. y \<notin> set bs \<Longrightarrow> map_of (per_source rl2) y = map_of (per_source rl1) y"
    and h2: "lru_head rl2 = lru_head rl1" "lru_tail rl2 = (if bs = [] then last_opt as else lru_tail rl1)"
    unfolding e(2,3) by auto
  have x2: "map_of (per_source rl2) x = Some e" using o1 o2 d e(1) by simp
  let ?rl' = "rl2\<lparr>per_source := AList.update x (e\<lparr>older := None, newer := None\<rparr>) (per_source rl2)\<rparr>"
  note r3 = modify_entry_Some [OF x2, of "\<lambda>e. e\<lparr>older := None, newer := None\<rparr>", simplified]
  have "dll (map_of (per_source rl2)) None as (head_opt bs)"
    using d1 d o2 by (subst dll_cong [of as _ "map_of (per_source rl1)"]) auto
  then have "dll (map_of (per_source ?rl')) None (as @ bs) None"
    using d2 d by (simp add: update_conv' dll_append)
  then have "chained ?rl' (as @ bs)"
    using d h t h1 h2 by (cases as; cases bs rule: rev_cases)
      (auto simp: chained_def last_opt_def)
  moreover have "same_table rl ?rl'" using s1 s2 r3(2) same_table_trans by blast
  moreover have "detach rl x = Some ?rl'"
    unfolding detach_def using e(1) r1 r2 r3(1) by simp
  ultimately show ?thesis by blast
qed

lemma attach_newest_chained:
  assumes "chained rl xs" and "x \<notin> set xs" and "map_of (per_source rl) x = Some e"
  shows "\<exists>rl'. attach_newest rl x = Some rl' \<and> chained rl' (xs @ [x]) \<and> same_table rl rl'"
proof -
  let ?f = "\<lambda>e. e\<lparr>older := lru_tail rl, newer := None\<rparr>"
  let ?rl1 = "rl\<lparr>per_source := AList.update x (?f e) (per_source rl)\<rparr>"
  note r1 = modify_entry_Some [OF assms(3), of ?f, simplified]
  from assms have d: "distinct xs" and h: "lru_head rl = head_opt xs" and t: "lru_tail rl = last_opt xs"
    and l: "dll (map_of (per_source ?rl1)) None xs None"
    by (auto simp: chained_def update_conv')
  from relink_before [OF l d, of "Some x"] obtain rl2 where
    r2: "(case last_opt xs of Some ip \<Rightarrow> modify_entry ip (\<lambda>e. e\<lparr>newer := Some x\<rparr>) ?rl1
          | None \<Rightarrow> Some (?rl1\<lparr>lru_head := Some x\<rparr>)) = Some rl2"
    and s2: "same_table ?rl1 rl2" and d2: "dll (map_of (per_source rl2)) None xs (Some x)"
    and o2: "\<And>y. y \<notin> set xs \<Longrightarrow> map_of (per_source rl2) y = map_of (per_source ?rl1) y"
    and h2: "lru_head rl2 = (if xs = [] then Some x else lru_head rl)"
    by auto
  let ?rl' = "rl2\<lparr>lru_tail := Some x\<rparr>"
  have "map_of (per_source ?rl') x = Some (?f e)" using o2 [OF assms(2)] by (simp add: update_conv')
  then have "dll (map_of (per_source ?rl')) None (xs @ [x]) None"
    using d2 t by (auto simp: dll_append)
  then have "chained ?rl' (xs @ [x])"
    using d assms(2) h h2 by (cases xs) (auto simp: chained_def last_opt_def)
  moreover have "same_table rl ?rl'"
    using r1(2) s2 same_table_trans same_table_tail by blast
  moreover have "attach_newest rl x = Some ?rl'"
    using r1(1) r2 unfolding attach_newest_def Let_def t by simp
  ultimately show ?thesis by blast
qed

section \<open>The LRU contract\<close>

text \<open>
  \<open>lru_touch c x xs\<close> is what touching \<open>x\<close> means for the list of tracked keys, oldest first, of a
  cache of capacity \<open>c\<close> (at least one); \<open>recent c ts\<close> is the list of the \<open>c\<close> most recently touched
  keys of the touch sequence \<open>ts\<close>.
\<close>

definition lru_touch :: "nat \<Rightarrow> 'a \<Rightarrow> 'a list \<Rightarrow> 'a list" where
  "lru_touch c x xs =
     (if x \<in> set xs then remove1 x xs else if max c 1 \<le> length xs then tl xs else xs) @ [x]"

definition recent :: "nat \<Rightarrow> 'a list \<Rightarrow> 'a list" where
  "recent c ts = (let us = remdups ts in drop (length us - max c 1) us)"

lemma remdups_snoc: "remdups (ts @ [x]) = filter (\<lambda>y. y \<noteq> x) (remdups ts) @ [x]"
  by (induction ts) auto

lemma filter_neq: "x \<notin> set as \<Longrightarrow> filter (\<lambda>y. y \<noteq> x) as = as"
  by (induction as) auto

lemma lru_touch_drop:
  assumes "distinct us" and C: "1 \<le> C" and r: "r = drop (length us - C) us"
    and v: "v = filter (\<lambda>y. y \<noteq> x) us @ [x]"
  shows "drop (length v - C) v = (if x \<in> set r then remove1 x r else if C \<le> length r then tl r else r) @ [x]"
proof (cases "x \<in> set us")
  case False
  then have f: "filter (\<lambda>y. y \<noteq> x) us = us" by (rule filter_neq)
  have "x \<notin> set r" using False r by (auto dest: in_set_dropD)
  moreover have "tl r = drop (Suc (length us) - C) us" if "C \<le> length us"
    using that by (simp add: r Suc_diff_le drop_Suc tl_drop)
  ultimately show ?thesis using C by (auto simp: v f r)
next
  case True
  then obtain as bs where us: "us = as @ x # bs" by (auto simp: in_set_conv_decomp)
  with assms(1) have n: "x \<notin> set as" "x \<notin> set bs" by auto
  then have f: "filter (\<lambda>y. y \<noteq> x) us = as @ bs"
    by (simp add: us filter_neq)
  then have v': "v = as @ bs @ [x]" using v by simp
  let ?k = "length us - C"
  show ?thesis
  proof (cases "?k \<le> length as")
    case True
    then have "r = drop ?k as @ x # bs" by (simp add: r us)
    moreover have "x \<notin> set (drop ?k as)" using n by (auto dest: in_set_dropD)
    moreover have "Suc (length bs) \<le> C" using True C by (simp add: us)
    then have "drop (length v - C) v = drop ?k as @ bs @ [x]" by (simp add: v' us)
    ultimately show ?thesis by (simp add: remove1_append)
  next
    case False
    then have k: "Suc (length as) \<le> ?k" and c: "C \<le> length us" and b: "C \<le> length bs"
      by (auto simp: us)
    then have rb: "r = drop (?k - Suc (length as)) bs" by (simp add: r us Suc_diff_le)
    have lr: "length r = C" using c by (simp add: r)
    have "x \<notin> set r" using n rb by (auto dest: in_set_dropD)
    moreover have "tl r = drop (?k - length as) bs"
      using k b by (simp add: rb us tl_drop drop_Suc Suc_diff_le)
    moreover have "drop (length v - C) v = drop (?k - length as) bs @ [x]"
      using k C by (simp add: v' us)
    ultimately show ?thesis using lr by simp
  qed
qed

lemma recent_snoc: "recent c (ts @ [x]) = lru_touch c x (recent c ts)"
  unfolding recent_def lru_touch_def Let_def remdups_snoc
  by (rule lru_touch_drop) auto

locale lru_cache =
  fixes touch :: "'s \<Rightarrow> 'k \<Rightarrow> 's option"
    and rep :: "'s \<Rightarrow> 'k list \<Rightarrow> bool"
    and cap :: "'s \<Rightarrow> nat"
  assumes touch_refines: "rep s xs \<Longrightarrow>
      \<exists>s'. touch s x = Some s' \<and> rep s' (lru_touch (cap s) x xs) \<and> cap s' = cap s"
begin

lemma touch_all_recent_from:
  "rep s (recent (cap s) us) \<Longrightarrow>
   \<exists>s'. fold_opt touch s ts = Some s' \<and> rep s' (recent (cap s) (us @ ts)) \<and> cap s' = cap s"
proof (induction ts arbitrary: s us)
  case Nil
  then show ?case by simp
next
  case (Cons x ts)
  from touch_refines [OF Cons.prems, of x] obtain s1 where
    s1: "touch s x = Some s1" "rep s1 (recent (cap s1) (us @ [x]))" "cap s1 = cap s"
    by (auto simp: recent_snoc)
  from Cons.IH [OF s1(2)] s1(1,3) show ?case by auto
qed

lemma touch_all_recent:
  "rep s [] \<Longrightarrow> \<exists>s'. fold_opt touch s ts = Some s' \<and> rep s' (recent (cap s) ts)"
  using touch_all_recent_from [of s "[]" ts] by (auto simp: recent_def)

end

subsection \<open>The linked table implements it\<close>

lemma lru_rep_length: "lru_rep rl xs \<Longrightarrow> length (per_source rl) = length xs"
  by (metis chained_def distinct_card length_map lru_rep_def set_map)

lemma lru_rep_mem: "lru_rep rl xs \<Longrightarrow> x \<in> set xs \<longleftrightarrow> map_of (per_source rl) x \<noteq> None"
  by (simp add: lru_rep_def mem_fst_iff_map_of)

lemma same_table_keys: "same_table rl rl' \<Longrightarrow> fst ` set (per_source rl') = fst ` set (per_source rl)"
  unfolding same_table_def by (metis set_map)

definition same_params :: "rate_limiter \<Rightarrow> rate_limiter \<Rightarrow> bool" where
  "same_params rl rl' \<longleftrightarrow> rl_global rl' = rl_global rl
     \<and> per_source_capacity rl' = per_source_capacity rl
     \<and> per_source_refill rl' = per_source_refill rl \<and> max_tracked rl' = max_tracked rl"

lemma same_table_params: "same_table rl rl' \<Longrightarrow> same_params rl rl'"
  by (simp add: same_table_def same_params_def)

lemma chained_other_entry:
  "chained rl xs \<Longrightarrow> x \<notin> set xs \<Longrightarrow>
   chained (rl\<lparr>per_source := AList.update x e (per_source rl)\<rparr>) xs"
  "chained rl xs \<Longrightarrow> x \<notin> set xs \<Longrightarrow>
   chained (rl\<lparr>per_source := AList.delete x (per_source rl)\<rparr>) xs"
  by (simp_all add: chained_def update_conv' delete_conv')

lemma evict_oldest_rep:
  assumes "lru_rep rl xs"
  defines "ys \<equiv> (if max (max_tracked rl) 1 \<le> length xs then tl xs else xs)"
  shows "\<exists>rl'. evict_oldest rl = Some rl' \<and> lru_rep rl' ys \<and> same_params rl rl'
           \<and> (\<forall>y\<in>set ys. buckets rl' y = buckets rl y)"
proof (cases "max (max_tracked rl) 1 \<le> length xs")
  case False
  with assms show ?thesis
    by (auto simp: evict_oldest_def lru_rep_length same_params_def)
next
  case True
  then obtain x zs where xs: "xs = x # zs" by (cases xs) auto
  from assms(1) have ch: "chained rl ([] @ x # zs)" and d: "distinct (map fst (per_source rl))"
    and k: "set xs = fst ` set (per_source rl)" by (auto simp: lru_rep_def xs)
  from detach_chained [OF ch] obtain rl1 where
    r1: "detach rl x = Some rl1" and c1: "chained rl1 zs" and s1: "same_table rl rl1" by auto
  let ?rl' = "rl1\<lparr>per_source := AList.delete x (per_source rl1)\<rparr>"
  have n: "x \<notin> set zs" using ch by (auto simp: chained_def)
  have "chained ?rl' zs" using c1 n by (rule chained_other_entry(2))
  moreover have "set zs = fst ` set (per_source ?rl')"
    using k n same_table_keys [OF s1] by (simp add: fst_set_delete xs) blast
  moreover have "distinct (map fst (per_source ?rl'))"
    using s1 d by (simp add: same_table_def distinct_delete)
  moreover have "buckets ?rl' y = buckets rl y" if "y \<in> set zs" for y
    using s1 that n by (auto simp: same_table_def buckets_def fun_eq_iff delete_conv')
  moreover have "same_params rl ?rl'" using same_table_params [OF s1] by (simp add: same_params_def)
  moreover have "evict_oldest rl = Some ?rl'"
    using True r1 ch assms(1) by (simp add: evict_oldest_def lru_rep_length xs chained_def)
  ultimately show ?thesis using True by (auto simp: ys_def xs lru_rep_def)
qed

definition fresh_bucket :: "rate_limiter \<Rightarrow> token_bucket" where
  "fresh_bucket rl = bucket_new (per_source_capacity rl) (per_source_refill rl)"

lemma attach_rep:
  assumes "chained rl ys" and "x \<notin> set ys" and "insert x (set ys) = fst ` set (per_source rl)"
    and "distinct (map fst (per_source rl))"
  shows "\<exists>rl'. attach_newest rl x = Some rl' \<and> lru_rep rl' (ys @ [x]) \<and> same_table rl rl'"
proof -
  have "x \<in> fst ` set (per_source rl)" using assms(3) by blast
  then obtain e where "map_of (per_source rl) x = Some e" by (auto simp: mem_fst_iff_map_of)
  from attach_newest_chained [OF assms(1,2) this] obtain rl' where
    "attach_newest rl x = Some rl'" "chained rl' (ys @ [x])" and s: "same_table rl rl'" by blast
  moreover have "lru_rep rl' (ys @ [x])"
    using calculation(2) assms(3,4) same_table_keys [OF s] s
    by (auto simp: lru_rep_def same_table_def)
  ultimately show ?thesis by blast
qed

lemma touch_source_rep:
  assumes "lru_rep rl xs"
  shows "\<exists>rl'. touch_source rl x = Some rl' \<and> lru_rep rl' (lru_touch (max_tracked rl) x xs)
           \<and> same_params rl rl'
           \<and> (\<forall>y\<in>set (lru_touch (max_tracked rl) x xs).
                 buckets rl' y = (if y = x \<and> x \<notin> set xs then Some (fresh_bucket rl) else buckets rl y))"
proof (cases "x \<in> set xs")
  case True
  then obtain as bs where xs: "xs = as @ x # bs" by (auto simp: in_set_conv_decomp)
  from assms have ch: "chained rl (as @ x # bs)" and d: "distinct (map fst (per_source rl))"
    and k: "set xs = fst ` set (per_source rl)" by (auto simp: lru_rep_def xs)
  have n: "x \<notin> set (as @ bs)" using ch by (auto simp: chained_def)
  from detach_chained [OF ch] obtain rl1 where
    r1: "detach rl x = Some rl1" "chained rl1 (as @ bs)" "same_table rl rl1" by auto
  have k1: "insert x (set (as @ bs)) = fst ` set (per_source rl1)"
    using k same_table_keys [OF r1(3)] by (auto simp: xs)
  have "distinct (map fst (per_source rl1))" using r1(3) d by (simp add: same_table_def)
  from attach_rep [OF r1(2) n k1 this] obtain rl' where
    r2: "attach_newest rl1 x = Some rl'" "lru_rep rl' ((as @ bs) @ [x])" "same_table rl1 rl'" by blast
  have "lru_touch (max_tracked rl) x xs = (as @ bs) @ [x]"
    using n by (simp add: lru_touch_def xs remove1_append)
  moreover have s: "same_table rl rl'" using r1(3) r2(3) by (rule same_table_trans)
  moreover have "touch_source rl x = Some rl'"
    using True r1(1) r2(1) lru_rep_mem [OF assms, of x] by (simp add: touch_source_def)
  ultimately show ?thesis
    using r2(2) same_table_params [OF s] True by (auto simp: same_table_def)
next
  case False
  let ?ys = "if max (max_tracked rl) 1 \<le> length xs then tl xs else xs"
  from evict_oldest_rep [OF assms] obtain rl0 where
    r0: "evict_oldest rl = Some rl0" "lru_rep rl0 ?ys" "same_params rl rl0"
    and b0: "\<And>y. y \<in> set ?ys \<Longrightarrow> buckets rl0 y = buckets rl y" by blast
  have n: "x \<notin> set ?ys" using False by (auto dest: list.set_sel(2) [rotated])
  let ?e = "\<lparr>bucket = bucket_new (per_source_capacity rl0) (per_source_refill rl0),
             older = None, newer = None\<rparr>"
  let ?rl1 = "rl0\<lparr>per_source := AList.update x ?e (per_source rl0)\<rparr>"
  have c1: "chained ?rl1 ?ys" using r0(2) n by (intro chained_other_entry(1)) (simp_all add: lru_rep_def)
  have k1: "insert x (set ?ys) = fst ` set (per_source ?rl1)"
    using r0(2) by (simp add: lru_rep_def fst_set_update)
  have "distinct (map fst (per_source ?rl1))" using r0(2) by (simp add: lru_rep_def distinct_update)
  from attach_rep [OF c1 n k1 this] obtain rl' where
    r2: "attach_newest ?rl1 x = Some rl'" "lru_rep rl' (?ys @ [x])" "same_table ?rl1 rl'" by blast
  have "lru_touch (max_tracked rl) x xs = ?ys @ [x]" using False by (simp add: lru_touch_def)
  moreover have "touch_source rl x = Some rl'"
    using False r0(1) r2(1) lru_rep_mem [OF assms, of x] by (simp add: touch_source_def)
  moreover have "same_params rl rl'" using r0(3) same_table_params [OF r2(3)] by (simp add: same_params_def)
  moreover have "buckets rl' y = (if y = x \<and> x \<notin> set xs then Some (fresh_bucket rl) else buckets rl y)"
    if "y \<in> set (?ys @ [x])" for y
  proof -
    have "buckets rl' y = buckets ?rl1 y" using r2(3) by (simp add: same_table_def)
    also have "\<dots> = (if y = x then Some (fresh_bucket rl) else buckets rl0 y)"
      using r0(3) by (simp add: buckets_def update_conv' fresh_bucket_def same_params_def)
    finally show ?thesis using b0 that False by auto
  qed
  ultimately show ?thesis using r2(2) by auto
qed

interpretation lru: lru_cache touch_source lru_rep max_tracked
proof unfold_locales
  fix s xs x
  assume "lru_rep s xs"
  then show "\<exists>s'. touch_source s x = Some s' \<and> lru_rep s' (lru_touch (max_tracked s) x xs)
      \<and> max_tracked s' = max_tracked s"
    using touch_source_rep [of s xs x] by (auto simp: same_params_def)
qed

section \<open>Checks keep the table well formed\<close>

definition limiter_ok :: "rate_limiter \<Rightarrow> bool" where
  "limiter_ok rl \<longleftrightarrow> (\<exists>xs. lru_rep rl xs \<and> length xs \<le> max (max_tracked rl) 1)
     \<and> bucket_ok (rl_global rl) \<and> bucket_ok (fresh_bucket rl)
     \<and> (\<forall>ip b. buckets rl ip = Some b \<longrightarrow> bucket_ok b)"

lemma dll_same_links:
  "m x = Some e \<Longrightarrow> older e' = older e \<Longrightarrow> newer e' = newer e \<Longrightarrow>
   dll (m(x \<mapsto> e')) p xs q = dll m p xs q"
  by (induction xs arbitrary: p) auto

lemma lru_rep_set_bucket:
  assumes "lru_rep rl xs" and "map_of (per_source rl) x = Some e"
  shows "lru_rep (rl\<lparr>per_source := AList.update x (e\<lparr>bucket := b\<rparr>) (per_source rl)\<rparr>) xs"
  using assms
  by (auto simp: lru_rep_def chained_def update_conv' dll_same_links map_fst_update_old
      fst_set_update mem_fst_iff_map_of insert_absorb)

lemma length_lru_touch: "length xs \<le> max c 1 \<Longrightarrow> length (lru_touch c x xs) \<le> max c 1"
  using length_pos_if_in_set [of x xs] by (auto simp: lru_touch_def length_remove1)

lemma mem_lru_touch: "x \<in> set (lru_touch c x xs)"
  by (simp add: lru_touch_def)

lemma lru_rep_global: "lru_rep (rl\<lparr>rl_global := g\<rparr>) xs = lru_rep rl xs"
  by (simp add: lru_rep_def chained_def)

text \<open>The bucket a check consults: the source's own, or a full one for a source not tracked.\<close>

definition source_bucket :: "rate_limiter \<Rightarrow> ip_addr \<Rightarrow> token_bucket" where
  "source_bucket rl src = (case buckets rl src of Some b \<Rightarrow> b | None \<Rightarrow> fresh_bucket rl)"

lemma check_refused_globally:
  "\<not> fst (try_take (rl_global rl) now) \<Longrightarrow>
   check rl src now = Some (False, rl\<lparr>rl_global := snd (try_take (rl_global rl) now)\<rparr>)"
  by (simp add: check_def Let_def case_prod_beta)

lemma check_granted_globally:
  assumes "lru_rep rl xs" and "fst (try_take (rl_global rl) now)"
  shows "\<exists>rl'. check rl src now = Some (fst (try_take (source_bucket rl src) now), rl')
     \<and> lru_rep rl' (lru_touch (max_tracked rl) src xs)
     \<and> same_params (rl\<lparr>rl_global := snd (try_take (rl_global rl) now)\<rparr>) rl'
     \<and> (\<forall>ip. buckets rl' ip =
          (if ip \<notin> set (lru_touch (max_tracked rl) src xs) then None
           else if ip = src then Some (snd (try_take (source_bucket rl src) now)) else buckets rl ip))"
proof -
  let ?g = "snd (try_take (rl_global rl) now)" and ?zs = "lru_touch (max_tracked rl) src xs"
  let ?rl0 = "rl\<lparr>rl_global := ?g\<rparr>"
  have r0: "lru_rep ?rl0 xs" using assms(1) by (simp add: lru_rep_global)
  from touch_source_rep [OF r0, of src] obtain rl1 where
    t: "touch_source ?rl0 src = Some rl1" and r1: "lru_rep rl1 ?zs" and p1: "same_params ?rl0 rl1"
    and b1: "\<And>y. y \<in> set ?zs \<Longrightarrow>
      buckets rl1 y = (if y = src \<and> src \<notin> set xs then Some (fresh_bucket rl) else buckets rl y)"
    by (auto simp: fresh_bucket_def buckets_def)
  have "map_of (per_source rl1) src \<noteq> None" using lru_rep_mem [OF r1] mem_lru_touch by metis
  then obtain e where e: "map_of (per_source rl1) src = Some e" by blast
  have be: "bucket e = source_bucket rl src"
    using b1 [OF mem_lru_touch] e lru_rep_mem [OF assms(1), of src]
    by (auto simp: source_bucket_def buckets_def split: option.splits if_splits)
  let ?b = "snd (try_take (source_bucket rl src) now)"
  let ?rl' = "rl1\<lparr>per_source := AList.update src (e\<lparr>bucket := ?b\<rparr>) (per_source rl1)\<rparr>"
  have "check rl src now = Some (fst (try_take (source_bucket rl src) now), ?rl')"
    using assms(2) t e be by (simp add: check_def Let_def case_prod_beta)
  moreover have "lru_rep ?rl' ?zs" using r1 e by (rule lru_rep_set_bucket)
  moreover have "buckets ?rl' ip = (if ip \<notin> set ?zs then None
      else if ip = src then Some ?b else buckets rl ip)" for ip
    using b1 [of ip] lru_rep_mem [OF r1, of ip] mem_lru_touch [of src]
    by (auto simp: buckets_def update_conv')
  ultimately show ?thesis using p1 by (auto simp: same_params_def)
qed

lemma bucket_ok_source: "limiter_ok rl \<Longrightarrow> bucket_ok (source_bucket rl src)"
  by (auto simp: limiter_ok_def source_bucket_def split: option.splits)

lemma check_returns:
  assumes "limiter_ok rl"
  shows "\<exists>ok rl'. check rl src now = Some (ok, rl') \<and> limiter_ok rl' \<and> max_tracked rl' = max_tracked rl"
proof -
  from assms obtain xs where xs: "lru_rep rl xs" "length xs \<le> max (max_tracked rl) 1"
    and g: "bucket_ok (rl_global rl)" and f: "bucket_ok (fresh_bucket rl)"
    and b: "\<And>ip b. buckets rl ip = Some b \<Longrightarrow> bucket_ok b"
    by (auto simp: limiter_ok_def)
  have g': "bucket_ok (snd (try_take (rl_global rl) now))" using g by (rule bucket_ok_try_take)
  show ?thesis
  proof (cases "fst (try_take (rl_global rl) now)")
    case False
    from check_refused_globally [OF this] xs g' f b show ?thesis
      by (auto simp: limiter_ok_def lru_rep_global fresh_bucket_def buckets_def)
  next
    case True
    from check_granted_globally [OF xs(1) True, of src] obtain rl' where
      c: "check rl src now = Some (fst (try_take (source_bucket rl src) now), rl')"
      and r: "lru_rep rl' (lru_touch (max_tracked rl) src xs)"
      and p: "same_params (rl\<lparr>rl_global := snd (try_take (rl_global rl) now)\<rparr>) rl'"
      and bs: "\<And>ip. buckets rl' ip =
          (if ip \<notin> set (lru_touch (max_tracked rl) src xs) then None
           else if ip = src then Some (snd (try_take (source_bucket rl src) now)) else buckets rl ip)"
      by blast
    have "bucket_ok b'" if "buckets rl' ip = Some b'" for ip b'
      using that bs [of ip] b bucket_ok_try_take [OF bucket_ok_source [OF assms]]
      by (auto split: if_splits)
    with c r p g' f length_lru_touch [OF xs(2)] show ?thesis
      by (auto simp: limiter_ok_def same_params_def fresh_bucket_def)
  qed
qed

interpretation lim: guarded_machine "\<lambda>rl (src, now). check rl src now"
  "\<lambda>rl. limiter_ok rl \<and> max_tracked rl = m" for m
  by unfold_locales (use check_returns in fastforce)

lemma lru_rep_new: "lru_rep (with_params gc gr pc pr m) []"
  by (simp add: with_params_def lru_rep_def chained_def)

lemma limiter_ok_new:
  assumes "0 \<le> gc" "f64_round gc = gc" "0 \<le> gr" "0 \<le> pc" "f64_round pc = pc" "0 \<le> pr"
  shows "limiter_ok (with_params gc gr pc pr m)"
  unfolding limiter_ok_def
  using assms lru_rep_new [of gc gr pc pr m]
  by (auto simp: with_params_def fresh_bucket_def buckets_def intro!: bucket_ok_new exI [of _ "[]"])

lemma limiter_ok_default: "limiter_ok limiter_new"
  unfolding limiter_new_def
  by (rule limiter_ok_new)
    (simp_all add: DEFAULT_GLOBAL_CAPACITY_def DEFAULT_GLOBAL_REFILL_def f64_round_numeral
      DEFAULT_PER_SOURCE_CAPACITY_def DEFAULT_PER_SOURCE_REFILL_def)

lemma limiter_ok_bounded: "limiter_ok rl \<Longrightarrow> length (per_source rl) \<le> max (max_tracked rl) 1"
  by (auto simp: limiter_ok_def lru_rep_length)

lemma check_global:
  assumes "limiter_ok rl" and "check rl src now = Some (ok, rl')"
  shows "rl_global rl' = snd (try_take (rl_global rl) now)" and "ok \<Longrightarrow> fst (try_take (rl_global rl) now)"
proof -
  from assms(1) obtain xs where xs: "lru_rep rl xs" by (auto simp: limiter_ok_def)
  then show "rl_global rl' = snd (try_take (rl_global rl) now)" and "ok \<Longrightarrow> fst (try_take (rl_global rl) now)"
    using check_granted_globally [OF xs, of now src] check_refused_globally [of rl now src] assms(2)
    by (cases "fst (try_take (rl_global rl) now)"; auto simp: same_params_def)+
qed

lemma run_same_instant:
  assumes "limiter_ok rl" and "tokens (refill (rl_global rl) now) \<le> of_nat n" and "n \<le> 2 ^ 53"
    and "run_opt (\<lambda>rl (src, now). check rl src now) rl (map (\<lambda>src. (src, now)) srcs) = Some (oks, rl')"
  shows "length (filter (\<lambda>ok. ok) oks) \<le> n"
  using assms
proof (induction srcs arbitrary: rl n oks)
  case Nil
  then show ?case by simp
next
  case (Cons src srcs)
  from Cons.prems(4) obtain ok rl1 oks1 where
    c: "check rl src now = Some (ok, rl1)" and oks: "oks = ok # oks1"
    and r: "run_opt (\<lambda>rl (src, now). check rl src now) rl1 (map (\<lambda>src. (src, now)) srcs) = Some (oks1, rl')"
    by (auto simp: bind_eq_Some_conv)
  have ok1: "limiter_ok rl1" using check_returns [OF Cons.prems(1), of src now] c by auto
  note g = check_global [OF Cons.prems(1) c] and t = try_take_same_instant [OF Cons.prems(2,3)]
  have "tokens (refill (rl_global rl1) now) \<le> of_nat (if ok then n - 1 else n)"
    using g t(1) by (cases ok; cases "fst (try_take (rl_global rl) now)") (auto intro: order_trans)
  then have "length (filter (\<lambda>ok. ok) oks1) \<le> (if ok then n - 1 else n)"
    using Cons.prems(3) r ok1 by (intro Cons.IH [of rl1]) auto
  moreover have "ok \<Longrightarrow> 0 < n" using g(2) t(2) by blast
  ultimately show ?case by (auto simp: oks split: if_splits)
qed

section \<open>What a limiter remembers of the packets it has seen\<close>

text \<open>
  The buckets of a limiter built with given parameters keep them, and the instant a bucket was last updated is
  that of a packet that was checked: for a source's bucket, of one of its own packets.
\<close>

definition remembers_only :: "(ip_addr \<times> instant) set \<Rightarrow> f64 \<Rightarrow> f64 \<Rightarrow> f64 \<Rightarrow> f64 \<Rightarrow> rate_limiter \<Rightarrow> bool" where
  "remembers_only P gc gr pc pr rl \<longleftrightarrow> limiter_ok rl
     \<and> capacity (rl_global rl) = gc \<and> refill_per_sec (rl_global rl) = gr
     \<and> (\<forall>l. last_update (rl_global rl) = Some l \<longrightarrow> l \<in> snd ` P)
     \<and> per_source_capacity rl = pc \<and> per_source_refill rl = pr
     \<and> (\<forall>ip b. buckets rl ip = Some b \<longrightarrow>
          capacity b = pc \<and> refill_per_sec b = pr \<and> (\<forall>l. last_update b = Some l \<longrightarrow> (ip, l) \<in> P))"

lemma remembers_only_source:
  "remembers_only P gc gr pc pr rl \<Longrightarrow> bucket_ok (source_bucket rl src) \<and> capacity (source_bucket rl src) = pc
     \<and> refill_per_sec (source_bucket rl src) = pr \<and> (\<forall>l. last_update (source_bucket rl src) = Some l \<longrightarrow> (src, l) \<in> P)"
  using bucket_ok_source [of rl src]
  by (auto simp: remembers_only_def source_bucket_def fresh_bucket_def bucket_new_def split: option.splits)

lemma remembers_only_check:
  assumes "remembers_only P gc gr pc pr rl" and c: "check rl src now = Some (ok, rl')"
  shows "remembers_only (insert (src, now) P) gc gr pc pr rl'"
proof -
  note [simp] = remembers_only_def
  have ok: "limiter_ok rl" "limiter_ok rl'" using assms check_returns [of rl src now] by auto
  from ok(1) obtain xs where xs: "lru_rep rl xs" by (auto simp: limiter_ok_def)
  have g: "rl_global rl' = snd (try_take (rl_global rl) now)" by (rule check_global(1) [OF ok(1) c])
  have u: "l \<in> snd ` insert (src, now) P" if "last_update (rl_global rl') = Some l" for l
    using that last_update_try_take [of "rl_global rl" now] assms(1) g by auto
  show ?thesis
  proof (cases "fst (try_take (rl_global rl) now)")
    case False
    with check_refused_globally [OF False, of src] c have "buckets rl' = buckets rl" "per_source_capacity rl' = per_source_capacity rl"
      "per_source_refill rl' = per_source_refill rl" by (auto simp: buckets_def fun_eq_iff)
    with assms(1) ok(2) g u show ?thesis by auto
  next
    case True
    let ?b = "source_bucket rl src"
    from check_granted_globally [OF xs True, of src] c obtain zs where
      p: "same_params (rl\<lparr>rl_global := snd (try_take (rl_global rl) now)\<rparr>) rl'"
      and b: "\<And>ip. buckets rl' ip = (if ip \<notin> set zs then None else if ip = src then Some (snd (try_take ?b now)) else buckets rl ip)"
      by auto
    have "capacity b' = pc \<and> refill_per_sec b' = pr \<and> (\<forall>l. last_update b' = Some l \<longrightarrow> (ip, l) \<in> insert (src, now) P)"
      if "buckets rl' ip = Some b'" for ip b'
    proof (cases "ip = src")
      case True
      then have "b' = snd (try_take ?b now)" using that b [of ip] by (auto split: if_splits)
      with True last_update_try_take [of ?b now] remembers_only_source [OF assms(1), of src] show ?thesis by auto
    next
      case False
      with that b [of ip] assms(1) show ?thesis by (auto split: if_splits)
    qed
    with assms(1) ok(2) g u p show ?thesis by (auto simp: same_params_def)
  qed
qed

lemma remembers_only_run:
  "remembers_only P gc gr pc pr rl \<Longrightarrow>
     \<exists>oks rl'. run_opt (\<lambda>rl (src, now). check rl src now) rl packets = Some (oks, rl')
       \<and> remembers_only (P \<union> set packets) gc gr pc pr rl'"
proof (induction packets arbitrary: P rl)
  case (Cons x packets)
  obtain src now where x: "x = (src, now)" by fastforce
  have "limiter_ok rl" using Cons.prems by (simp add: remembers_only_def)
  then obtain ok rl1 where c: "check rl src now = Some (ok, rl1)" using check_returns by blast
  from Cons.IH [OF remembers_only_check [OF Cons.prems c]] x c show ?case by auto
qed simp

lemma remembers_only_new:
  assumes "0 \<le> gc" "f64_round gc = gc" "0 \<le> gr" "0 \<le> pc" "f64_round pc = pc" "0 \<le> pr"
  shows "remembers_only {} gc gr pc pr (with_params gc gr pc pr m)"
  using limiter_ok_new [OF assms] by (simp add: remembers_only_def with_params_def bucket_new_def buckets_def)

section \<open>Properties\<close>

text \<open>
  C36. The limiter cannot panic and cannot grow without bound: from a freshly built limiter, every
  sequence of checks returns one verdict per packet (all the \<open>expect\<close>s on the LRU links hold), the
  per-source table never exceeds \<open>max_tracked\<close> entries (one when \<open>max_tracked\<close> is 0), and every bucket
  keeps its token count between 0 and its capacity.
\<close>

theorem limiter_returns_and_stays_bounded:
  assumes "0 \<le> gc" "f64_round gc = gc" "0 \<le> gr" "0 \<le> pc" "f64_round pc = pc" "0 \<le> pr"
  shows "\<exists>oks rl. run_opt (\<lambda>rl (src, now). check rl src now) (with_params gc gr pc pr m) packets = Some (oks, rl)
     \<and> length oks = length packets
     \<and> length (per_source rl) \<le> max m 1
     \<and> 0 \<le> tokens (rl_global rl) \<and> tokens (rl_global rl) \<le> capacity (rl_global rl)
     \<and> (\<forall>(ip, e)\<in>set (per_source rl). 0 \<le> tokens (bucket e) \<and> tokens (bucket e) \<le> capacity (bucket e))"
proof -
  have "limiter_ok (with_params gc gr pc pr m) \<and> max_tracked (with_params gc gr pc pr m) = m"
    using limiter_ok_new [OF assms] by (simp add: with_params_def)
  from lim.run_returns [OF this, of packets] obtain oks rl where
    r: "run_opt (\<lambda>rl (src, now). check rl src now) (with_params gc gr pc pr m) packets = Some (oks, rl)"
      "length oks = length packets" and ok: "limiter_ok rl" "max_tracked rl = m" by blast
  from ok(1) have d: "distinct (map fst (per_source rl))" by (auto simp: limiter_ok_def lru_rep_def)
  have "bucket_ok (bucket e)" if "(ip, e) \<in> set (per_source rl)" for ip e
    using ok(1) map_of_is_SomeI [OF d that] by (auto simp: limiter_ok_def buckets_def)
  with r ok limiter_ok_bounded [OF ok(1)] show ?thesis
    by (auto simp: limiter_ok_def bucket_ok_def)
qed

theorem limiter_returns_and_stays_bounded_witness:
  "\<exists>oks rl. run_opt (\<lambda>rl (src, now). check rl src now) (with_params 3 0 2 1 2)
       [(V4 1, 0), (V4 2, 0), (V4 3, 5)] = Some (oks, rl)
     \<and> length oks = length [(V4 1, 0 :: nat), (V4 2, 0), (V4 3, 5)]
     \<and> length (per_source rl) \<le> max 2 1
     \<and> 0 \<le> tokens (rl_global rl) \<and> tokens (rl_global rl) \<le> capacity (rl_global rl)
     \<and> (\<forall>(ip, e)\<in>set (per_source rl). 0 \<le> tokens (bucket e) \<and> tokens (bucket e) \<le> capacity (bucket e))"
  by (rule limiter_returns_and_stays_bounded) (simp_all add: f64_round_numeral)

text \<open>
  C37. The intrusive doubly linked list is a correct LRU: after touching any sequence of sources,
  starting from an empty limiter, the table tracks exactly the \<open>max_tracked\<close> most recently touched
  ones, its head is the least recently used of them and its tail the most recently used.
\<close>

theorem limiter_tracks_most_recent_sources:
  "\<exists>rl. fold_opt touch_source (with_params gc gr pc pr m) srcs = Some rl
     \<and> fst ` set (per_source rl) = set (recent m srcs)
     \<and> lru_head rl = head_opt (recent m srcs) \<and> lru_tail rl = last_opt (recent m srcs)"
  using lru.touch_all_recent [OF lru_rep_new, of gc gr pc pr m srcs]
  by (auto simp: lru_rep_def chained_def with_params_def)

text \<open>
  C38. The global bucket is the backstop against spoofed sources: whatever packets a limiter has checked
  before, at whatever instants, of the packets it checks at one instant, however many and from whatever
  addresses, no more than the global capacity pass.
\<close>

theorem global_bucket_caps_spoofed_flood:
  assumes "n \<le> 2 ^ 53" "0 \<le> gr" "0 \<le> pc" "f64_round pc = pc" "0 \<le> pr"
  shows "\<exists>oks rl oks' rl'.
       run_opt (\<lambda>rl (src, now). check rl src now) (with_params (of_nat n) gr pc pr m) history = Some (oks, rl)
     \<and> run_opt (\<lambda>rl (src, now). check rl src now) rl (map (\<lambda>src. (src, now)) srcs) = Some (oks', rl')
     \<and> length oks' = length srcs \<and> length (filter (\<lambda>ok. ok) oks') \<le> n"
proof -
  have "remembers_only {} (of_nat n) gr pc pr (with_params (of_nat n) gr pc pr m)"
    using assms by (intro remembers_only_new) (auto simp: f64_round_of_nat)
  from remembers_only_run [OF this, of history] obtain oks rl where
    h: "run_opt (\<lambda>rl (src, now). check rl src now) (with_params (of_nat n) gr pc pr m) history = Some (oks, rl)"
    and ok: "limiter_ok rl" "capacity (rl_global rl) = of_nat n" by (auto simp: remembers_only_def)
  from lim.run_returns [of rl "max_tracked rl" "map (\<lambda>src. (src, now)) srcs"] ok(1) obtain oks' rl' where
    r: "run_opt (\<lambda>rl (src, now). check rl src now) rl (map (\<lambda>src. (src, now)) srcs) = Some (oks', rl')"
      "length oks' = length srcs" by auto
  have "bucket_ok (refill (rl_global rl) now)" using ok(1) by (intro bucket_ok_refill) (simp add: limiter_ok_def)
  then have "tokens (refill (rl_global rl) now) \<le> of_nat n" using ok(2) by (simp add: bucket_ok_def)
  with run_same_instant [OF ok(1) _ assms(1) r(1)] h r show ?thesis by blast
qed

text \<open>Witness: a bucket of three that was drained by three packets and had an hour to refill at 512 a second.\<close>

theorem global_bucket_caps_spoofed_flood_witness:
  "\<exists>oks rl oks' rl'.
       run_opt (\<lambda>rl (src, now). check rl src now) (with_params (of_nat 3) 512 1000 1000 4096)
         [(V4 1, 0), (V4 2, 0), (V4 3, 0), (V4 4, 0)] = Some (oks, rl)
     \<and> run_opt (\<lambda>rl (src, now). check rl src now) rl (map (\<lambda>src. (src, 3600000000000)) [V4 1, V4 2, V4 3, V4 4]) = Some (oks', rl')
     \<and> length oks' = length [V4 1, V4 2, V4 3, V4 4] \<and> length (filter (\<lambda>ok. ok) oks') \<le> 3"
  by (rule global_bucket_caps_spoofed_flood) (simp_all add: f64_round_numeral)

text \<open>
  C39. No permanent lock-out, whatever the history: where a source's buckets hold at least one token and refill
  at one a second or more, a source that has sent nothing for a second is not held back by its own bucket, so
  the global bucket alone decides; and where the global bucket too holds at least one token and refills at one
  a second or more, and no packet at all was checked for a second, the source's packet passes.
\<close>

theorem limiter_recovers_after_one_second:
  assumes "0 \<le> gc" "f64_round gc = gc" "0 \<le> gr" "1 \<le> pc" "f64_round pc = pc" "1 \<le> pr"
    and "\<forall>(s, t)\<in>set history. s = src \<longrightarrow> t + 1000000000 \<le> now"
  shows "\<exists>oks rl ok rl'.
       run_opt (\<lambda>rl (src, now). check rl src now) (with_params gc gr pc pr m) history = Some (oks, rl)
     \<and> check rl src now = Some (ok, rl') \<and> ok = fst (try_take (rl_global rl) now)
     \<and> (1 \<le> gc \<and> 1 \<le> gr \<and> (\<forall>(s, t)\<in>set history. t + 1000000000 \<le> now) \<longrightarrow> ok)"
proof -
  have grant: "fst (try_take b now)"
    if "bucket_ok b" "1 \<le> capacity b" "1 \<le> refill_per_sec b" "\<forall>l. last_update b = Some l \<longrightarrow> l + 1000000000 \<le> now" for b
  proof (cases "last_update b")
    case None
    with that show ?thesis by (simp add: try_take_def refill_def bucket_ok_def)
  next
    case (Some l)
    with that show ?thesis by (auto intro: try_take_after_second)
  qed
  have "remembers_only {} gc gr pc pr (with_params gc gr pc pr m)" using assms by (intro remembers_only_new) auto
  from remembers_only_run [OF this, of history] obtain oks rl where
    h: "run_opt (\<lambda>rl (src, now). check rl src now) (with_params gc gr pc pr m) history = Some (oks, rl)"
    and r: "remembers_only (set history) gc gr pc pr rl" by auto
  then obtain xs where xs: "lru_rep rl xs" by (auto simp: remembers_only_def limiter_ok_def)
  have s: "fst (try_take (source_bucket rl src) now)"
    using remembers_only_source [OF r, of src] assms(4,6,7) by (intro grant) auto
  obtain rl' where "check rl src now = Some (fst (try_take (rl_global rl) now), rl')"
    using check_granted_globally [OF xs, of now src] check_refused_globally [of rl now src] s
    by (cases "fst (try_take (rl_global rl) now)") auto
  moreover have "fst (try_take (rl_global rl) now)" if "1 \<le> gc" "1 \<le> gr" "\<forall>(s, t)\<in>set history. t + 1000000000 \<le> now"
  proof (rule grant)
    have "\<forall>l\<in>snd ` set history. l + 1000000000 \<le> now" using that(3) by fastforce
    then show "\<forall>l. last_update (rl_global rl) = Some l \<longrightarrow> l + 1000000000 \<le> now"
      using r unfolding remembers_only_def by blast
  qed (use that r in \<open>simp_all add: remembers_only_def limiter_ok_def\<close>)
  ultimately show ?thesis using h by blast
qed

text \<open>Witness: buckets of one token, drained by a source that was then refused, refill in two seconds.\<close>

theorem limiter_recovers_after_one_second_witness:
  "\<exists>rl rl'. run_opt (\<lambda>rl (src, now). check rl src now) (with_params 1 1 1 1 4096) [(V4 7, 0), (V4 7, 0)] = Some ([True, False], rl)
     \<and> tokens (rl_global rl) = 0 \<and> check rl (V4 7) 2000000000 = Some (True, rl')"
proof -
  have e: "\<exists>rl. run_opt (\<lambda>rl (src, now). check rl src now) (with_params 1 1 1 1 4096) [(V4 7, 0), (V4 7, 0)] = Some ([True, False], rl)
     \<and> tokens (rl_global rl) = 0"
    by (simp add: with_params_def bucket_new_def check_def try_take_def refill_def touch_source_def evict_oldest_def attach_newest_def
        modify_entry_def f64_sub_def f64_add_def f64_mul_def f64_div_def as_secs_f64_def Let_def)
  have "f64_round 1 = 1" using f64_round_of_nat [of 1] by simp
  then show ?thesis
    using limiter_recovers_after_one_second [of 1 1 1 1 "[(V4 7, 0), (V4 7, 0)]" "V4 7" 2000000000 4096] e by auto
qed

end
