(* ===== verification/Quinn.thy ===== *)
theory Quinn
  imports Ratelimit
begin

text \<open>
  The third-party state machines the program drives, as a parameter. \<open>quinn_proto::Connection\<close> and
  \<open>quinn_proto::Endpoint\<close> are abstract states \<open>'c\<close> and \<open>'e\<close>; their methods are the fields of the
  records \<open>quinn_conn\<close> and \<open>deps\<close>, which every definition that calls them takes as an argument. A
  method that takes \<open>&mut self\<close> returns the new state; a method that may call the endpoint's CID
  generator also returns the CIDs it asked for, in order. Only the enumerations of quinn's public
  interface are written out, with the constructors the source matches on.
\<close>

section \<open>Addresses\<close>

text \<open>\<open>std::net::SocketAddr\<close>: an address and a port; for IPv6 also flow info and scope.\<close>

datatype socket_addr = AddrV4 u32 u16 | AddrV6 "128 word" u16 u32 u32

fun sa_ip :: "socket_addr \<Rightarrow> ip_addr" where
  "sa_ip (AddrV4 a p) = V4 a"
| "sa_ip (AddrV6 a p f s) = V6 a"

section \<open>Enumerations of the public interface\<close>

type_synonym stream_id = u64
type_synonym cid = bytes

datatype dir = Bi | Uni

datatype q_connection_error =
    QVersionMismatch
  | QTransportError u64 string
  | QConnectionClosed u64 bytes
  | QApplicationClosed u64 bytes
  | QReset
  | QTimedOut
  | QLocallyClosed
  | QCidsExhausted

datatype q_stream_event =
    QOpened dir
  | QReadable stream_id
  | QWritable stream_id
  | QFinished stream_id
  | QStopped stream_id u64
  | QAvailable dir

datatype q_event =
    QHandshakeDataReady
  | QConnected
  | QConnectionLost q_connection_error
  | QStream q_stream_event
  | QDatagramReceived
  | QDatagramsUnblocked

datatype q_readable_error = QReadClosedStream | QIllegalOrderedRead
datatype q_read_error = QReadBlocked | QReadReset u64
datatype q_write_error = QWriteBlocked | QWriteStopped u64 | QWriteClosedStream
datatype q_finish_error = QFinishStopped u64 | QFinishClosedStream

datatype ('v, 'i) q_datagram_event =
    QNewConnection 'i
  | QConnectionEvent nat 'v
  | QResponse

section \<open>The methods\<close>

text \<open>
  \<open>qc_poll_transmit now max c\<close> is called with an empty buffer and answers a destination and what it
  wrote to the buffer. \<open>qc_read\<close> opens the ordered \<open>Chunks\<close> of a receive stream, \<open>qc_chunks_next\<close> and
  \<open>qc_chunks_finalize\<close> are its methods; while it is open it borrows the connection, so its state is
  part of \<open>'c\<close>. \<open>qc_poll_timeout\<close> reads the connection's next timer.
\<close>

record ('c, 'v, 'n) quinn_conn =
  qc_poll :: "'c \<Rightarrow> q_event option \<times> 'c"
  qc_poll_endpoint_events :: "'c \<Rightarrow> 'n option \<times> 'c"
  qc_handle_event :: "'v \<Rightarrow> 'c \<Rightarrow> 'c"
  qc_poll_transmit :: "instant \<Rightarrow> nat \<Rightarrow> 'c \<Rightarrow> (socket_addr \<times> bytes) option \<times> 'c"
  qc_poll_timeout :: "'c \<Rightarrow> instant option"
  qc_handle_timeout :: "instant \<Rightarrow> 'c \<Rightarrow> 'c"
  qc_is_drained :: "'c \<Rightarrow> bool"
  qc_is_closed :: "'c \<Rightarrow> bool"
  qc_remote_address :: "'c \<Rightarrow> socket_addr"
  qc_close :: "instant \<Rightarrow> u64 \<Rightarrow> bytes \<Rightarrow> 'c \<Rightarrow> 'c"
  qc_open :: "dir \<Rightarrow> 'c \<Rightarrow> stream_id option \<times> 'c"
  qc_accept :: "dir \<Rightarrow> 'c \<Rightarrow> stream_id option \<times> 'c"
  qc_read :: "stream_id \<Rightarrow> bool \<Rightarrow> 'c \<Rightarrow> (q_readable_error + unit) \<times> 'c"
  qc_chunks_next :: "stream_id \<Rightarrow> nat \<Rightarrow> 'c \<Rightarrow> (q_read_error + bytes option) \<times> 'c"
  qc_chunks_finalize :: "stream_id \<Rightarrow> 'c \<Rightarrow> 'c"
  qc_stop :: "stream_id \<Rightarrow> u64 \<Rightarrow> 'c \<Rightarrow> bool \<times> 'c"
  qc_write :: "stream_id \<Rightarrow> bytes \<Rightarrow> 'c \<Rightarrow> (q_write_error + nat) \<times> 'c"
  qc_finish :: "stream_id \<Rightarrow> 'c \<Rightarrow> (q_finish_error + unit) \<times> 'c"
  qc_reset :: "stream_id \<Rightarrow> u64 \<Rightarrow> 'c \<Rightarrow> bool \<times> 'c"
  varint_from_u64 :: "u64 \<Rightarrow> u64 option"

text \<open>
  What the endpoint installs in quinn: a server configuration carries the PSK that re-keys Initial
  packets, the throwaway TLS identity, the handshake-token key and the transport parameters; a client
  configuration the PSK, the transport parameters and the first-flight DCID.
\<close>

record transport_config =
  max_concurrent_uni_streams :: u32

record server_config =
  sc_psk :: bytes
  sc_identity :: bytes
  sc_token_key :: bytes
  sc_transport :: transport_config

record client_config =
  cc_psk :: bytes
  cc_transport :: transport_config
  cc_initial_dst_cid :: bytes

record ('c, 'v, 'n, 'e, 'i) deps = "('c, 'v, 'n) quinn_conn" +
  qe_set_server_config :: "server_config option \<Rightarrow> 'e \<Rightarrow> 'e"
  qe_handle :: "instant \<Rightarrow> socket_addr \<Rightarrow> bytes \<Rightarrow> 'e \<Rightarrow> ('v, 'i) q_datagram_event option \<times> bytes \<times> cid list \<times> 'e"
  qe_accept :: "'i \<Rightarrow> instant \<Rightarrow> 'e \<Rightarrow> (nat \<times> 'c) option \<times> bytes \<times> cid list \<times> 'e"
  qe_connect :: "instant \<Rightarrow> client_config \<Rightarrow> socket_addr \<Rightarrow> string \<Rightarrow> 'e \<Rightarrow> (string + nat \<times> 'c) \<times> cid list \<times> 'e"
  qe_handle_event :: "nat \<Rightarrow> 'n \<Rightarrow> 'e \<Rightarrow> 'v option \<times> cid list \<times> 'e"
  blake3_keyed_hash :: "bytes \<Rightarrow> bytes \<Rightarrow> bytes"

section \<open>Documented behaviour\<close>

text \<open>
  Draining terminates: each poll of a connection consumes one of finitely many queued items
  (\<open>q_weight\<close>, \<open>a_weight\<close>, \<open>n_weight\<close> and \<open>t_weight\<close> bound how many application events, unaccepted
  streams, endpoint events and datagrams are left), and accepting streams queues no new application
  event, nor does the endpoint's reply to an endpoint event queue a new one. A chunk is non-empty and no longer than what was asked for; an application error code is a
  varint exactly when it is below \<open>2^62\<close>.
\<close>

record 'c conn_weights =
  q_weight :: "'c \<Rightarrow> nat"
  a_weight :: "'c \<Rightarrow> nat"
  n_weight :: "'c \<Rightarrow> nat"
  t_weight :: "'c \<Rightarrow> nat"

definition events_drain :: "('c, 'v, 'n, 'z) quinn_conn_scheme \<Rightarrow> 'c conn_weights \<Rightarrow> bool" where
  "events_drain Q W \<longleftrightarrow>
     (\<forall>c e c'. qc_poll Q c = (Some e, c') \<longrightarrow> q_weight W c' < q_weight W c)
     \<and> (\<forall>c d i c'. qc_accept Q d c = (i, c') \<longrightarrow> q_weight W c' \<le> q_weight W c)
     \<and> (\<forall>c d i c'. qc_accept Q d c = (Some i, c') \<longrightarrow> a_weight W c' < a_weight W c)"

definition pumps_drain :: "('c, 'v, 'n, 'e, 'i) deps \<Rightarrow> 'c conn_weights \<Rightarrow> bool" where
  "pumps_drain D W \<longleftrightarrow> events_drain D W
     \<and> (\<forall>c n c'. qc_poll_endpoint_events D c = (Some n, c') \<longrightarrow> n_weight W c' < n_weight W c)
     \<and> (\<forall>h n e v cs e' c. qe_handle_event D h n e = (Some v, cs, e') \<longrightarrow>
          n_weight W (qc_handle_event D v c) \<le> n_weight W c)
     \<and> (\<forall>now k c t b c'. qc_poll_transmit D now k c = (Some (t, b), c') \<longrightarrow> b \<noteq> [] \<longrightarrow>
          t_weight W c' < t_weight W c)"

definition chunks_bounded :: "('c, 'v, 'n, 'z) quinn_conn_scheme \<Rightarrow> bool" where
  "chunks_bounded Q \<longleftrightarrow>
     (\<forall>i n c bs c'. 0 < n \<longrightarrow> qc_chunks_next Q i n c = (Inr (Some bs), c') \<longrightarrow> bs \<noteq> [] \<and> length bs \<le> n)"

definition varint_ok :: "('c, 'v, 'n, 'z) quinn_conn_scheme \<Rightarrow> bool" where
  "varint_ok Q \<longleftrightarrow> (\<forall>x. varint_from_u64 Q x = (if unat x < 2 ^ 62 then Some x else None))"

section \<open>A sample instance\<close>

text \<open>
  A minimal connection, for the witnesses: queued application events, peer-opened streams, one stream's
  receive buffer (delivered two bytes at a time, then finished) and queued datagrams.
\<close>

record sample_conn =
  sm_events :: "q_event list"
  sm_streams :: "stream_id list"
  sm_input :: bytes
  sm_output :: "(socket_addr \<times> bytes) list"
  sm_timer :: "instant option"
  sm_closed :: bool

fun pop_front :: "'a list \<Rightarrow> 'a option \<times> 'a list" where
  "pop_front [] = (None, [])"
| "pop_front (x # xs) = (Some x, xs)"

definition sample_quinn :: "(sample_conn, unit, unit) quinn_conn" where
  "sample_quinn = \<lparr>
     qc_poll = (\<lambda>c. let (e, es) = pop_front (sm_events c) in (e, c\<lparr>sm_events := es\<rparr>)),
     qc_poll_endpoint_events = (\<lambda>c. (None, c)),
     qc_handle_event = (\<lambda>_ c. c),
     qc_poll_transmit = (\<lambda>_ _ c. let (t, ts) = pop_front (sm_output c) in (t, c\<lparr>sm_output := ts\<rparr>)),
     qc_poll_timeout = sm_timer,
     qc_handle_timeout = (\<lambda>_ c. c\<lparr>sm_timer := None\<rparr>),
     qc_is_drained = sm_closed,
     qc_is_closed = sm_closed,
     qc_remote_address = (\<lambda>_. AddrV4 1 1),
     qc_close = (\<lambda>_ _ _ c. c\<lparr>sm_closed := True\<rparr>),
     qc_open = (\<lambda>_ c. (Some 0, c)),
     qc_accept = (\<lambda>_ c. let (i, is) = pop_front (sm_streams c) in (i, c\<lparr>sm_streams := is\<rparr>)),
     qc_read = (\<lambda>_ _ c. (Inr (), c)),
     qc_chunks_next = (\<lambda>_ n c. if sm_input c = [] then (Inr None, c)
        else (Inr (Some (take (min n 2) (sm_input c))), c\<lparr>sm_input := drop (min n 2) (sm_input c)\<rparr>)),
     qc_chunks_finalize = (\<lambda>_ c. c),
     qc_stop = (\<lambda>_ _ c. (True, c)),
     qc_write = (\<lambda>_ bs c. (Inr (length bs), c)),
     qc_finish = (\<lambda>_ c. (Inr (), c)),
     qc_reset = (\<lambda>_ _ c. (True, c)),
     varint_from_u64 = (\<lambda>x. if unat x < 2 ^ 62 then Some x else None)\<rparr>"

definition sample_weights :: "sample_conn conn_weights" where
  "sample_weights = \<lparr>q_weight = (\<lambda>c. length (sm_events c)), a_weight = (\<lambda>c. length (sm_streams c)),
     n_weight = (\<lambda>_. 0), t_weight = (\<lambda>c. length (sm_output c))\<rparr>"

lemma pop_front_Some: "pop_front xs = (Some x, ys) \<Longrightarrow> xs = x # ys"
  by (cases xs) auto

lemma sample_events_drain: "events_drain sample_quinn sample_weights"
  by (auto simp: events_drain_def sample_quinn_def sample_weights_def dest!: pop_front_Some split: prod.splits)

lemma sample_chunks_bounded: "chunks_bounded sample_quinn"
  by (auto simp: chunks_bounded_def sample_quinn_def split: if_splits)

lemma sample_varint_ok: "varint_ok sample_quinn"
  by (simp add: varint_ok_def sample_quinn_def)

end
