(* ===== verification/Outcome.thy ===== *)
theory Outcome
  imports Quinn
begin

text \<open>
  \<open>proto/src/outcome.rs\<close>: the values the sans-IO core answers with, the mapping of quinn's connection
  errors, and the generation-tagged connection handle with its order.
\<close>

section \<open>Outcomes\<close>

datatype transmit = Transmit (destination: socket_addr) (contents: bytes)

text \<open>A public handle: a reusable slab index of quinn and a generation that is never reused.\<close>

datatype connection_handle = ConnectionHandle (quinn: nat) (generation: u64)

datatype datagram_outcome = Dropped | Accepted connection_handle

datatype read_outcome = Read nat | ReadBlocked | ReadFinished

datatype write_outcome = Wrote nat | WriteBlocked

datatype connection_error =
    ApplicationClosed u64 bytes
  | ConnectionClosed u64 "u64 option" bytes
  | TransportError u64 "u64 option" string
  | ErrReset
  | TimedOut
  | LocallyClosed
  | VersionMismatch
  | CidsExhausted

fun from_quinn :: "q_connection_error \<Rightarrow> connection_error" where
  "from_quinn QVersionMismatch = VersionMismatch"
| "from_quinn (QTransportError code reason) = TransportError code None reason"
| "from_quinn (QConnectionClosed code reason) = ConnectionClosed code None reason"
| "from_quinn (QApplicationClosed code reason) = ApplicationClosed code reason"
| "from_quinn QReset = ErrReset"
| "from_quinn QTimedOut = TimedOut"
| "from_quinn QLocallyClosed = LocallyClosed"
| "from_quinn QCidsExhausted = CidsExhausted"

datatype event =
    Connected connection_handle
  | StreamOpened connection_handle stream_id dir
  | StreamReadable connection_handle stream_id
  | StreamWritable connection_handle stream_id
  | StreamFinAcked connection_handle stream_id
  | StreamStopped connection_handle stream_id u64
  | ConnectionLost connection_handle connection_error

fun event_conn :: "event \<Rightarrow> connection_handle" where
  "event_conn (Connected ch) = ch"
| "event_conn (StreamOpened ch i d) = ch"
| "event_conn (StreamReadable ch i) = ch"
| "event_conn (StreamWritable ch i) = ch"
| "event_conn (StreamFinAcked ch i) = ch"
| "event_conn (StreamStopped ch i e) = ch"
| "event_conn (ConnectionLost ch e) = ch"

section \<open>The order of handles\<close>

text \<open>
  Handles are ordered by generation first: a later allocation is a greater handle, whatever slab slot
  quinn gives it. The order is the model's own; the code only compares handles for equality.
\<close>

instantiation connection_handle :: linorder
begin

definition less_eq_connection_handle :: "connection_handle \<Rightarrow> connection_handle \<Rightarrow> bool" where
  "less_eq_connection_handle a b \<longleftrightarrow>
     generation a < generation b \<or> generation a = generation b \<and> quinn a \<le> quinn b"

definition less_connection_handle :: "connection_handle \<Rightarrow> connection_handle \<Rightarrow> bool" where
  "less_connection_handle a b \<longleftrightarrow>
     generation a < generation b \<or> generation a = generation b \<and> quinn a < quinn b"

instance
  by standard
    (auto simp: less_eq_connection_handle_def less_connection_handle_def intro: connection_handle.expand)

end

lemma generation_less: "generation a < generation b \<Longrightarrow> a < b"
  by (simp add: less_connection_handle_def)

text \<open>Nothing of quinn's error is lost but the frame type, which its interface does not expose.\<close>

lemma from_quinn_inj: "from_quinn a = from_quinn b \<longleftrightarrow> a = b"
  by (cases a; cases b) auto

end
