(* ===== verification/Conn.thy ===== *)
theory Conn
  imports Outcome
begin

text \<open>
  \<open>proto/src/conn.rs\<close>: one connection's stream bookkeeping around a \<open>quinn_proto::Connection\<close>. Every
  operation answers at once. \<open>None\<close> is an operation that does not return: a loop over quinn that never
  runs dry, or the slice panic of \<open>stream_read\<close> on an oversized chunk.
\<close>

section \<open>State\<close>

datatype conn_error =
    Closed
  | Stopped u64
  | Reset u64
  | ClosedStream
  | ReadLimitExceeded nat
  | InvalidErrorCode u64
  | Transport string

datatype send_fin = Queued | Acked | FinStopped u64

record conn_progress =
  cp_connected :: bool
  cp_lost :: "connection_error option"
  cp_opened :: "stream_id list"
  cp_readable :: "stream_id list"
  cp_writable :: "stream_id list"
  cp_fin_acked :: "stream_id list"
  cp_stopped :: "(stream_id \<times> u64) list"

definition progress_default :: conn_progress where
  "progress_default = \<lparr>cp_connected = False, cp_lost = None, cp_opened = [], cp_readable = [],
     cp_writable = [], cp_fin_acked = [], cp_stopped = []\<rparr>"

record 'c conn_state =
  cs_conn :: 'c
  cs_ready_accepts :: "stream_id list"
  cs_finished_reads :: "stream_id set"
  cs_send_fins :: "stream_id \<rightharpoonup> send_fin"
  cs_dirty :: bool

definition conn_new :: "'c \<Rightarrow> 'c conn_state" where
  "conn_new c = \<lparr>cs_conn = c, cs_ready_accepts = [], cs_finished_reads = {},
     cs_send_fins = Map.empty, cs_dirty = False\<rparr>"

section \<open>Operations\<close>

definition open_bi ::
  "('c, 'v, 'n, 'z) quinn_conn_scheme \<Rightarrow> 'c conn_state \<Rightarrow> (conn_error + stream_id) \<times> 'c conn_state" where
  "open_bi Q s =
     (if qc_is_closed Q (cs_conn s) then (Inl Closed, s)
      else let (r, c) = qc_open Q Bi (cs_conn s)
           in (case r of None \<Rightarrow> Inl ClosedStream | Some i \<Rightarrow> Inr i, s\<lparr>cs_conn := c\<rparr>))"

definition accept_bi ::
  "('c, 'v, 'n, 'z) quinn_conn_scheme \<Rightarrow> 'c conn_state \<Rightarrow> (conn_error + stream_id option) \<times> 'c conn_state" where
  "accept_bi Q s =
     (case cs_ready_accepts s of
        i # rest \<Rightarrow> (Inr (Some i), s\<lparr>cs_ready_accepts := rest\<rparr>)
      | [] \<Rightarrow> (let (r, c) = qc_accept Q Bi (cs_conn s) in (Inr r, s\<lparr>cs_conn := c\<rparr>)))"

text \<open>
  The copy loop of \<open>stream_read\<close>: the connection, the buffer and the fill count so far; at the end also
  whether the stream finished, and its error.
\<close>

partial_function (option) read_chunks ::
  "('c, 'v, 'n, 'z) quinn_conn_scheme \<Rightarrow> stream_id \<Rightarrow> 'c \<Rightarrow> bytes \<Rightarrow> nat
     \<Rightarrow> ('c \<times> bytes \<times> nat \<times> bool \<times> conn_error option) option" where
  "read_chunks Q i c buf filled =
     (if filled < length buf then
        (case qc_chunks_next Q i (length buf - filled) c of
           (Inr (Some bs), c') \<Rightarrow>
             if filled + length bs \<le> length buf
             then read_chunks Q i c' (copy_at buf filled bs) (filled + length bs)
             else None
         | (Inr None, c') \<Rightarrow> Some (c', buf, filled, True, None)
         | (Inl QReadBlocked, c') \<Rightarrow> Some (c', buf, filled, False, None)
         | (Inl (QReadReset code), c') \<Rightarrow> Some (c', buf, filled, False, Some (Reset code)))
      else Some (c, buf, filled, False, None))"

text \<open>Answers the outcome, the caller's buffer and the new state.\<close>

definition stream_read ::
  "('c, 'v, 'n, 'z) quinn_conn_scheme \<Rightarrow> stream_id \<Rightarrow> bytes \<Rightarrow> 'c conn_state
     \<Rightarrow> ((conn_error + read_outcome) \<times> bytes \<times> 'c conn_state) option" where
  "stream_read Q i buf s =
     (if i \<in> cs_finished_reads s then Some (Inr ReadFinished, buf, s)
      else if buf = [] then Some (Inr ReadBlocked, buf, s)
      else let s1 = s\<lparr>cs_dirty := True\<rparr> in
        case qc_read Q i True (cs_conn s1) of
          (Inl QReadClosedStream, c) \<Rightarrow> Some (Inl ClosedStream, buf, s1\<lparr>cs_conn := c\<rparr>)
        | (Inl QIllegalOrderedRead, c) \<Rightarrow>
            Some (Inl (Transport ''ordered read after unordered read''), buf, s1\<lparr>cs_conn := c\<rparr>)
        | (Inr _, c) \<Rightarrow>
            do {
              (c1, buf', filled, finished, errored) \<leftarrow> read_chunks Q i c buf 0;
              let s2 = s1\<lparr>cs_conn := qc_chunks_finalize Q i c1\<rparr>;
              let s3 = (if finished then s2\<lparr>cs_finished_reads := insert i (cs_finished_reads s2)\<rparr> else s2);
              Some (if 0 < filled then (Inr (Read filled), buf', s3)
                    else case errored of
                           Some err \<Rightarrow> (Inl err, buf', s3)
                         | None \<Rightarrow> (Inr (if finished then ReadFinished else ReadBlocked), buf', s3))
            })"

definition stream_write ::
  "('c, 'v, 'n, 'z) quinn_conn_scheme \<Rightarrow> stream_id \<Rightarrow> bytes \<Rightarrow> 'c conn_state
     \<Rightarrow> (conn_error + write_outcome) \<times> 'c conn_state" where
  "stream_write Q i buf s =
     (if buf = [] then (Inr (Wrote 0), s)
      else let s1 = s\<lparr>cs_dirty := True\<rparr>;
               (r, c) = qc_write Q i buf (cs_conn s1)
           in (case r of
                 Inr n \<Rightarrow> Inr (Wrote n)
               | Inl QWriteBlocked \<Rightarrow> Inr WriteBlocked
               | Inl (QWriteStopped code) \<Rightarrow> Inl (Stopped code)
               | Inl QWriteClosedStream \<Rightarrow> Inl ClosedStream, s1\<lparr>cs_conn := c\<rparr>))"

definition record_send_fin :: "stream_id \<Rightarrow> send_fin \<Rightarrow> 'c conn_state \<Rightarrow> bool \<times> 'c conn_state" where
  "record_send_fin i f s =
     (case cs_send_fins s i of
        Some Acked \<Rightarrow> (False, s)
      | Some (FinStopped _) \<Rightarrow> (False, s)
      | _ \<Rightarrow> (f \<noteq> Queued, s\<lparr>cs_send_fins := (cs_send_fins s)(i \<mapsto> f)\<rparr>))"

definition stream_finish ::
  "('c, 'v, 'n, 'z) quinn_conn_scheme \<Rightarrow> stream_id \<Rightarrow> 'c conn_state \<Rightarrow> (conn_error + unit) \<times> 'c conn_state" where
  "stream_finish Q i s =
     (case cs_send_fins s i of
        Some (FinStopped code) \<Rightarrow> (Inl (Stopped code), s)
      | Some _ \<Rightarrow> (Inl ClosedStream, s)
      | None \<Rightarrow>
          let s1 = s\<lparr>cs_dirty := True\<rparr>;
              (r, c) = qc_finish Q i (cs_conn s1);
              s2 = s1\<lparr>cs_conn := c\<rparr>
          in case r of
               Inr _ \<Rightarrow> (Inr (), s2\<lparr>cs_send_fins := (cs_send_fins s2)(i \<mapsto> Queued)\<rparr>)
             | Inl (QFinishStopped code) \<Rightarrow> (Inl (Stopped code), snd (record_send_fin i (FinStopped code) s2))
             | Inl QFinishClosedStream \<Rightarrow> (Inl ClosedStream, s2))"

definition varint :: "('c, 'v, 'n, 'z) quinn_conn_scheme \<Rightarrow> u64 \<Rightarrow> conn_error + u64" where
  "varint Q code = (case varint_from_u64 Q code of Some v \<Rightarrow> Inr v | None \<Rightarrow> Inl (InvalidErrorCode code))"

definition forget_recv :: "stream_id \<Rightarrow> 'c conn_state \<Rightarrow> 'c conn_state" where
  "forget_recv i s = s\<lparr>cs_finished_reads := cs_finished_reads s - {i}\<rparr>"

definition forget_send :: "stream_id \<Rightarrow> 'c conn_state \<Rightarrow> 'c conn_state" where
  "forget_send i s = s\<lparr>cs_send_fins := (cs_send_fins s)(i := None)\<rparr>"

definition forget_stream :: "stream_id \<Rightarrow> 'c conn_state \<Rightarrow> 'c conn_state" where
  "forget_stream i s = forget_send i (forget_recv i s)"

definition stream_reset ::
  "('c, 'v, 'n, 'z) quinn_conn_scheme \<Rightarrow> stream_id \<Rightarrow> u64 \<Rightarrow> 'c conn_state \<Rightarrow> (conn_error + unit) \<times> 'c conn_state" where
  "stream_reset Q i code s =
     (case varint Q code of
        Inl err \<Rightarrow> (Inl err, s)
      | Inr v \<Rightarrow>
          let s1 = s\<lparr>cs_dirty := True, cs_finished_reads := cs_finished_reads s - {i},
                     cs_send_fins := (cs_send_fins s)(i := None)\<rparr>;
              (ok, c) = qc_reset Q i v (cs_conn s1)
          in (if ok then Inr () else Inl ClosedStream, s1\<lparr>cs_conn := c\<rparr>))"

definition stream_stop ::
  "('c, 'v, 'n, 'z) quinn_conn_scheme \<Rightarrow> stream_id \<Rightarrow> u64 \<Rightarrow> 'c conn_state \<Rightarrow> (conn_error + unit) \<times> 'c conn_state" where
  "stream_stop Q i code s =
     (case varint Q code of
        Inl err \<Rightarrow> (Inl err, s)
      | Inr v \<Rightarrow>
          let s1 = s\<lparr>cs_dirty := True, cs_finished_reads := cs_finished_reads s - {i}\<rparr>;
              (ok, c) = qc_stop Q i v (cs_conn s1)
          in (if ok then Inr () else Inl ClosedStream, s1\<lparr>cs_conn := c\<rparr>))"

definition send_fin_of :: "stream_id \<Rightarrow> 'c conn_state \<Rightarrow> send_fin option" where
  "send_fin_of i s = cs_send_fins s i"

definition is_drained :: "('c, 'v, 'n, 'z) quinn_conn_scheme \<Rightarrow> 'c conn_state \<Rightarrow> bool" where
  "is_drained Q s = qc_is_drained Q (cs_conn s)"

definition is_dirty :: "'c conn_state \<Rightarrow> bool" where
  "is_dirty s = cs_dirty s"

definition clear_dirty :: "'c conn_state \<Rightarrow> 'c conn_state" where
  "clear_dirty s = s\<lparr>cs_dirty := False\<rparr>"

section \<open>Servicing\<close>

text \<open>The inner loop on a peer-opened stream: accept all there are, in order.\<close>

definition accept_poll ::
  "('c, 'v, 'n, 'z) quinn_conn_scheme \<Rightarrow> 'c conn_state \<times> conn_progress
     \<Rightarrow> stream_id option \<times> 'c conn_state \<times> conn_progress" where
  "accept_poll Q = (\<lambda>(s, p). let (r, c) = qc_accept Q Bi (cs_conn s) in (r, s\<lparr>cs_conn := c\<rparr>, p))"

definition accept_one :: "stream_id \<Rightarrow> 'c conn_state \<times> conn_progress \<Rightarrow> ('c conn_state \<times> conn_progress) option" where
  "accept_one i = (\<lambda>(s, p). Some (s\<lparr>cs_ready_accepts := cs_ready_accepts s @ [i]\<rparr>,
                                  p\<lparr>cp_opened := cp_opened p @ [i]\<rparr>))"

definition poll_conn ::
  "('c, 'v, 'n, 'z) quinn_conn_scheme \<Rightarrow> 'c conn_state \<times> conn_progress
     \<Rightarrow> q_event option \<times> 'c conn_state \<times> conn_progress" where
  "poll_conn Q = (\<lambda>(s, p). let (e, c) = qc_poll Q (cs_conn s) in (e, s\<lparr>cs_conn := c\<rparr>, p))"

fun service_event ::
  "('c, 'v, 'n, 'z) quinn_conn_scheme \<Rightarrow> q_event \<Rightarrow> 'c conn_state \<times> conn_progress
     \<Rightarrow> ('c conn_state \<times> conn_progress) option" where
  "service_event Q QConnected (s, p) = Some (s, p\<lparr>cp_connected := True\<rparr>)"
| "service_event Q (QConnectionLost reason) (s, p) = Some (s, p\<lparr>cp_lost := Some (from_quinn reason)\<rparr>)"
| "service_event Q (QStream (QOpened Bi)) (s, p) = while_some (accept_poll Q) accept_one (s, p)"
| "service_event Q (QStream (QReadable i)) (s, p) = Some (s, p\<lparr>cp_readable := cp_readable p @ [i]\<rparr>)"
| "service_event Q (QStream (QWritable i)) (s, p) = Some (s, p\<lparr>cp_writable := cp_writable p @ [i]\<rparr>)"
| "service_event Q (QStream (QFinished i)) (s, p) =
     (let (r, s1) = record_send_fin i Acked s
      in Some (s1, if r then p\<lparr>cp_fin_acked := cp_fin_acked p @ [i]\<rparr> else p))"
| "service_event Q (QStream (QStopped i code)) (s, p) =
     (let (r, s1) = record_send_fin i (FinStopped code) s
      in Some (s1, if r then p\<lparr>cp_stopped := cp_stopped p @ [(i, code)]\<rparr> else p))"
| "service_event Q _ (s, p) = Some (s, p)"

definition service_streams ::
  "('c, 'v, 'n, 'z) quinn_conn_scheme \<Rightarrow> 'c conn_state \<Rightarrow> (conn_progress \<times> 'c conn_state) option" where
  "service_streams Q s =
     map_option (\<lambda>(s', p). (p, s')) (while_some (poll_conn Q) (service_event Q) (s, progress_default))"

section \<open>What a read delivers\<close>

text \<open>
  \<open>delivered Q i cap c data c'\<close>: starting at \<open>c\<close>, successive chunks of stream \<open>i\<close>, each asked for with
  the room left of \<open>cap\<close>, concatenate to \<open>data\<close> and leave the connection at \<open>c'\<close>.
\<close>

inductive delivered ::
  "('c, 'v, 'n, 'z) quinn_conn_scheme \<Rightarrow> stream_id \<Rightarrow> nat \<Rightarrow> 'c \<Rightarrow> bytes \<Rightarrow> 'c \<Rightarrow> bool" for Q i where
  nothing: "delivered Q i cap c [] c"
| chunk: "0 < cap \<Longrightarrow> qc_chunks_next Q i cap c = (Inr (Some bs), c1) \<Longrightarrow> length bs \<le> cap \<Longrightarrow>
          delivered Q i (cap - length bs) c1 rest c2 \<Longrightarrow> delivered Q i cap c (bs @ rest) c2"

lemma delivered_length: "delivered Q i cap c data c' \<Longrightarrow> length data \<le> cap"
  by (induction rule: delivered.induct) auto

text \<open>How the loop ended, at a connection \<open>c\<close> with room for \<open>cap\<close> more bytes.\<close>

fun read_end ::
  "('c, 'v, 'n, 'z) quinn_conn_scheme \<Rightarrow> stream_id \<Rightarrow> nat \<Rightarrow> 'c \<Rightarrow> 'c \<times> bool \<times> conn_error option \<Rightarrow> bool" where
  "read_end Q i cap c (c', finished, errored) \<longleftrightarrow>
     (if cap = 0 then c' = c \<and> \<not> finished \<and> errored = None
      else case errored of
             None \<Rightarrow> qc_chunks_next Q i cap c = (if finished then Inr None else Inl QReadBlocked, c')
           | Some (Reset code) \<Rightarrow> qc_chunks_next Q i cap c = (Inl (QReadReset code), c') \<and> \<not> finished
           | Some _ \<Rightarrow> False)"

lemma copy_at_copy_at:
  assumes "i + length xs + length ys \<le> length buf"
  shows "copy_at (copy_at buf i xs) (i + length xs) ys = copy_at buf i (xs @ ys)"
  using assms by (simp add: copy_at_def ac_simps)

lemma copy_at_Nil [simp]: "copy_at buf i [] = buf"
  by (simp add: copy_at_def)

text \<open>Total correctness of the loop: with bounded chunks it returns, and with what was delivered.\<close>

lemma read_chunks_delivers:
  assumes ok: "chunks_bounded Q" and "filled \<le> length buf"
  shows "\<exists>data c0 e. read_chunks Q i c buf filled =
           Some (fst e, copy_at buf filled data, filled + length data, snd e)
         \<and> delivered Q i (length buf - filled) c data c0
         \<and> filled + length data \<le> length buf
         \<and> read_end Q i (length buf - (filled + length data)) c0 e"
  using assms(2)
proof (induction "length buf - filled" arbitrary: c buf filled rule: less_induct)
  case less
  show ?case
  proof (cases "filled < length buf")
    case False
    with less.prems show ?thesis
      by (intro exI [of _ "[]"] exI [of _ c] exI [of _ "(c, False, None)"])
        (simp add: delivered.nothing read_chunks.simps)
  next
    case True
    define r where "r = qc_chunks_next Q i (length buf - filled) c"
    have stop: ?thesis
      if "read_chunks Q i c buf filled = Some (c1, buf, filled, fin, err)"
        and "read_end Q i (length buf - filled) c (c1, fin, err)" for c1 fin err
      using that less.prems
      by (intro exI [of _ "[]"] exI [of _ c] exI [of _ "(c1, fin, err)"]) (simp add: delivered.nothing)
    obtain a c1 where a: "r = (a, c1)" by (cases r)
    show ?thesis
    proof (cases a)
      case (Inl e)
      then show ?thesis
      proof (cases e)
        case QReadBlocked
        with Inl a r_def True show ?thesis
          by (intro stop [of c1 False None]) (simp_all add: read_chunks.simps)
      next
        case (QReadReset code)
        with Inl a r_def True show ?thesis
          by (intro stop [of c1 False "Some (Reset code)"]) (simp_all add: read_chunks.simps)
      qed
    next
      case (Inr b)
      show ?thesis
      proof (cases b)
        case None
        with Inr a r_def True show ?thesis
          by (intro stop [of c1 True None]) (simp_all add: read_chunks.simps)
      next
        case (Some bs)
        with Inr a r_def have next': "qc_chunks_next Q i (length buf - filled) c = (Inr (Some bs), c1)"
          by simp
        moreover have "0 < length buf - filled" using True by simp
        ultimately have bs: "bs \<noteq> []" "length bs \<le> length buf - filled"
          using ok unfolding chunks_bounded_def by blast+
        let ?buf = "copy_at buf filled bs" and ?f = "filled + length bs"
        have l: "length ?buf = length buf" using bs True by simp
        have "0 < length bs" using bs(1) by simp
        then have "length ?buf - ?f < length buf - filled" "?f \<le> length ?buf"
          using bs(2) True l by linarith+
        from less.hyps [OF this] obtain data c0 e where
          ih: "read_chunks Q i c1 ?buf ?f = Some (fst e, copy_at ?buf ?f data, ?f + length data, snd e)"
            "delivered Q i (length ?buf - ?f) c1 data c0" "?f + length data \<le> length ?buf"
            "read_end Q i (length ?buf - (?f + length data)) c0 e" by blast
        have "read_chunks Q i c buf filled = read_chunks Q i c1 ?buf ?f"
          using True next' bs by (subst read_chunks.simps) (simp, linarith)
        moreover have "delivered Q i (length buf - filled) c (bs @ data) c0"
          using True next' bs ih(2) l by (intro delivered.chunk) auto
        moreover have "copy_at ?buf ?f data = copy_at buf filled (bs @ data)"
          using ih(3) l by (intro copy_at_copy_at) simp
        ultimately show ?thesis using ih l
          by (intro exI [of _ "bs @ data"] exI [of _ c0] exI [of _ e]) (simp add: add.assoc)
      qed
    qed
  qed
qed

section \<open>Servicing keeps the bookkeeping exact\<close>

definition terminal :: "send_fin option \<Rightarrow> bool" where
  "terminal f \<longleftrightarrow> (case f of Some Acked \<Rightarrow> True | Some (FinStopped _) \<Rightarrow> True | _ \<Rightarrow> False)"

text \<open>What one pass may have changed of the state it started in, given what it has reported so far.\<close>

definition serviced :: "'c conn_state \<Rightarrow> 'c conn_state \<times> conn_progress \<Rightarrow> bool" where
  "serviced s0 = (\<lambda>(s, p).
     cs_ready_accepts s = cs_ready_accepts s0 @ cp_opened p
     \<and> cs_finished_reads s = cs_finished_reads s0 \<and> cs_dirty s = cs_dirty s0
     \<and> distinct (cp_fin_acked p @ map fst (cp_stopped p))
     \<and> (\<forall>i\<in>set (cp_fin_acked p). \<not> terminal (cs_send_fins s0 i) \<and> cs_send_fins s i = Some Acked)
     \<and> (\<forall>(i, code)\<in>set (cp_stopped p). \<not> terminal (cs_send_fins s0 i) \<and> cs_send_fins s i = Some (FinStopped code))
     \<and> (\<forall>i. i \<notin> set (cp_fin_acked p) \<union> fst ` set (cp_stopped p) \<longrightarrow> cs_send_fins s i = cs_send_fins s0 i))"

lemma record_send_fin_cases:
  "record_send_fin i f s =
     (if terminal (cs_send_fins s i) then (False, s)
      else (f \<noteq> Queued, s\<lparr>cs_send_fins := (cs_send_fins s)(i \<mapsto> f)\<rparr>))"
  by (auto simp: record_send_fin_def terminal_def split: option.splits send_fin.splits)

lemma serviced_start: "serviced s (s, progress_default)"
  by (simp add: serviced_def progress_default_def)

lemma serviced_conn: "serviced s0 (s, p) \<Longrightarrow> serviced s0 (s\<lparr>cs_conn := c\<rparr>, p)"
  by (simp add: serviced_def)

lemma serviced_record:
  assumes s: "serviced s0 (s, p)" and nt: "\<not> terminal (cs_send_fins s i)"
  shows "serviced s0 (s\<lparr>cs_send_fins := (cs_send_fins s)(i \<mapsto> Acked)\<rparr>, p\<lparr>cp_fin_acked := cp_fin_acked p @ [i]\<rparr>)"
    and "serviced s0 (s\<lparr>cs_send_fins := (cs_send_fins s)(i \<mapsto> FinStopped code)\<rparr>, p\<lparr>cp_stopped := cp_stopped p @ [(i, code)]\<rparr>)"
proof -
  have a: "i \<notin> set (cp_fin_acked p)" using s nt by (auto simp: serviced_def terminal_def)
  have b: "(i, c) \<notin> set (cp_stopped p)" for c using s nt by (auto simp: serviced_def terminal_def)
  have b': "i \<notin> fst ` set (cp_stopped p)" using b by auto
  have z: "\<not> terminal (cs_send_fins s0 i)" using s nt a b' by (simp add: serviced_def)
  show "serviced s0 (s\<lparr>cs_send_fins := (cs_send_fins s)(i \<mapsto> Acked)\<rparr>, p\<lparr>cp_fin_acked := cp_fin_acked p @ [i]\<rparr>)"
    using s a b b' z by (simp add: serviced_def) fastforce
  show "serviced s0 (s\<lparr>cs_send_fins := (cs_send_fins s)(i \<mapsto> FinStopped code)\<rparr>, p\<lparr>cp_stopped := cp_stopped p @ [(i, code)]\<rparr>)"
    using s a b b' z by (simp add: serviced_def) fastforce
qed

lemma serviced_reports [simp]:
  "serviced s0 (s, p\<lparr>cp_connected := a\<rparr>) = serviced s0 (s, p)"
  "serviced s0 (s, p\<lparr>cp_lost := l\<rparr>) = serviced s0 (s, p)"
  "serviced s0 (s, p\<lparr>cp_readable := rs\<rparr>) = serviced s0 (s, p)"
  "serviced s0 (s, p\<lparr>cp_writable := ws\<rparr>) = serviced s0 (s, p)"
  by (simp_all add: serviced_def)

lemma serviced_opened:
  "serviced s0 (s, p) \<Longrightarrow>
   serviced s0 (s\<lparr>cs_ready_accepts := cs_ready_accepts s @ [i]\<rparr>, p\<lparr>cp_opened := cp_opened p @ [i]\<rparr>)"
  by (simp add: serviced_def)

lemma serviced_accepts:
  assumes "serviced s0 sp" and "while_some (accept_poll Q) accept_one sp = Some sp'"
  shows "serviced s0 sp'"
  using assms(2,1)
proof (rule while_some_invariant)
  show "serviced s0 v" if "serviced s0 u" "accept_poll Q u = (Some x, u')" "accept_one x u' = Some v" for u x u' v
  proof -
    obtain t p where u: "u = (t, p)" by (cases u)
    with that obtain c where "v = (t\<lparr>cs_conn := c, cs_ready_accepts := cs_ready_accepts t @ [x]\<rparr>, p\<lparr>cp_opened := cp_opened p @ [x]\<rparr>)"
      by (auto simp: accept_poll_def accept_one_def split: prod.splits)
    with serviced_opened [OF serviced_conn, of s0 t p c x] that(1) u show ?thesis by simp
  qed
  show "serviced s0 u'" if "serviced s0 u" "accept_poll Q u = (None, u')" for u u'
    using that by (cases u) (auto simp: accept_poll_def serviced_conn split: prod.splits)
qed

lemma serviced_event:
  assumes s: "serviced s0 sp" and e: "service_event Q ev sp = Some sp'"
  shows "serviced s0 sp'"
proof -
  obtain s p where sp: "sp = (s, p)" by (cases sp)
  have fin: ?thesis if "ev = QStream (QFinished i) \<or> ev = QStream (QStopped i code)" for i code
    using that s e sp serviced_record(1) [of s0 s p i] serviced_record(2) [of s0 s p i code]
    by (auto simp: record_send_fin_cases split: if_splits)
  show ?thesis
  proof (cases ev)
    case (QStream se)
    show ?thesis
    proof (cases se)
      case (QOpened d)
      with QStream s e sp show ?thesis by (cases d) (auto intro: serviced_accepts)
    qed (use QStream s e sp fin in auto)
  qed (use s e sp in auto)
qed

lemma service_streams_exact:
  assumes "service_streams Q s = Some (p, s')"
  shows "serviced s (s', p)"
proof -
  from assms have "while_some (poll_conn Q) (service_event Q) (s, progress_default) = Some (s', p)"
    by (auto simp: service_streams_def)
  then show ?thesis
  proof (rule while_some_invariant [where I = "serviced s"])
    show "serviced s (s, progress_default)" by (rule serviced_start)
    show "serviced s v" if "serviced s u" "poll_conn Q u = (Some x, u')" "service_event Q x u' = Some v" for u x u' v
      using that serviced_event [of s u' Q x v]
      by (cases u) (auto simp: poll_conn_def serviced_conn split: prod.splits)
    show "serviced s u'" if "serviced s u" "poll_conn Q u = (None, u')" for u u'
      using that by (cases u) (auto simp: poll_conn_def serviced_conn split: prod.splits)
  qed
qed

lemma accepts_return:
  assumes "events_drain Q W"
  shows "\<exists>s' p'. while_some (accept_poll Q) accept_one (s, p) = Some (s', p')
           \<and> q_weight W (cs_conn s') \<le> q_weight W (cs_conn s)"
proof -
  have "\<exists>t. while_some (accept_poll Q) accept_one (s, p) = Some t"
  proof (rule while_some_total [where I = "\<lambda>_. True" and m = "\<lambda>u. a_weight W (cs_conn (fst u))"])
    show "\<exists>v. accept_one x u' = Some v \<and> True \<and> a_weight W (cs_conn (fst v)) < a_weight W (cs_conn (fst u))"
      if "accept_poll Q u = (Some x, u')" for u x u'
      using that assms by (cases u) (auto simp: accept_poll_def accept_one_def events_drain_def split: prod.splits)
  qed simp
  then obtain t where t: "while_some (accept_poll Q) accept_one (s, p) = Some t" by blast
  have "q_weight W (cs_conn (fst t)) \<le> q_weight W (cs_conn s)"
  proof (rule while_some_invariant [OF t, where I = "\<lambda>u. q_weight W (cs_conn (fst u)) \<le> q_weight W (cs_conn s)"])
    have step: "q_weight W (snd (qc_accept Q Bi c)) \<le> q_weight W c" for c
      using assms by (cases "qc_accept Q Bi c") (auto simp: events_drain_def)
    show "q_weight W (cs_conn (fst v)) \<le> q_weight W (cs_conn s)"
      if "q_weight W (cs_conn (fst u)) \<le> q_weight W (cs_conn s)" "accept_poll Q u = (Some x, u')" "accept_one x u' = Some v" for u x u' v
      using that step [of "cs_conn (fst u)"]
      by (cases u) (auto simp: accept_poll_def accept_one_def split: prod.splits)
    show "q_weight W (cs_conn (fst u')) \<le> q_weight W (cs_conn s)"
      if "q_weight W (cs_conn (fst u)) \<le> q_weight W (cs_conn s)" "accept_poll Q u = (None, u')" for u u'
      using that step [of "cs_conn (fst u)"] by (cases u) (auto simp: accept_poll_def split: prod.splits)
  qed simp
  with t show ?thesis by (cases t) auto
qed

lemma service_event_returns:
  assumes "events_drain Q W"
  shows "\<exists>s' p'. service_event Q ev (s, p) = Some (s', p') \<and> q_weight W (cs_conn s') \<le> q_weight W (cs_conn s)"
proof -
  have "\<exists>s' p'. service_event Q (QStream se) (s, p) = Some (s', p') \<and> q_weight W (cs_conn s') \<le> q_weight W (cs_conn s)" for se
  proof (cases se)
    case (QOpened d)
    with accepts_return [OF assms, of s p] show ?thesis by (cases d) auto
  qed (auto simp: record_send_fin_cases)
  then show ?thesis by (cases ev) auto
qed

lemma service_streams_returns:
  assumes "events_drain Q W"
  shows "\<exists>p s'. service_streams Q s = Some (p, s')"
proof -
  have "\<exists>t. while_some (poll_conn Q) (service_event Q) (s, progress_default) = Some t"
  proof (rule while_some_total [where I = "\<lambda>_. True" and m = "\<lambda>u. q_weight W (cs_conn (fst u))"])
    fix u x u' assume p: "poll_conn Q u = (Some x, u')"
    obtain s1 p1 c where u': "u' = (s1, p1)" and "qc_poll Q (cs_conn (fst u)) = (Some x, c)" "cs_conn s1 = c"
      using p by (cases u) (auto simp: poll_conn_def split: prod.splits)
    then have "q_weight W (cs_conn s1) < q_weight W (cs_conn (fst u))"
      using assms by (auto simp: events_drain_def)
    with service_event_returns [OF assms, of x s1 p1] u'
    show "\<exists>v. service_event Q x u' = Some v \<and> True \<and> q_weight W (cs_conn (fst v)) < q_weight W (cs_conn (fst u))"
      by fastforce
  qed simp
  then show ?thesis by (auto simp: service_streams_def)
qed

section \<open>Sequences of operations\<close>

text \<open>The operations a caller and the endpoint perform on a connection, as data.\<close>

datatype conn_op =
    OpOpenBi
  | OpAcceptBi
  | OpRead stream_id bytes
  | OpWrite stream_id bytes
  | OpFinish stream_id
  | OpReset stream_id u64
  | OpStop stream_id u64
  | OpForgetRecv stream_id
  | OpForgetSend stream_id
  | OpService
  | OpClearDirty

fun conn_exec :: "('c, 'v, 'n, 'z) quinn_conn_scheme \<Rightarrow> 'c conn_state \<Rightarrow> conn_op \<Rightarrow> 'c conn_state option" where
  "conn_exec Q s OpOpenBi = Some (snd (open_bi Q s))"
| "conn_exec Q s OpAcceptBi = Some (snd (accept_bi Q s))"
| "conn_exec Q s (OpRead i buf) = map_option (\<lambda>(r, b, s'). s') (stream_read Q i buf s)"
| "conn_exec Q s (OpWrite i buf) = Some (snd (stream_write Q i buf s))"
| "conn_exec Q s (OpFinish i) = Some (snd (stream_finish Q i s))"
| "conn_exec Q s (OpReset i code) = Some (snd (stream_reset Q i code s))"
| "conn_exec Q s (OpStop i code) = Some (snd (stream_stop Q i code s))"
| "conn_exec Q s (OpForgetRecv i) = Some (forget_recv i s)"
| "conn_exec Q s (OpForgetSend i) = Some (forget_send i s)"
| "conn_exec Q s OpService = map_option snd (service_streams Q s)"
| "conn_exec Q s OpClearDirty = Some (clear_dirty s)"

text \<open>The operations that give up the receive fact, and the send fact, of a stream.\<close>

fun abandons_recv :: "stream_id \<Rightarrow> conn_op \<Rightarrow> bool" where
  "abandons_recv i (OpReset j code) \<longleftrightarrow> i = j"
| "abandons_recv i (OpStop j code) \<longleftrightarrow> i = j"
| "abandons_recv i (OpForgetRecv j) \<longleftrightarrow> i = j"
| "abandons_recv i _ \<longleftrightarrow> False"

fun abandons_send :: "stream_id \<Rightarrow> conn_op \<Rightarrow> bool" where
  "abandons_send i (OpReset j code) \<longleftrightarrow> i = j"
| "abandons_send i (OpForgetSend j) \<longleftrightarrow> i = j"
| "abandons_send i _ \<longleftrightarrow> False"

lemmas op_defs = open_bi_def accept_bi_def stream_write_def stream_finish_def stream_reset_def
  stream_stop_def forget_recv_def forget_send_def clear_dirty_def

lemma stream_read_keeps:
  assumes "stream_read Q i buf s = Some (r, b, s')"
  shows "cs_finished_reads s \<subseteq> cs_finished_reads s'" and "cs_send_fins s' = cs_send_fins s"
    and "cs_ready_accepts s' = cs_ready_accepts s"
    and "\<not> cs_dirty s' \<Longrightarrow> cs_conn s' = cs_conn s"
    and "r = Inr ReadFinished \<Longrightarrow> i \<in> cs_finished_reads s'"
  using assms
  by (auto simp: stream_read_def Let_def bind_eq_Some_conv
      split: if_splits option.splits prod.splits sum.splits q_readable_error.splits)

lemma exec_keeps_finished:
  assumes "conn_exec Q s op = Some s'" "i \<in> cs_finished_reads s" "\<not> abandons_recv i op"
  shows "i \<in> cs_finished_reads s'"
proof (cases op)
  case (OpRead j buf)
  with assms stream_read_keeps(1) [of Q j buf s] show ?thesis by auto
next
  case OpService
  with assms service_streams_exact [of Q s _ s'] show ?thesis by (auto simp: serviced_def)
qed (use assms in \<open>auto simp: op_defs Let_def record_send_fin_cases split: if_splits option.splits prod.splits
       sum.splits list.splits send_fin.splits q_finish_error.splits\<close>)

lemma exec_keeps_terminal:
  assumes "conn_exec Q s op = Some s'" "terminal (cs_send_fins s i)" "\<not> abandons_send i op"
  shows "cs_send_fins s' i = cs_send_fins s i"
proof (cases op)
  case (OpRead j buf)
  with assms stream_read_keeps(2) [of Q j buf s] show ?thesis by auto
next
  case OpService
  with assms obtain p where sv: "serviced s (s', p)" using service_streams_exact [of Q s _ s'] by auto
  then have "i \<notin> set (cp_fin_acked p) \<union> fst ` set (cp_stopped p)"
    using assms(2) by (auto simp: serviced_def)
  with sv show ?thesis by (simp add: serviced_def)
next
  case (OpFinish j)
  with assms show ?thesis
    by (auto simp: stream_finish_def Let_def record_send_fin_cases terminal_def split: if_splits option.splits prod.splits
       sum.splits send_fin.splits q_finish_error.splits)
qed (use assms in \<open>auto simp: op_defs Let_def split: if_splits option.splits prod.splits
       sum.splits list.splits\<close>)

lemma run_keeps_facts:
  assumes "fold_opt (conn_exec Q) s ops = Some s'"
  shows "i \<in> cs_finished_reads s \<Longrightarrow> \<forall>op\<in>set ops. \<not> abandons_recv i op \<Longrightarrow> i \<in> cs_finished_reads s'"
    and "terminal (cs_send_fins s i) \<Longrightarrow> \<forall>op\<in>set ops. \<not> abandons_send i op \<Longrightarrow> cs_send_fins s' i = cs_send_fins s i"
  using assms
proof (induction ops arbitrary: s)
  case (Cons op ops)
  {
    case 1
    then show ?case using Cons.IH(1) exec_keeps_finished by (fastforce simp: bind_eq_Some_conv)
  next
    case 2
    then obtain s1 where s1: "conn_exec Q s op = Some s1" "fold_opt (conn_exec Q) s1 ops = Some s'"
      by (auto simp: bind_eq_Some_conv)
    with 2 have "cs_send_fins s1 i = cs_send_fins s i" by (intro exec_keeps_terminal) auto
    with Cons.IH(2) [of s1] s1 2 show ?case by simp
  }
qed simp_all

section \<open>Properties\<close>

text \<open>
  C27. A read delivers exactly what the stream yields and always returns: with chunks that respect the
  requested length, \<open>stream_read\<close> copies the concatenation of the delivered chunks to the front of the
  caller's buffer, reports \<open>Read n\<close> with \<open>n\<close> positive and within the buffer whenever anything was copied
  (even if the stream then errored or finished), and otherwise the error, end of stream or \<open>Blocked\<close>.
\<close>

theorem stream_read_delivers:
  assumes ok: "chunks_bounded Q"
    and fresh: "i \<notin> cs_finished_reads s" "buf \<noteq> []" "qc_read Q i True (cs_conn s) = (Inr (), c)"
  shows "\<exists>data c0 c1 finished errored.
      delivered Q i (length buf) c data c0 \<and> length data \<le> length buf
      \<and> read_end Q i (length buf - length data) c0 (c1, finished, errored)
      \<and> stream_read Q i buf s = Some
          (if data \<noteq> [] then Inr (Read (length data))
           else case errored of Some err \<Rightarrow> Inl err
                              | None \<Rightarrow> Inr (if finished then ReadFinished else ReadBlocked),
           data @ drop (length data) buf,
           s\<lparr>cs_conn := qc_chunks_finalize Q i c1, cs_dirty := True,
             cs_finished_reads := cs_finished_reads s \<union> (if finished then {i} else {})\<rparr>)"
proof -
  obtain data c0 e where r: "read_chunks Q i c buf 0 = Some (fst e, copy_at buf 0 data, length data, snd e)"
    and d: "delivered Q i (length buf) c data c0" "length data \<le> length buf"
      "read_end Q i (length buf - length data) c0 e"
    using read_chunks_delivers [OF ok, of 0 buf i c] by auto
  obtain c1 finished errored where e: "e = (c1, finished, errored)" by (cases e)
  have "stream_read Q i buf s = Some
          (if data \<noteq> [] then Inr (Read (length data))
           else case errored of Some err \<Rightarrow> Inl err
                              | None \<Rightarrow> Inr (if finished then ReadFinished else ReadBlocked),
           data @ drop (length data) buf,
           s\<lparr>cs_conn := qc_chunks_finalize Q i c1, cs_dirty := True,
             cs_finished_reads := cs_finished_reads s \<union> (if finished then {i} else {})\<rparr>)"
    using fresh r e by (simp add: stream_read_def Let_def copy_at_def split: option.splits)
  with d e show ?thesis by blast
qed

text \<open>Witness: a three-byte input read into a five-byte buffer.\<close>

theorem stream_read_delivers_witness:
  "\<exists>data c0 c1 finished errored. delivered sample_quinn 4 5 \<lparr>sm_events = [], sm_streams = [], sm_input = [7, 8, 9],
        sm_output = [], sm_timer = None, sm_closed = False\<rparr> data c0 \<and> length data \<le> 5
      \<and> read_end sample_quinn 4 (5 - length data) c0 (c1, finished, errored)"
proof -
  let ?c = "\<lparr>sm_events = [], sm_streams = [], sm_input = [7, 8, 9],
        sm_output = [], sm_timer = None, sm_closed = False\<rparr>"
  have "qc_read sample_quinn 4 True (cs_conn (conn_new ?c)) = (Inr (), ?c)"
    by (simp add: sample_quinn_def conn_new_def)
  moreover have "4 \<notin> cs_finished_reads (conn_new ?c)" by (simp add: conn_new_def)
  moreover have l: "[0, 0, 0, 0, 0] \<noteq> ([] :: bytes)" "length ([0, 0, 0, 0, 0] :: bytes) = 5" by simp_all
  ultimately show ?thesis
    using stream_read_delivers [OF sample_chunks_bounded, of 4 "conn_new ?c" "[0, 0, 0, 0, 0]" ?c]
    unfolding l(2) by blast
qed

text \<open>
  C28. One servicing pass returns and accounts for every send stream exactly once: it reports a stream as
  acknowledged or stopped only if no terminal fact was known before, records that fact, never reports
  a stream twice, never overwrites a terminal fact, and changes no other stream's; peer-opened streams
  are appended to the accept queue in the order they are reported.
\<close>

theorem service_streams_reports_once:
  assumes "events_drain Q W"
  shows "\<exists>p s'. service_streams Q s = Some (p, s')
     \<and> cs_ready_accepts s' = cs_ready_accepts s @ cp_opened p
     \<and> distinct (cp_fin_acked p @ map fst (cp_stopped p))
     \<and> (\<forall>i. cs_send_fins s' i =
           (if i \<in> set (cp_fin_acked p) then Some Acked
            else case map_of (cp_stopped p) i of Some code \<Rightarrow> Some (FinStopped code) | None \<Rightarrow> cs_send_fins s i))
     \<and> (\<forall>i. terminal (cs_send_fins s i) \<longrightarrow> i \<notin> set (cp_fin_acked p) \<union> fst ` set (cp_stopped p))
     \<and> cs_finished_reads s' = cs_finished_reads s \<and> cs_dirty s' = cs_dirty s"
proof -
  obtain p s' where r: "service_streams Q s = Some (p, s')" using service_streams_returns [OF assms] by blast
  then have sv: "serviced s (s', p)" by (rule service_streams_exact)
  have "cs_send_fins s' i =
           (if i \<in> set (cp_fin_acked p) then Some Acked
            else case map_of (cp_stopped p) i of Some code \<Rightarrow> Some (FinStopped code) | None \<Rightarrow> cs_send_fins s i)" for i
    using sv by (auto simp: serviced_def map_of_eq_None_iff split: option.splits dest: map_of_SomeD)
  moreover have "i \<notin> set (cp_fin_acked p) \<union> fst ` set (cp_stopped p)" if "terminal (cs_send_fins s i)" for i
    using sv that by (auto simp: serviced_def)
  ultimately show ?thesis using r sv by (intro exI [of _ p] exI [of _ s']) (simp add: serviced_def)
qed

text \<open>Witness: a connection with an acknowledged and a repeated stop event.\<close>

theorem service_streams_reports_once_witness:
  "\<exists>p s'. service_streams sample_quinn (conn_new \<lparr>sm_events = [QStream (QFinished 4), QStream (QStopped 4 7)],
        sm_streams = [], sm_input = [], sm_output = [], sm_timer = None, sm_closed = False\<rparr>) = Some (p, s')
     \<and> distinct (cp_fin_acked p @ map fst (cp_stopped p))"
  using service_streams_reports_once [OF sample_events_drain] by blast

text \<open>
  End of stream and the send half's terminal facts are stable answers: once \<open>stream_read\<close> has said
  \<open>Finished\<close>, it keeps saying so, without touching the connection, after any sequence of operations
  that does not abandon the receive half; once a FIN is acknowledged or stopped, that fact and the
  answer of \<open>stream_finish\<close> keep until the send half is reset or forgotten.
\<close>

theorem stream_facts_stable:
  assumes "fold_opt (conn_exec Q) s1 ops = Some s2"
  shows "(stream_read Q i buf s = Some (Inr ReadFinished, buf1, s1) \<longrightarrow> (\<forall>op\<in>set ops. \<not> abandons_recv i op) \<longrightarrow>
           stream_read Q i buf2 s2 = Some (Inr ReadFinished, buf2, s2))
    \<and> (terminal (send_fin_of i s1) \<longrightarrow> (\<forall>op\<in>set ops. \<not> abandons_send i op) \<longrightarrow>
           send_fin_of i s2 = send_fin_of i s1 \<and>
           stream_finish Q i s2 = (Inl (case send_fin_of i s1 of Some (FinStopped code) \<Rightarrow> Stopped code | _ \<Rightarrow> ClosedStream), s2))"
proof (intro conjI impI)
  assume "stream_read Q i buf s = Some (Inr ReadFinished, buf1, s1)" "\<forall>op\<in>set ops. \<not> abandons_recv i op"
  then have "i \<in> cs_finished_reads s2"
    using run_keeps_facts(1) [OF assms] stream_read_keeps(5) by blast
  then show "stream_read Q i buf2 s2 = Some (Inr ReadFinished, buf2, s2)" by (simp add: stream_read_def)
next
  assume t: "terminal (send_fin_of i s1)" and "\<forall>op\<in>set ops. \<not> abandons_send i op"
  then show eq: "send_fin_of i s2 = send_fin_of i s1"
    using run_keeps_facts(2) [OF assms, of i] by (simp add: send_fin_of_def)
  show "stream_finish Q i s2 = (Inl (case send_fin_of i s1 of Some (FinStopped code) \<Rightarrow> Stopped code | _ \<Rightarrow> ClosedStream), s2)"
    using t unfolding eq [symmetric]
    by (auto simp: send_fin_of_def stream_finish_def terminal_def split: option.splits send_fin.splits)
qed

text \<open>Witness: a stop fact survives a finish on another stream and a servicing pass.\<close>

theorem stream_facts_stable_witness:
  "\<exists>s2. fold_opt (conn_exec sample_quinn)
     (snd (record_send_fin 4 (FinStopped 7) (conn_new \<lparr>sm_events = [], sm_streams = [], sm_input = [], sm_output = [],
        sm_timer = None, sm_closed = False\<rparr>))) [OpFinish 8, OpFinish 4] = Some s2 \<and> send_fin_of 4 s2 = Some (FinStopped 7)"
proof -
  let ?s = "snd (record_send_fin 4 (FinStopped 7) (conn_new \<lparr>sm_events = [], sm_streams = [], sm_input = [], sm_output = [],
        sm_timer = None, sm_closed = False\<rparr>))"
  have "terminal (send_fin_of 4 ?s)" "send_fin_of 4 ?s = Some (FinStopped 7)"
    by (simp_all add: record_send_fin_def conn_new_def terminal_def send_fin_of_def)
  moreover have "\<forall>op\<in>set [OpFinish 8, OpFinish 4]. \<not> abandons_send 4 op" by simp
  moreover obtain s2 where "fold_opt (conn_exec sample_quinn) ?s [OpFinish 8, OpFinish 4] = Some s2"
    by simp
  ultimately show ?thesis
    using stream_facts_stable [of sample_quinn ?s "[OpFinish 8, OpFinish 4]" s2 4] by metis
qed

fun sends :: "conn_op \<Rightarrow> bool" where
  "sends (OpRead i buf) \<longleftrightarrow> True"
| "sends (OpWrite i buf) \<longleftrightarrow> True"
| "sends (OpFinish i) \<longleftrightarrow> True"
| "sends (OpReset i code) \<longleftrightarrow> True"
| "sends (OpStop i code) \<longleftrightarrow> True"
| "sends _ \<longleftrightarrow> False"

lemma exec_marks_dirty:
  assumes "conn_exec Q s op = Some s'" and "sends op"
  shows "cs_conn s' = cs_conn s \<or> cs_dirty s'"
proof (cases op)
  case (OpRead i buf)
  with assms stream_read_keeps(4) [of Q i buf s] show ?thesis by auto
qed (use assms in \<open>auto simp: op_defs Let_def record_send_fin_cases split: if_splits option.splits
        prod.splits sum.splits send_fin.splits q_finish_error.splits\<close>)

text \<open>
  No operation leaves unflagged work behind, and no bad code reaches quinn: an operation on a stream
  that ends with the connection not marked dirty has left the connection exactly as it was, and a
  reset or stop with a code of \<open>2^62\<close> or more is refused with \<open>InvalidErrorCode\<close>, changing nothing.
\<close>

theorem stream_ops_mark_dirty:
  assumes "varint_ok Q" and "conn_exec Q s op = Some s'" and "sends op"
  shows "(\<not> is_dirty s' \<longrightarrow> cs_conn s' = cs_conn s)
     \<and> (\<forall>i code. 2 ^ 62 \<le> unat code \<longrightarrow>
          stream_reset Q i code s = (Inl (InvalidErrorCode code), s)
          \<and> stream_stop Q i code s = (Inl (InvalidErrorCode code), s))"
proof -
  have "varint Q code = Inl (InvalidErrorCode code)" if "2 ^ 62 \<le> unat code" for code
    using that assms(1) by (simp add: varint_def varint_ok_def)
  then have "\<forall>i code. 2 ^ 62 \<le> unat code \<longrightarrow>
          stream_reset Q i code s = (Inl (InvalidErrorCode code), s)
          \<and> stream_stop Q i code s = (Inl (InvalidErrorCode code), s)"
    by (simp add: stream_reset_def stream_stop_def)
  moreover have "\<not> is_dirty s' \<longrightarrow> cs_conn s' = cs_conn s"
    using exec_marks_dirty [OF assms(2,3)] by (auto simp: is_dirty_def)
  ultimately show ?thesis by blast
qed

text \<open>Witness: a reset with code \<open>2^62\<close>.\<close>

theorem stream_ops_mark_dirty_witness:
  "stream_reset sample_quinn 4 (2 ^ 62) (conn_new \<lparr>sm_events = [], sm_streams = [], sm_input = [], sm_output = [],
        sm_timer = None, sm_closed = False\<rparr>) = (Inl (InvalidErrorCode (2 ^ 62)), conn_new \<lparr>sm_events = [], sm_streams = [],
        sm_input = [], sm_output = [], sm_timer = None, sm_closed = False\<rparr>)"
proof -
  have "2 ^ 62 \<le> unat (2 ^ 62 :: u64)" by simp
  moreover have "conn_exec sample_quinn (conn_new \<lparr>sm_events = [], sm_streams = [], sm_input = [], sm_output = [],
        sm_timer = None, sm_closed = False\<rparr>) (OpWrite 4 [1]) = Some (snd (stream_write sample_quinn 4 [1] (conn_new
        \<lparr>sm_events = [], sm_streams = [], sm_input = [], sm_output = [], sm_timer = None, sm_closed = False\<rparr>)))"
    by simp
  ultimately show ?thesis using stream_ops_mark_dirty [OF sample_varint_ok, of _ "OpWrite 4 [1]"] by (simp only: sends.simps simp_thms)
qed

end
