(* ===== verification/Parked.thy ===== *)
theory Parked
  imports Conn "HOL-Library.Multiset"
begin

text \<open>
  \<open>src/conn.rs\<close>, the driver's side: the parked handle operations of one connection. The core answers
  every stream operation at once; a handle's operation completes later. \<open>parked\<close> holds what is waiting.

  A \<open>oneshot::Sender\<close> is a number, its identity. Firing it, and dropping it unfired, are entries of the
  log that every operation answers, in order. A \<open>HashMap\<close> is an association list; the order in which
  \<open>fail_all\<close> drains one is the list's. \<open>None\<close> is an operation that does not return.
\<close>

section \<open>State\<close>

type_synonym reply = nat
type_synonym usize = u64

datatype answer =
    StreamReply reply "conn_error + stream_id"
  | UnitReply reply "conn_error + unit"
  | BytesReply reply "conn_error + bytes"
  | SenderDropped reply

fun answer_to :: "answer \<Rightarrow> reply" where
  "answer_to (StreamReply r x) = r"
| "answer_to (UnitReply r x) = r"
| "answer_to (BytesReply r x) = r"
| "answer_to (SenderDropped r) = r"

datatype cmd =
    OpenBi reply
  | AcceptBi reply
  | Write stream_id bytes reply
  | Finish stream_id reply
  | WaitFinished stream_id reply
  | ResetCmd stream_id u64 reply
  | StopCmd stream_id u64 reply
  | ReleaseSend stream_id
  | ReadToEnd stream_id usize reply
  | ReadCmd stream_id usize reply
  | CloseCmd u64 bytes

definition READ_CHUNK :: nat where "READ_CHUNK = 16 * 1024"

record pending_write =
  pw_data :: bytes
  pw_offset :: nat
  pw_reply :: reply

record pending_read =
  pr_buf :: bytes
  pr_end_limit :: "usize option"
  pr_max :: "usize option"
  pr_reply :: reply

text \<open>\<open>pk_closed\<close> is the value of the \<open>watch\<close> channel: the reason the connection ended, once it has.\<close>

record parked =
  pk_pending_accepts :: "reply list"
  pk_blocked_writes :: "(stream_id \<times> pending_write) list"
  pk_pending_reads :: "(stream_id \<times> pending_read) list"
  pk_fin_waiters :: "(stream_id \<times> reply list) list"
  pk_closed :: "connection_error option"

definition parked_new :: parked where
  "parked_new = \<lparr>pk_pending_accepts = [], pk_blocked_writes = [], pk_pending_reads = [],
     pk_fin_waiters = [], pk_closed = None\<rparr>"

definition mark_closed :: "connection_error \<Rightarrow> parked \<Rightarrow> parked" where
  "mark_closed reason pk = pk\<lparr>pk_closed := Some reason\<rparr>"

section \<open>The pumps\<close>

text \<open>
  Both answer the reply that was sent (the Boolean of the code is whether there is one), what is left
  pending, and the connection.
\<close>

partial_function (option) pump_write ::
  "('c, 'v, 'n, 'z) quinn_conn_scheme \<Rightarrow> stream_id \<Rightarrow> pending_write \<Rightarrow> 'c conn_state
     \<Rightarrow> (answer option \<times> pending_write \<times> 'c conn_state) option" where
  "pump_write Q i p s =
     (if length (pw_data p) \<le> pw_offset p then Some (Some (UnitReply (pw_reply p) (Inr ())), p, s)
      else case stream_write Q i (drop (pw_offset p) (pw_data p)) s of
             (Inr (Wrote n), s1) \<Rightarrow> pump_write Q i (p\<lparr>pw_offset := pw_offset p + n\<rparr>) s1
           | (Inr WriteBlocked, s1) \<Rightarrow> Some (None, p, s1)
           | (Inl e, s1) \<Rightarrow> Some (Some (UnitReply (pw_reply p) (Inl e)), p, s1))"

definition read_request :: "pending_read \<Rightarrow> nat" where
  "read_request p =
     (let filled = length (pr_buf p)
      in max (case pr_max p of
                Some m \<Rightarrow> min (unat m - filled) READ_CHUNK
              | None \<Rightarrow>
                  (case pr_end_limit p of
                     Some limit \<Rightarrow> min (unat (saturating_add limit 1) - filled) READ_CHUNK
                   | None \<Rightarrow> READ_CHUNK)) 1)"

definition over_limit :: "pending_read \<Rightarrow> usize option" where
  "over_limit p =
     (case pr_end_limit p of
        Some limit \<Rightarrow> if unat limit < length (pr_buf p) then Some limit else None
      | None \<Rightarrow> None)"

partial_function (option) pump_read ::
  "('c, 'v, 'n, 'z) quinn_conn_scheme \<Rightarrow> stream_id \<Rightarrow> pending_read \<Rightarrow> 'c conn_state
     \<Rightarrow> (answer option \<times> pending_read \<times> 'c conn_state) option" where
  "pump_read Q i p s =
     Option.bind (stream_read Q i (replicate (read_request p) 0) s) (\<lambda>(outcome, tail, s1).
       case outcome of
         Inr (Read n) \<Rightarrow>
           let p1 = p\<lparr>pr_buf := pr_buf p @ take n tail\<rparr>
           in (case over_limit p1 of
                 Some limit \<Rightarrow> Some (Some (BytesReply (pr_reply p) (Inl (ReadLimitExceeded (unat limit)))), p1, s1)
               | None \<Rightarrow>
                   if pr_max p1 \<noteq> None
                   then Some (Some (BytesReply (pr_reply p) (Inr (pr_buf p1))), p1\<lparr>pr_buf := []\<rparr>, s1)
                   else pump_read Q i p1 s1)
       | Inr ReadBlocked \<Rightarrow> Some (None, p, s1)
       | Inr ReadFinished \<Rightarrow>
           Some (Some (BytesReply (pr_reply p) (Inr (pr_buf p))), p\<lparr>pr_buf := []\<rparr>,
                 if pr_end_limit p \<noteq> None then forget_recv i s1 else s1)
       | Inl e \<Rightarrow> Some (Some (BytesReply (pr_reply p) (Inl e)), p, s1))"

text \<open>Inserting over a parked operation drops the old one, and its sender with it.\<close>

definition park_write :: "stream_id \<Rightarrow> pending_write \<Rightarrow> parked \<Rightarrow> answer list \<times> parked" where
  "park_write i p pk =
     (case map_of (pk_blocked_writes pk) i of None \<Rightarrow> [] | Some old \<Rightarrow> [SenderDropped (pw_reply old)],
      pk\<lparr>pk_blocked_writes := AList.update i p (pk_blocked_writes pk)\<rparr>)"

definition park_read :: "stream_id \<Rightarrow> pending_read \<Rightarrow> parked \<Rightarrow> answer list \<times> parked" where
  "park_read i p pk =
     (case map_of (pk_pending_reads pk) i of None \<Rightarrow> [] | Some old \<Rightarrow> [SenderDropped (pr_reply old)],
      pk\<lparr>pk_pending_reads := AList.update i p (pk_pending_reads pk)\<rparr>)"

definition offer_write ::
  "('c, 'v, 'n, 'z) quinn_conn_scheme \<Rightarrow> stream_id \<Rightarrow> pending_write \<Rightarrow> parked \<Rightarrow> 'c conn_state
     \<Rightarrow> (answer list \<times> parked \<times> 'c conn_state) option" where
  "offer_write Q i p pk s =
     do {
       (sent, p1, s1) \<leftarrow> pump_write Q i p s;
       Some (case sent of
               Some a \<Rightarrow> ([a], pk, s1)
             | None \<Rightarrow> let (outs, pk1) = park_write i p1 pk in (outs, pk1, s1))
     }"

definition offer_read ::
  "('c, 'v, 'n, 'z) quinn_conn_scheme \<Rightarrow> stream_id \<Rightarrow> pending_read \<Rightarrow> parked \<Rightarrow> 'c conn_state
     \<Rightarrow> (answer list \<times> parked \<times> 'c conn_state) option" where
  "offer_read Q i p pk s =
     do {
       (sent, p1, s1) \<leftarrow> pump_read Q i p s;
       Some (case sent of
               Some a \<Rightarrow> ([a], pk, s1)
             | None \<Rightarrow> let (outs, pk1) = park_read i p1 pk in (outs, pk1, s1))
     }"

section \<open>Failing what is parked\<close>

definition fail_fin_waiters :: "stream_id \<Rightarrow> conn_error \<Rightarrow> parked \<Rightarrow> answer list \<times> parked" where
  "fail_fin_waiters i err pk =
     (case map_of (pk_fin_waiters pk) i of
        None \<Rightarrow> ([], pk)
      | Some waiters \<Rightarrow> (map (\<lambda>r. UnitReply r (Inl err)) waiters,
          pk\<lparr>pk_fin_waiters := AList.delete i (pk_fin_waiters pk)\<rparr>))"

definition fail_blocked_write :: "stream_id \<Rightarrow> conn_error \<Rightarrow> parked \<Rightarrow> answer list \<times> parked" where
  "fail_blocked_write i err pk =
     (case map_of (pk_blocked_writes pk) i of
        None \<Rightarrow> ([], pk)
      | Some p \<Rightarrow> ([UnitReply (pw_reply p) (Inl err)],
          pk\<lparr>pk_blocked_writes := AList.delete i (pk_blocked_writes pk)\<rparr>))"

definition fail_pending_read :: "stream_id \<Rightarrow> conn_error \<Rightarrow> parked \<Rightarrow> answer list \<times> parked" where
  "fail_pending_read i err pk =
     (case map_of (pk_pending_reads pk) i of
        None \<Rightarrow> ([], pk)
      | Some p \<Rightarrow> ([BytesReply (pr_reply p) (Inl err)],
          pk\<lparr>pk_pending_reads := AList.delete i (pk_pending_reads pk)\<rparr>))"

definition fail_all :: "parked \<Rightarrow> answer list \<times> parked" where
  "fail_all pk =
     (map (\<lambda>r. StreamReply r (Inl Closed)) (pk_pending_accepts pk)
      @ map (\<lambda>(i, p). UnitReply (pw_reply p) (Inl Closed)) (pk_blocked_writes pk)
      @ map (\<lambda>(i, p). BytesReply (pr_reply p) (Inl Closed)) (pk_pending_reads pk)
      @ concat (map (\<lambda>(i, ws). map (\<lambda>r. UnitReply r (Inl Closed)) ws) (pk_fin_waiters pk)),
      pk\<lparr>pk_pending_accepts := [], pk_blocked_writes := [], pk_pending_reads := [], pk_fin_waiters := []\<rparr>)"

section \<open>Commands\<close>

definition wait_finished :: "stream_id \<Rightarrow> reply \<Rightarrow> parked \<Rightarrow> 'c conn_state \<Rightarrow> answer list \<times> parked" where
  "wait_finished i r pk s =
     (case send_fin_of i s of
        Some Acked \<Rightarrow> ([UnitReply r (Inr ())], pk)
      | Some (FinStopped code) \<Rightarrow> ([UnitReply r (Inl (Stopped code))], pk)
      | Some Queued \<Rightarrow>
          ([], pk\<lparr>pk_fin_waiters := AList.update i
                   ((case map_of (pk_fin_waiters pk) i of None \<Rightarrow> [] | Some ws \<Rightarrow> ws) @ [r]) (pk_fin_waiters pk)\<rparr>)
      | None \<Rightarrow> ([UnitReply r (Inl ClosedStream)], pk))"

fun apply_cmd ::
  "('c, 'v, 'n, 'z) quinn_conn_scheme \<Rightarrow> instant \<Rightarrow> cmd \<Rightarrow> parked \<Rightarrow> 'c conn_state
     \<Rightarrow> (answer list \<times> parked \<times> 'c conn_state) option" where
  "apply_cmd Q now (OpenBi r) pk s =
     (let (x, s1) = open_bi Q s in Some ([StreamReply r x], pk, s1))"
| "apply_cmd Q now (AcceptBi r) pk s =
     (case accept_bi Q s of
        (Inr (Some i), s1) \<Rightarrow> Some ([StreamReply r (Inr i)], pk, s1)
      | (Inr None, s1) \<Rightarrow> Some ([], pk\<lparr>pk_pending_accepts := pk_pending_accepts pk @ [r]\<rparr>, s1)
      | (Inl e, s1) \<Rightarrow> Some ([StreamReply r (Inl e)], pk, s1))"
| "apply_cmd Q now (Write i bs r) pk s =
     offer_write Q i \<lparr>pw_data = bs, pw_offset = 0, pw_reply = r\<rparr> pk s"
| "apply_cmd Q now (Finish i r) pk s =
     (let (x, s1) = stream_finish Q i s in Some ([UnitReply r x], pk, s1))"
| "apply_cmd Q now (WaitFinished i r) pk s =
     (let (outs, pk1) = wait_finished i r pk s in Some (outs, pk1, s))"
| "apply_cmd Q now (ResetCmd i code r) pk s =
     (let (x, s1) = stream_reset Q i code s;
          (log1, pk1) = (if isl x then ([], pk) else fail_fin_waiters i ClosedStream pk);
          (log2, pk2) = (if isl x then ([], pk1) else fail_blocked_write i ClosedStream pk1)
      in Some (log1 @ log2 @ [UnitReply r x], pk2, s1))"
| "apply_cmd Q now (StopCmd i code r) pk s =
     (let (x, s1) = stream_stop Q i code s;
          (log1, pk1) = (if isl x then ([], pk) else fail_pending_read i ClosedStream pk)
      in Some (log1 @ [UnitReply r x], pk1, s1))"
| "apply_cmd Q now (ReleaseSend i) pk s = Some ([], pk, forget_send i s)"
| "apply_cmd Q now (ReadToEnd i limit r) pk s =
     offer_read Q i \<lparr>pr_buf = [], pr_end_limit = Some limit, pr_max = None, pr_reply = r\<rparr> pk s"
| "apply_cmd Q now (ReadCmd i m r) pk s =
     offer_read Q i \<lparr>pr_buf = [], pr_end_limit = None, pr_max = Some (max m 1), pr_reply = r\<rparr> pk s"
| "apply_cmd Q now (CloseCmd code reason) pk s =
     Some ([], pk, s\<lparr>cs_conn := qc_close Q now code reason (cs_conn s)\<rparr>)"

section \<open>Events\<close>

text \<open>Queued streams go to parked accepts, first come first served, while there are both.\<close>

fun serve_accepts ::
  "('c, 'v, 'n, 'z) quinn_conn_scheme \<Rightarrow> reply list \<Rightarrow> 'c conn_state \<Rightarrow> answer list \<times> reply list \<times> 'c conn_state" where
  "serve_accepts Q [] s = ([], [], s)"
| "serve_accepts Q (r # rs) s =
     (case accept_bi Q s of
        (Inr (Some i), s1) \<Rightarrow>
          let (outs, rest, s2) = serve_accepts Q rs s1 in (StreamReply r (Inr i) # outs, rest, s2)
      | (Inr None, s1) \<Rightarrow> ([], r # rs, s1)
      | (Inl e, s1) \<Rightarrow> ([StreamReply r (Inl e)], rs, s1))"

definition on_stream_opened ::
  "('c, 'v, 'n, 'z) quinn_conn_scheme \<Rightarrow> parked \<Rightarrow> 'c conn_state \<Rightarrow> answer list \<times> parked \<times> 'c conn_state" where
  "on_stream_opened Q pk s =
     (let (outs, rest, s1) = serve_accepts Q (pk_pending_accepts pk) s
      in (outs, pk\<lparr>pk_pending_accepts := rest\<rparr>, s1))"

definition on_readable ::
  "('c, 'v, 'n, 'z) quinn_conn_scheme \<Rightarrow> stream_id \<Rightarrow> parked \<Rightarrow> 'c conn_state
     \<Rightarrow> (answer list \<times> parked \<times> 'c conn_state) option" where
  "on_readable Q i pk s =
     (case map_of (pk_pending_reads pk) i of
        None \<Rightarrow> Some ([], pk, s)
      | Some p \<Rightarrow> offer_read Q i p (pk\<lparr>pk_pending_reads := AList.delete i (pk_pending_reads pk)\<rparr>) s)"

definition on_writable ::
  "('c, 'v, 'n, 'z) quinn_conn_scheme \<Rightarrow> stream_id \<Rightarrow> parked \<Rightarrow> 'c conn_state
     \<Rightarrow> (answer list \<times> parked \<times> 'c conn_state) option" where
  "on_writable Q i pk s =
     (case map_of (pk_blocked_writes pk) i of
        None \<Rightarrow> Some ([], pk, s)
      | Some p \<Rightarrow> offer_write Q i p (pk\<lparr>pk_blocked_writes := AList.delete i (pk_blocked_writes pk)\<rparr>) s)"

definition on_fin_acked :: "stream_id \<Rightarrow> parked \<Rightarrow> answer list \<times> parked" where
  "on_fin_acked i pk =
     (case map_of (pk_fin_waiters pk) i of
        None \<Rightarrow> ([], pk)
      | Some waiters \<Rightarrow> (map (\<lambda>r. UnitReply r (Inr ())) waiters,
          pk\<lparr>pk_fin_waiters := AList.delete i (pk_fin_waiters pk)\<rparr>))"

definition on_stopped ::
  "('c, 'v, 'n, 'z) quinn_conn_scheme \<Rightarrow> stream_id \<Rightarrow> u64 \<Rightarrow> parked \<Rightarrow> 'c conn_state
     \<Rightarrow> (answer list \<times> parked \<times> 'c conn_state) option" where
  "on_stopped Q i code pk s =
     do {
       let (log1, pk1) = fail_fin_waiters i (Stopped code) pk;
       (log2, pk2, s2) \<leftarrow> on_writable Q i pk1 s;
       Some (log1 @ log2, pk2, s2)
     }"

section \<open>What a write hands over\<close>

text \<open>
  Documented behaviour of \<open>SendStream::write\<close>: a write of a non-empty buffer that does not fail accepts at
  least one byte and at most all of them.
\<close>

definition writes_progress :: "('c, 'v, 'n, 'z) quinn_conn_scheme \<Rightarrow> bool" where
  "writes_progress Q \<longleftrightarrow>
     (\<forall>i bs c n c'. bs \<noteq> [] \<longrightarrow> qc_write Q i bs c = (Inr n, c') \<longrightarrow> 0 < n \<and> n \<le> length bs)"

text \<open>
  \<open>written Q i bs s n s'\<close>: offering what is left of \<open>bs\<close> again and again, stream \<open>i\<close> accepts its first \<open>n\<close>
  bytes, in order.
\<close>

inductive written ::
  "('c, 'v, 'n, 'z) quinn_conn_scheme \<Rightarrow> stream_id \<Rightarrow> bytes \<Rightarrow> 'c conn_state \<Rightarrow> nat \<Rightarrow> 'c conn_state \<Rightarrow> bool" for Q i where
  nothing: "written Q i bs s 0 s"
| more: "bs \<noteq> [] \<Longrightarrow> stream_write Q i bs s = (Inr (Wrote n), s1) \<Longrightarrow> written Q i (drop n bs) s1 m s2 \<Longrightarrow>
         written Q i bs s (n + m) s2"

lemma stream_write_Wrote:
  assumes "writes_progress Q" "bs \<noteq> []" "stream_write Q i bs s = (Inr (Wrote n), s1)"
  shows "0 < n" "n \<le> length bs"
proof -
  obtain c where "qc_write Q i bs (cs_conn s) = (Inr n, c)"
    using assms(2,3) by (auto simp: stream_write_def Let_def split: prod.splits sum.splits q_write_error.splits)
  then show "0 < n" "n \<le> length bs" using assms(1,2) unfolding writes_progress_def by blast+
qed

abbreviation unsent :: "pending_write \<Rightarrow> bytes" where
  "unsent p \<equiv> drop (pw_offset p) (pw_data p)"

text \<open>How the loop ends: with nothing left to send, or on a write that blocks or fails.\<close>

definition write_end ::
  "('c, 'v, 'n, 'z) quinn_conn_scheme \<Rightarrow> stream_id \<Rightarrow> reply \<Rightarrow> bytes \<Rightarrow> 'c conn_state \<Rightarrow> answer option \<Rightarrow> 'c conn_state \<Rightarrow> bool" where
  "write_end Q i r left s1 a s' \<longleftrightarrow>
     (if left = [] then a = Some (UnitReply r (Inr ())) \<and> s' = s1
      else (a = None \<and> stream_write Q i left s1 = (Inr WriteBlocked, s'))
         \<or> (\<exists>e. a = Some (UnitReply r (Inl e)) \<and> stream_write Q i left s1 = (Inl e, s')))"

lemma pump_write_exact:
  assumes Q: "writes_progress Q"
  shows "\<exists>a n s1 s'. written Q i (unsent p) s n s1 \<and> n \<le> length (unsent p)
    \<and> pump_write Q i p s = Some (a, p\<lparr>pw_offset := pw_offset p + n\<rparr>, s')
    \<and> write_end Q i (pw_reply p) (drop n (unsent p)) s1 a s'"
proof (induction "length (unsent p)" arbitrary: p s rule: less_induct)
  case less
  obtain r s1 where w: "stream_write Q i (unsent p) s = (r, s1)" by (cases "stream_write Q i (unsent p) s")
  have stop: ?case if "pump_write Q i p s = Some (a, p, s')" "write_end Q i (pw_reply p) (unsent p) s a s'" for a s'
    by (rule exI [of _ a], rule exI [of _ 0], rule exI [of _ s], rule exI [of _ s'])
      (use that written.nothing [of Q i "unsent p" s] in simp)
  show ?case
  proof (cases "unsent p = []")
    case True
    then show ?thesis
      by (intro stop [of "Some (UnitReply (pw_reply p) (Inr ()))" s]) (simp_all add: write_end_def pump_write.simps)
  next
    case ne: False
    show ?thesis
    proof (cases "\<exists>n. r = Inr (Wrote n)")
      case False
      then consider "r = Inr WriteBlocked" | e where "r = Inl e" by (metis sum.exhaust write_outcome.exhaust)
      then show ?thesis
      proof cases
        case 1
        with ne w show ?thesis by (intro stop [of None s1]) (simp_all add: write_end_def pump_write.simps)
      next
        case (2 e)
        with ne w show ?thesis
          by (intro stop [of "Some (UnitReply (pw_reply p) (Inl e))" s1]) (simp_all add: write_end_def pump_write.simps)
      qed
    next
      case True
      then obtain n where wn: "stream_write Q i (unsent p) s = (Inr (Wrote n), s1)" using w by blast
      let ?p = "p\<lparr>pw_offset := pw_offset p + n\<rparr>"
      have n: "0 < n" "n \<le> length (unsent p)" using stream_write_Wrote [OF Q ne wn] by simp_all
      then have rest: "unsent ?p = drop n (unsent p)" by (simp add: add.commute)
      have "length (unsent ?p) < length (unsent p)" using n unfolding rest length_drop by linarith
      from less.hyps [OF this, of s1] obtain a m s2 s' where
        ih: "written Q i (unsent ?p) s1 m s2" "m \<le> length (unsent ?p)"
          "pump_write Q i ?p s1 = Some (a, ?p\<lparr>pw_offset := pw_offset ?p + m\<rparr>, s')"
          "write_end Q i (pw_reply ?p) (drop m (unsent ?p)) s2 a s'"
        by (elim exE conjE) (rule that)
      have "pump_write Q i p s = pump_write Q i ?p s1" using ne wn by (subst pump_write.simps) simp
      then have "pump_write Q i p s = Some (a, p\<lparr>pw_offset := pw_offset p + (n + m)\<rparr>, s')"
        using ih(3) by (simp add: add.assoc)
      moreover have "written Q i (unsent p) s (n + m) s2" using written.more [OF ne wn] ih(1) unfolding rest by blast
      moreover have "n + m \<le> length (unsent p)" using ih(2) n(2) unfolding rest by simp
      moreover have "write_end Q i (pw_reply p) (drop (n + m) (unsent p)) s2 a s'"
        using ih(4) unfolding rest by (simp add: ac_simps)
      ultimately show ?thesis by blast
    qed
  qed
qed

section \<open>What a read gathers\<close>

lemma stream_read_returns:
  assumes "chunks_bounded Q"
  shows "\<exists>r b s'. stream_read Q i buf s = Some (r, b, s') \<and> length b = length buf
    \<and> (\<forall>n. r = Inr (Read n) \<longrightarrow> 0 < n \<and> n \<le> length buf)"
proof -
  obtain x c where x: "qc_read Q i True (cs_conn s) = (x, c)" by (cases "qc_read Q i True (cs_conn s)")
  obtain data c0 e where r: "read_chunks Q i c buf 0 = Some (fst e, copy_at buf 0 data, length data, snd e)"
    and l: "length data \<le> length buf"
    using read_chunks_delivers [OF assms, of 0 buf i c] by auto
  obtain c1 finished errored where e: "e = (c1, finished, errored)" by (cases e)
  have "length (copy_at buf 0 data) = length buf" using l by simp
  with x r l e show ?thesis
    by (cases x) (auto simp: stream_read_def Let_def split: q_readable_error.splits option.splits)
qed

text \<open>Rounds of the read loop that yielded bytes: the read so far, and what it has become.\<close>

inductive gathered ::
  "('c, 'v, 'n, 'z) quinn_conn_scheme \<Rightarrow> stream_id \<Rightarrow> pending_read \<Rightarrow> 'c conn_state \<Rightarrow> bytes \<Rightarrow> 'c conn_state \<Rightarrow> bool" for Q i where
  nothing: "gathered Q i p s [] s"
| more: "stream_read Q i (replicate (read_request p) 0) s = Some (Inr (Read n), tail, s1) \<Longrightarrow>
         gathered Q i (p\<lparr>pr_buf := pr_buf p @ take n tail\<rparr>) s1 data s2 \<Longrightarrow> gathered Q i p s (take n tail @ data) s2"

text \<open>The two kinds of read the driver parks: to the end with a limit, or up to a positive maximum.\<close>

definition read_ok :: "pending_read \<Rightarrow> bool" where
  "read_ok p \<longleftrightarrow>
     (case (pr_end_limit p, pr_max p) of
        (Some l, None) \<Rightarrow> length (pr_buf p) \<le> unat l
      | (None, Some m) \<Rightarrow> 0 < m \<and> pr_buf p = []
      | _ \<Rightarrow> False)"

definition read_room :: "pending_read \<Rightarrow> nat" where
  "read_room p = (case pr_max p of Some m \<Rightarrow> unat m | None \<Rightarrow> (case pr_end_limit p of Some l \<Rightarrow> unat l + 1 - length (pr_buf p) | None \<Rightarrow> 0))"

lemma read_request_bounds:
  assumes "read_ok p"
  shows "0 < read_request p" "read_request p \<le> read_room p" "read_request p \<le> READ_CHUNK"
proof -
  have "0 < unat m" if "0 < m" for m :: usize using that by (simp add: word_less_nat_alt)
  then have m: "1 \<le> unat m" if "0 < m" for m :: usize using that by (simp add: Suc_leI)
  show "0 < read_request p" by (simp add: read_request_def Let_def)
  show "read_request p \<le> READ_CHUNK"
    by (auto simp: read_request_def Let_def READ_CHUNK_def split: option.splits)
  show "read_request p \<le> read_room p"
    using assms m by (auto simp: read_request_def read_room_def read_ok_def Let_def unat_saturating_add split: option.splits)
qed

text \<open>How the loop ends once the buffer of \<open>p\<close> is complete: over the limit, with the bytes of a plain read, or on a read that yields none.\<close>

definition read_stop ::
  "('c, 'v, 'n, 'z) quinn_conn_scheme \<Rightarrow> stream_id \<Rightarrow> pending_read \<Rightarrow> 'c conn_state
     \<Rightarrow> answer option \<times> pending_read \<times> 'c conn_state \<Rightarrow> bool" where
  "read_stop Q i p s = (\<lambda>(a, p', s').
     case over_limit p of
       Some l \<Rightarrow> a = Some (BytesReply (pr_reply p) (Inl (ReadLimitExceeded (unat l)))) \<and> s' = s
     | None \<Rightarrow>
         if pr_max p \<noteq> None \<and> pr_buf p \<noteq> [] then a = Some (BytesReply (pr_reply p) (Inr (pr_buf p))) \<and> s' = s
         else \<exists>r tail s1. stream_read Q i (replicate (read_request p) 0) s = Some (r, tail, s1)
           \<and> (case r of
                Inr ReadBlocked \<Rightarrow> a = None \<and> p' = p \<and> s' = s1
              | Inr ReadFinished \<Rightarrow> a = Some (BytesReply (pr_reply p) (Inr (pr_buf p)))
                  \<and> s' = (if pr_end_limit p \<noteq> None then forget_recv i s1 else s1)
              | Inl e \<Rightarrow> a = Some (BytesReply (pr_reply p) (Inl e)) \<and> s' = s1
              | _ \<Rightarrow> False))"

lemma pump_read_exact:
  assumes Q: "chunks_bounded Q" and "read_ok p"
  shows "\<exists>data s1 e. gathered Q i p s data s1 \<and> length data \<le> read_room p
    \<and> pump_read Q i p s = Some e \<and> read_stop Q i (p\<lparr>pr_buf := pr_buf p @ data\<rparr>) s1 e"
  using assms(2)
proof (induction "read_room p" arbitrary: p s rule: less_induct)
  case less
  note req = read_request_bounds [OF less.prems]
  obtain r tail s1 where sr: "stream_read Q i (replicate (read_request p) 0) s = Some (r, tail, s1)"
    and l: "length tail = read_request p" and n: "\<And>n. r = Inr (Read n) \<Longrightarrow> 0 < n \<and> n \<le> read_request p"
    using stream_read_returns [OF Q, of i "replicate (read_request p) 0" s] by auto
  have ok: "over_limit p = None" "pr_max p = None \<or> pr_buf p = []"
    using less.prems by (auto simp: read_ok_def over_limit_def split: option.splits)
  show ?case
  proof (cases "\<exists>n. r = Inr (Read n)")
    case False
    then have "\<exists>e. pump_read Q i p s = Some e \<and> read_stop Q i p s e"
      using sr ok by (cases r; cases "projr r") (auto simp: read_stop_def pump_read.simps)
    then show ?thesis
      by (elim exE, intro exI [of _ "[]"] exI [of _ s]) (auto intro: gathered.nothing)
  next
    case True
    then obtain n where r: "r = Inr (Read n)" by blast
    let ?p = "p\<lparr>pr_buf := pr_buf p @ take n tail\<rparr>"
    have tn: "length (take n tail) = n" "0 < n" "n \<le> read_room p" using n [OF r] l req by simp_all
    note sr = sr [unfolded r]
    show ?thesis
    proof (cases "over_limit ?p = None \<and> pr_max ?p = None")
      case False
      have "pr_buf ?p \<noteq> []" using tn by auto
      with False have "\<exists>e. pump_read Q i p s = Some e \<and> read_stop Q i ?p s1 e"
        using sr by (subst pump_read.simps) (cases "over_limit ?p"; cases "pr_max ?p"; simp add: read_stop_def Let_def)
      moreover have "gathered Q i p s (take n tail) s1" using gathered.more [OF sr gathered.nothing] by simp
      ultimately show ?thesis using tn by (intro exI [of _ "take n tail"] exI [of _ s1]) auto
    next
      case rec: True
      then have ok': "read_ok ?p" and smaller: "read_room ?p < read_room p" and room: "n + read_room ?p \<le> read_room p"
        using less.prems tn by (auto simp: read_ok_def over_limit_def read_room_def split: option.splits if_splits)
      from less.hyps [OF smaller ok', of s1] obtain data s2 e where
        ih: "gathered Q i ?p s1 data s2" "length data \<le> read_room ?p" "pump_read Q i ?p s1 = Some e"
          "read_stop Q i (?p\<lparr>pr_buf := pr_buf ?p @ data\<rparr>) s2 e" by blast
      have "pump_read Q i p s = Some e" using rec sr ih(3) by (subst pump_read.simps) (simp add: Let_def)
      moreover have "gathered Q i p s (take n tail @ data) s2" by (rule gathered.more [OF sr ih(1)])
      moreover have "length (take n tail @ data) \<le> read_room p" using ih(2) room tn by simp
      ultimately show ?thesis using ih(4) by (intro exI [of _ "take n tail @ data"] exI [of _ s2]) auto
    qed
  qed
qed

section \<open>The ledger of replies\<close>

text \<open>
  The contract of a component that takes in reply senders and gives them back fired (or dropped): what
  it gives out and still holds after a step is what it held before and took in.
\<close>

locale reply_ledger =
  fixes step :: "'s \<Rightarrow> 'i \<Rightarrow> ('o \<times> 's) option"
    and inv :: "'s \<Rightarrow> bool"
    and holds :: "'s \<Rightarrow> 'r multiset"
    and takes :: "'i \<Rightarrow> 'r multiset"
    and gives :: "'o \<Rightarrow> 'r multiset"
  assumes step_conserves:
    "inv s \<Longrightarrow> \<exists>o1 s1. step s i = Some (o1, s1) \<and> inv s1 \<and> gives o1 + holds s1 = holds s + takes i"
begin

lemma run_conserves:
  "inv s \<Longrightarrow> \<exists>os s'. run_opt step s is = Some (os, s') \<and> length os = length is \<and> inv s'
     \<and> sum_list (map gives os) + holds s' = holds s + sum_list (map takes is)"
proof (induction "is" arbitrary: s)
  case (Cons i "is")
  obtain o1 s1 where 1: "step s i = Some (o1, s1)" "inv s1" "gives o1 + holds s1 = holds s + takes i"
    using step_conserves [OF Cons.prems] by blast
  obtain os s2 where 2: "run_opt step s1 is = Some (os, s2)" "length os = length is" "inv s2"
    "sum_list (map gives os) + holds s2 = holds s1 + sum_list (map takes is)"
    using Cons.IH [OF 1(2)] by blast
  have "sum_list (map gives (o1 # os)) + holds s2 = holds s + sum_list (map takes (i # is))"
    using 1(3) 2(4) by (simp add: ac_simps)
  with 1 2 show ?case by auto
qed simp

end

sublocale reply_ledger \<subseteq> guarded_machine step inv
  using step_conserves by unfold_locales blast

subsection \<open>What is parked\<close>

definition waiting :: "parked \<Rightarrow> reply multiset" where
  "waiting pk = mset (pk_pending_accepts pk)
     + image_mset (\<lambda>(i, p). pw_reply p) (mset (pk_blocked_writes pk))
     + image_mset (\<lambda>(i, p). pr_reply p) (mset (pk_pending_reads pk))
     + (\<Sum>(i, ws)\<in>#mset (pk_fin_waiters pk). mset ws)"

definition parked_ok :: "parked \<Rightarrow> bool" where
  "parked_ok pk \<longleftrightarrow> distinct (map fst (pk_blocked_writes pk)) \<and> distinct (map fst (pk_pending_reads pk))
     \<and> distinct (map fst (pk_fin_waiters pk)) \<and> (\<forall>(i, p)\<in>set (pk_pending_reads pk). read_ok p)"

abbreviation answered :: "answer list \<Rightarrow> reply multiset" where
  "answered outs \<equiv> image_mset answer_to (mset outs)"

lemma mset_delete:
  "distinct (map fst al) \<Longrightarrow> map_of al k = Some v \<Longrightarrow> mset al = add_mset (k, v) (mset (AList.delete k al))"
proof (induction al)
  case (Cons x al)
  show ?case
  proof (cases "fst x = k")
    case True
    with Cons.prems have "x = (k, v)" "k \<notin> fst ` set al" by (auto simp: prod_eq_iff)
    then show ?thesis by (simp add: delete_id)
  next
    case False
    with Cons show ?thesis by (cases x) auto
  qed
qed simp

lemma mset_update:
  "distinct (map fst al) \<Longrightarrow> mset (AList.update k v al) = add_mset (k, v) (mset (AList.delete k al))"
proof (induction al)
  case (Cons x al)
  then show ?case by (cases x) (auto simp: delete_id)
qed simp

lemma distinct_fst_delete [simp]: "distinct (map fst al) \<Longrightarrow> distinct (map fst (AList.delete k al))"
  by (simp add: AList.distinct_delete)

lemma set_delete_subset: "set (AList.delete k al) \<subseteq> set al"
  by (auto simp: AList.delete_eq)

lemma set_update_subset: "set (AList.update k v al) \<subseteq> insert (k, v) (set al)"
  by (induction al) auto

lemmas parked_defs = waiting_def parked_ok_def

lemma delete_absent: "map_of al k = None \<Longrightarrow> AList.delete k al = al"
  by (simp add: delete_id map_of_eq_None_iff)

lemma park_write_conserves:
  assumes "parked_ok pk" "park_write i p pk = (outs, pk')"
  shows "parked_ok pk' \<and> answered outs + waiting pk' = add_mset (pw_reply p) (waiting pk)"
  using assms mset_delete [of "pk_blocked_writes pk" i] mset_update [of "pk_blocked_writes pk" i p]
  by (auto simp: park_write_def parked_defs distinct_update delete_absent split: option.splits)

lemma park_read_conserves:
  assumes "parked_ok pk" "read_ok p" "park_read i p pk = (outs, pk')"
  shows "parked_ok pk' \<and> answered outs + waiting pk' = add_mset (pr_reply p) (waiting pk)"
proof -
  have "\<forall>(j, q)\<in>set (AList.update i p (pk_pending_reads pk)). read_ok q"
    using assms(1,2) set_update_subset [of i p "pk_pending_reads pk"] by (auto simp: parked_ok_def)
  then show ?thesis
    using assms mset_delete [of "pk_pending_reads pk" i] mset_update [of "pk_pending_reads pk" i p]
    by (auto simp: park_read_def parked_defs distinct_update delete_absent split: option.splits)
qed

lemma offer_write_conserves:
  assumes "writes_progress Q" "parked_ok pk"
  shows "\<exists>outs pk' s'. offer_write Q i p pk s = Some (outs, pk', s') \<and> parked_ok pk'
    \<and> answered outs + waiting pk' = add_mset (pw_reply p) (waiting pk)"
proof -
  obtain a n s1 s' where w: "pump_write Q i p s = Some (a, p\<lparr>pw_offset := pw_offset p + n\<rparr>, s')"
    "write_end Q i (pw_reply p) (drop n (unsent p)) s1 a s'"
    using pump_write_exact [OF assms(1)] by blast
  show ?thesis
  proof (cases a)
    case None
    obtain outs pk' where pw: "park_write i (p\<lparr>pw_offset := pw_offset p + n\<rparr>) pk = (outs, pk')" by fastforce
    with park_write_conserves [OF assms(2) pw] None w(1) show ?thesis by (auto simp: offer_write_def)
  next
    case (Some x)
    then have "answer_to x = pw_reply p" using w(2) by (auto simp: write_end_def split: if_splits)
    with Some w(1) assms(2) show ?thesis by (auto simp: offer_write_def)
  qed
qed

lemma offer_read_conserves:
  assumes "chunks_bounded Q" "parked_ok pk" "read_ok p"
  shows "\<exists>outs pk' s'. offer_read Q i p pk s = Some (outs, pk', s') \<and> parked_ok pk'
    \<and> answered outs + waiting pk' = add_mset (pr_reply p) (waiting pk)"
proof -
  obtain bs s1 a p' s' where r: "pump_read Q i p s = Some (a, p', s')"
    "read_stop Q i (p\<lparr>pr_buf := pr_buf p @ bs\<rparr>) s1 (a, p', s')"
    using pump_read_exact [OF assms(1,3)] by (metis surj_pair)
  show ?thesis
  proof (cases a)
    case None
    then have p': "p' = p\<lparr>pr_buf := pr_buf p @ bs\<rparr>" "over_limit p' = None" "pr_max p' = None \<or> pr_buf p' = []"
      using r(2) by (auto simp: read_stop_def split: option.splits if_splits sum.splits read_outcome.splits)
    with assms(3) have "read_ok p'" by (auto simp: read_ok_def over_limit_def split: option.splits if_splits)
    moreover obtain outs pk' where pr: "park_read i p' pk = (outs, pk')" by fastforce
    ultimately show ?thesis using park_read_conserves [OF assms(2) _ pr] None r(1) p'(1) by (auto simp: offer_read_def)
  next
    case (Some x)
    then have "answer_to x = pr_reply p"
      using r(2) by (auto simp: read_stop_def split: option.splits if_splits sum.splits read_outcome.splits)
    with Some r(1) assms(2) show ?thesis by (auto simp: offer_read_def)
  qed
qed

text \<open>Taking an entry out of a table takes its senders out of what is waiting.\<close>

lemma waiting_take:
  assumes "parked_ok pk"
  shows "map_of (pk_blocked_writes pk) i = Some p \<Longrightarrow>
      waiting pk = add_mset (pw_reply p) (waiting (pk\<lparr>pk_blocked_writes := AList.delete i (pk_blocked_writes pk)\<rparr>))"
    and "map_of (pk_pending_reads pk) i = Some q \<Longrightarrow>
      waiting pk = add_mset (pr_reply q) (waiting (pk\<lparr>pk_pending_reads := AList.delete i (pk_pending_reads pk)\<rparr>))"
    and "map_of (pk_fin_waiters pk) i = Some ws \<Longrightarrow>
      waiting pk = mset ws + waiting (pk\<lparr>pk_fin_waiters := AList.delete i (pk_fin_waiters pk)\<rparr>)"
  using assms mset_delete [of "pk_blocked_writes pk" i p] mset_delete [of "pk_pending_reads pk" i q]
    mset_delete [of "pk_fin_waiters pk" i ws]
  by (auto simp: parked_defs)

lemma parked_ok_delete:
  assumes "parked_ok pk"
  shows "parked_ok (pk\<lparr>pk_blocked_writes := AList.delete i (pk_blocked_writes pk)\<rparr>)"
    and "parked_ok (pk\<lparr>pk_pending_reads := AList.delete i (pk_pending_reads pk)\<rparr>)"
    and "parked_ok (pk\<lparr>pk_fin_waiters := AList.delete i (pk_fin_waiters pk)\<rparr>)"
    and "map_of (pk_pending_reads pk) i = Some q \<Longrightarrow> read_ok q"
  using assms set_delete_subset [of i "pk_pending_reads pk"] by (auto simp: parked_ok_def dest: map_of_SomeD)

lemma answered_map [simp]:
  "image_mset answer_to {#UnitReply r x. r \<in># M#} = M" "image_mset answer_to {#StreamReply r y. r \<in># M#} = M"
  by (simp_all add: multiset.map_comp o_def)

lemma fail_conserves:
  assumes "parked_ok pk"
  shows "fail_fin_waiters i e pk = (outs, pk') \<Longrightarrow> parked_ok pk' \<and> answered outs + waiting pk' = waiting pk"
    and "fail_blocked_write i e pk = (outs, pk') \<Longrightarrow> parked_ok pk' \<and> answered outs + waiting pk' = waiting pk"
    and "fail_pending_read i e pk = (outs, pk') \<Longrightarrow> parked_ok pk' \<and> answered outs + waiting pk' = waiting pk"
    and "on_fin_acked i pk = (outs, pk') \<Longrightarrow> parked_ok pk' \<and> answered outs + waiting pk' = waiting pk"
  using assms waiting_take [OF assms] parked_ok_delete [OF assms]
  by (auto simp: fail_fin_waiters_def fail_blocked_write_def fail_pending_read_def on_fin_acked_def split: option.splits)

lemma fail_all_conserves:
  "answered (fst (fail_all pk)) = waiting pk" "waiting (snd (fail_all pk)) = {#}" "parked_ok (snd (fail_all pk))"
proof -
  have "answered (concat (map (\<lambda>(i, ws). map (\<lambda>r. UnitReply r (Inl Closed)) ws) al)) = (\<Sum>(i, ws)\<in>#mset al. mset ws)"
    for al :: "(stream_id \<times> reply list) list"
    by (induction al) auto
  moreover have "answered (map (\<lambda>(i, p). UnitReply (pw_reply p) (Inl Closed)) al) = image_mset (\<lambda>(i, p). pw_reply p) (mset al)"
    for al :: "(stream_id \<times> pending_write) list" by (induction al) auto
  moreover have "answered (map (\<lambda>(i, p). BytesReply (pr_reply p) (Inl Closed)) al) = image_mset (\<lambda>(i, p). pr_reply p) (mset al)"
    for al :: "(stream_id \<times> pending_read) list" by (induction al) auto
  ultimately show "answered (fst (fail_all pk)) = waiting pk" by (simp add: fail_all_def waiting_def ac_simps)
qed (simp_all add: fail_all_def parked_defs)

lemma serve_accepts_conserves:
  "serve_accepts Q rs s = (outs, rest, s') \<Longrightarrow> answered outs + mset rest = mset rs"
  by (induction rs arbitrary: s outs rest s') (fastforce split: prod.splits sum.splits option.splits)+

lemma on_stream_opened_conserves:
  assumes "parked_ok pk" "on_stream_opened Q pk s = (outs, pk', s')"
  shows "parked_ok pk' \<and> answered outs + waiting pk' = waiting pk"
  using assms serve_accepts_conserves [of Q "pk_pending_accepts pk" s]
  by (auto simp: on_stream_opened_def parked_defs Let_def split: prod.splits)

lemma on_writable_conserves:
  assumes "writes_progress Q" "parked_ok pk"
  shows "\<exists>outs pk' s'. on_writable Q i pk s = Some (outs, pk', s') \<and> parked_ok pk' \<and> answered outs + waiting pk' = waiting pk"
proof (cases "map_of (pk_blocked_writes pk) i")
  case (Some p)
  with offer_write_conserves [OF assms(1) parked_ok_delete(1) [OF assms(2)], of i p i s] waiting_take(1) [OF assms(2) Some]
  show ?thesis by (simp add: on_writable_def)
qed (use assms in \<open>simp add: on_writable_def\<close>)

lemma on_readable_conserves:
  assumes "chunks_bounded Q" "parked_ok pk"
  shows "\<exists>outs pk' s'. on_readable Q i pk s = Some (outs, pk', s') \<and> parked_ok pk' \<and> answered outs + waiting pk' = waiting pk"
proof (cases "map_of (pk_pending_reads pk) i")
  case (Some p)
  with offer_read_conserves [OF assms(1) parked_ok_delete(2) [OF assms(2)] parked_ok_delete(4) [OF assms(2) Some], of i i s]
    waiting_take(2) [OF assms(2) Some]
  show ?thesis by (simp add: on_readable_def)
qed (use assms in \<open>simp add: on_readable_def\<close>)

lemma on_stopped_conserves:
  assumes "writes_progress Q" "parked_ok pk"
  shows "\<exists>outs pk' s'. on_stopped Q i code pk s = Some (outs, pk', s') \<and> parked_ok pk' \<and> answered outs + waiting pk' = waiting pk"
proof -
  obtain o1 pk1 where f: "fail_fin_waiters i (Stopped code) pk = (o1, pk1)" by fastforce
  note c = fail_conserves(1) [OF assms(2) f]
  obtain o2 pk2 s2 where "on_writable Q i pk1 s = Some (o2, pk2, s2)" "parked_ok pk2" "answered o2 + waiting pk2 = waiting pk1"
    using on_writable_conserves [OF assms(1)] c by blast
  moreover from this c have "answered (o1 @ o2) + waiting pk2 = waiting pk" by (simp add: union_assoc)
  ultimately show ?thesis using f by (simp add: on_stopped_def)
qed

subsection \<open>Commands\<close>

fun cmd_replies :: "cmd \<Rightarrow> reply multiset" where
  "cmd_replies (OpenBi r) = {#r#}"
| "cmd_replies (AcceptBi r) = {#r#}"
| "cmd_replies (Write i bs r) = {#r#}"
| "cmd_replies (Finish i r) = {#r#}"
| "cmd_replies (WaitFinished i r) = {#r#}"
| "cmd_replies (ResetCmd i code r) = {#r#}"
| "cmd_replies (StopCmd i code r) = {#r#}"
| "cmd_replies (ReleaseSend i) = {#}"
| "cmd_replies (ReadToEnd i limit r) = {#r#}"
| "cmd_replies (ReadCmd i m r) = {#r#}"
| "cmd_replies (CloseCmd code reason) = {#}"

lemma wait_finished_conserves:
  assumes "parked_ok pk" "wait_finished i r pk s = (outs, pk')"
  shows "parked_ok pk' \<and> answered outs + waiting pk' = add_mset r (waiting pk)"
  using assms mset_delete [of "pk_fin_waiters pk" i] mset_update [of "pk_fin_waiters pk" i]
  by (auto simp: wait_finished_def parked_defs distinct_update delete_absent split: option.splits send_fin.splits)

lemma apply_cmd_conserves:
  assumes "chunks_bounded Q" "writes_progress Q" "parked_ok pk"
  shows "\<exists>outs pk' s'. apply_cmd Q now c pk s = Some (outs, pk', s') \<and> parked_ok pk'
    \<and> answered outs + waiting pk' = waiting pk + cmd_replies c"
proof (cases c)
  case (AcceptBi r)
  obtain x s1 where "accept_bi Q s = (x, s1)" by fastforce
  moreover have "parked_ok (pk\<lparr>pk_pending_accepts := pk_pending_accepts pk @ [r]\<rparr>)"
    "waiting (pk\<lparr>pk_pending_accepts := pk_pending_accepts pk @ [r]\<rparr>) = add_mset r (waiting pk)"
    using assms(3) by (simp_all add: parked_defs)
  ultimately show ?thesis using AcceptBi assms(3) by (cases x) (auto split: option.splits)
next
  case (Write i bs r)
  with offer_write_conserves [OF assms(2,3), of i "\<lparr>pw_data = bs, pw_offset = 0, pw_reply = r\<rparr>" s] show ?thesis by simp
next
  case (WaitFinished i r)
  obtain outs pk' where "wait_finished i r pk s = (outs, pk')" by fastforce
  with wait_finished_conserves [OF assms(3) this] WaitFinished show ?thesis by simp
next
  case (ResetCmd i code r)
  obtain x s1 o1 pk1 o2 pk2 where 1: "stream_reset Q i code s = (x, s1)"
    "fail_fin_waiters i ClosedStream pk = (o1, pk1)" "fail_blocked_write i ClosedStream pk1 = (o2, pk2)"
    by (metis surj_pair)
  then have f: "parked_ok pk1" "answered o1 + waiting pk1 = waiting pk" "parked_ok pk2" "answered o2 + waiting pk2 = waiting pk1"
    using fail_conserves(1) [OF assms(3) 1(2)] fail_conserves(2) [OF _ 1(3)] by simp_all
  then have "answered (o1 @ o2) + waiting pk2 = waiting pk" by (simp add: union_assoc)
  with 1 f ResetCmd assms(3) show ?thesis by simp
next
  case (StopCmd i code r)
  obtain x s1 o1 pk1 where 1: "stream_stop Q i code s = (x, s1)" "fail_pending_read i ClosedStream pk = (o1, pk1)"
    by (metis surj_pair)
  with fail_conserves(3) [OF assms(3) 1(2)] StopCmd assms(3) show ?thesis by simp
next
  case (ReadToEnd i limit r)
  with offer_read_conserves [OF assms(1,3), of "\<lparr>pr_buf = [], pr_end_limit = Some limit, pr_max = None, pr_reply = r\<rparr>" i s]
  show ?thesis by (simp add: read_ok_def)
next
  case (ReadCmd i m r)
  have "0 < max m 1" by (rule less_le_trans [of _ 1]) simp_all
  with ReadCmd offer_read_conserves [OF assms(1,3), of "\<lparr>pr_buf = [], pr_end_limit = None, pr_max = Some (max m 1), pr_reply = r\<rparr>" i s]
  show ?thesis by (simp add: read_ok_def)
qed (use assms(3) in \<open>auto simp: Let_def split: prod.splits\<close>)

subsection \<open>Runs\<close>

text \<open>
  What happens to one connection's parked operations, as data; \<open>CoreMoves s\<close> is the endpoint servicing the
  connection in between, which may leave it in any state \<open>s\<close>.
\<close>

datatype 's parked_op =
    ApplyCmd instant cmd
  | StreamOpenedEv
  | ReadableEv stream_id
  | WritableEv stream_id
  | FinAckedEv stream_id
  | StoppedEv stream_id u64
  | CoreMoves 's

fun parked_exec ::
  "('c, 'v, 'n, 'z) quinn_conn_scheme \<Rightarrow> parked \<times> 'c conn_state \<Rightarrow> 'c conn_state parked_op
     \<Rightarrow> (answer list \<times> parked \<times> 'c conn_state) option" where
  "parked_exec Q (pk, s) (ApplyCmd now c) = apply_cmd Q now c pk s"
| "parked_exec Q (pk, s) StreamOpenedEv = Some (on_stream_opened Q pk s)"
| "parked_exec Q (pk, s) (ReadableEv i) = on_readable Q i pk s"
| "parked_exec Q (pk, s) (WritableEv i) = on_writable Q i pk s"
| "parked_exec Q (pk, s) (FinAckedEv i) = (let (outs, pk') = on_fin_acked i pk in Some (outs, pk', s))"
| "parked_exec Q (pk, s) (StoppedEv i code) = on_stopped Q i code pk s"
| "parked_exec Q (pk, s) (CoreMoves s') = Some ([], pk, s')"

fun op_replies :: "'s parked_op \<Rightarrow> reply multiset" where
  "op_replies (ApplyCmd now c) = cmd_replies c"
| "op_replies _ = {#}"

lemma parked_exec_conserves:
  assumes Q: "chunks_bounded Q" "writes_progress Q" and ok: "parked_ok pk"
  shows "\<exists>outs pk' s'. parked_exec Q (pk, s) op = Some (outs, pk', s') \<and> parked_ok pk'
    \<and> answered outs + waiting pk' = waiting pk + op_replies op"
proof (cases op)
  case (ApplyCmd now c)
  with apply_cmd_conserves [OF assms] show ?thesis by simp
next
  case StreamOpenedEv
  obtain outs pk' s' where "on_stream_opened Q pk s = (outs, pk', s')" by (metis surj_pair)
  with on_stream_opened_conserves [OF ok this] StreamOpenedEv show ?thesis by simp
next
  case (FinAckedEv i)
  obtain outs pk' where "on_fin_acked i pk = (outs, pk')" by fastforce
  with fail_conserves(4) [OF ok this] FinAckedEv show ?thesis by simp
qed (use on_readable_conserves [OF Q(1) ok] on_writable_conserves [OF Q(2) ok] on_stopped_conserves [OF Q(2) ok] ok in simp_all)

interpretation parked: reply_ledger "parked_exec Q"
    "\<lambda>(pk, s). chunks_bounded Q \<and> writes_progress Q \<and> parked_ok pk" "\<lambda>(pk, s). waiting pk" op_replies answered
  for Q :: "('c, 'v, 'n, 'z) quinn_conn_scheme"
proof
  fix s :: "parked \<times> 'c conn_state" and op
  assume inv: "case s of (pk, s) \<Rightarrow> chunks_bounded Q \<and> writes_progress Q \<and> parked_ok pk"
  obtain pk c where s: "s = (pk, c)" by fastforce
  with parked_exec_conserves [of Q pk c op] inv
  show "\<exists>o1 s1. parked_exec Q s op = Some (o1, s1)
     \<and> (case s1 of (pk, s) \<Rightarrow> chunks_bounded Q \<and> writes_progress Q \<and> parked_ok pk)
     \<and> answered o1 + (case s1 of (pk, s) \<Rightarrow> waiting pk) = (case s of (pk, s) \<Rightarrow> waiting pk) + op_replies op"
    by auto
qed

section \<open>Properties\<close>

text \<open>For the witnesses: a sample connection with three bytes to read.\<close>

definition three_bytes :: sample_conn where
  "three_bytes = \<lparr>sm_events = [], sm_streams = [], sm_input = [7, 8, 9], sm_output = [], sm_timer = None, sm_closed = False\<rparr>"

lemma sample_writes_progress: "writes_progress sample_quinn"
  by (simp add: writes_progress_def sample_quinn_def)

text \<open>
  No handle operation is lost or answered twice: over any run of commands and events on a connection,
  whatever the endpoint does to it in between, every operation returns, and the senders answered or
  dropped so far together with those still parked are exactly the senders the commands brought in, each
  as often as it came; and when the connection is lost, \<open>fail_all\<close> answers exactly the parked ones, with
  \<open>Closed\<close>, and leaves none.
\<close>

theorem replies_conserved:
  assumes "chunks_bounded Q" and "writes_progress Q"
  shows "\<exists>outs pk s'. run_opt (parked_exec Q) (parked_new, s) ops = Some (outs, pk, s') \<and> length outs = length ops
    \<and> answered (concat outs) + waiting pk = sum_list (map op_replies ops)
    \<and> answered (fst (fail_all pk)) = waiting pk \<and> waiting (snd (fail_all pk)) = {#}
    \<and> (\<forall>a\<in>set (fst (fail_all pk)). \<exists>r. a \<in> {StreamReply r (Inl Closed), UnitReply r (Inl Closed), BytesReply r (Inl Closed)})"
proof -
  have "sum_list (map answered outs) = answered (concat outs)" for outs by (induction outs) auto
  moreover have "parked_ok parked_new" "waiting parked_new = {#}" by (simp_all add: parked_new_def parked_defs)
  ultimately obtain outs pk s' where "run_opt (parked_exec Q) (parked_new, s) ops = Some (outs, pk, s')"
    "length outs = length ops" "answered (concat outs) + waiting pk = sum_list (map op_replies ops)"
    using parked.run_conserves [of Q "(parked_new, s)" ops] assms by auto
  then show ?thesis using fail_all_conserves [of pk] by (fastforce simp: fail_all_def)
qed

text \<open>Witness: an accept that parks and a write that completes.\<close>

theorem replies_conserved_witness:
  "\<exists>outs pk s'. run_opt (parked_exec sample_quinn) (parked_new, conn_new three_bytes)
       [ApplyCmd 0 (AcceptBi 1), ApplyCmd 0 (Write 4 [7] 2)] = Some (outs, pk, s')
     \<and> answered (concat outs) + waiting pk = {#1, 2#}"
  using replies_conserved [OF sample_chunks_bounded sample_writes_progress, of "conn_new three_bytes"
      "[ApplyCmd 0 (AcceptBi 1), ApplyCmd 0 (Write 4 [7] 2)]"] by auto

text \<open>
  C24. A \<open>write_all\<close> hands its bytes over in order and answers when, and only when, it is done: offering a
  parked write again returns, the stream takes a prefix of what was unsent, and the write is answered
  \<open>Ok\<close> with nothing left unsent, or stays parked at exactly the byte after that prefix because the
  stream blocks there, or is answered with the stream's error there.
\<close>

theorem write_all_in_order:
  assumes "writes_progress Q"
  shows "\<exists>n s1 outs pk' s'. offer_write Q i p pk s = Some (outs, pk', s') \<and> n \<le> length (unsent p)
    \<and> written Q i (unsent p) s n s1
    \<and> (if n = length (unsent p) then outs = [UnitReply (pw_reply p) (Inr ())] \<and> pk' = pk \<and> s' = s1
       else (stream_write Q i (drop n (unsent p)) s1 = (Inr WriteBlocked, s')
               \<and> map_of (pk_blocked_writes pk') i = Some (p\<lparr>pw_offset := pw_offset p + n\<rparr>)
               \<and> (map_of (pk_blocked_writes pk) i = None \<longrightarrow> outs = []))
          \<or> (\<exists>e. stream_write Q i (drop n (unsent p)) s1 = (Inl e, s')
               \<and> outs = [UnitReply (pw_reply p) (Inl e)] \<and> pk' = pk))"
proof -
  obtain a n s1 s' where w: "written Q i (unsent p) s n s1" "n \<le> length (unsent p)"
    "pump_write Q i p s = Some (a, p\<lparr>pw_offset := pw_offset p + n\<rparr>, s')" "write_end Q i (pw_reply p) (drop n (unsent p)) s1 a s'"
    using pump_write_exact [OF assms] by blast
  have left: "drop n (unsent p) = [] \<longleftrightarrow> n = length (unsent p)" using w(2) by auto
  consider "n = length (unsent p)" "a = Some (UnitReply (pw_reply p) (Inr ()))" "s' = s1"
    | "n \<noteq> length (unsent p)" "a = None" "stream_write Q i (drop n (unsent p)) s1 = (Inr WriteBlocked, s')"
    | e where "n \<noteq> length (unsent p)" "a = Some (UnitReply (pw_reply p) (Inl e))" "stream_write Q i (drop n (unsent p)) s1 = (Inl e, s')"
    using w(4) left unfolding write_end_def by (auto simp only: split: if_splits)
  then show ?thesis
  proof cases
    case 2
    let ?p = "p\<lparr>pw_offset := pw_offset p + n\<rparr>"
    obtain outs pk' where pw: "park_write i ?p pk = (outs, pk')" by fastforce
    then have "map_of (pk_blocked_writes pk') i = Some ?p" "map_of (pk_blocked_writes pk) i = None \<longrightarrow> outs = []"
      by (auto simp: park_write_def update_conv split: option.splits)
    moreover have "offer_write Q i p pk s = Some (outs, pk', s')" using 2 w(3) pw by (simp add: offer_write_def)
    ultimately show ?thesis using 2 w(1,2) by metis
  qed (use w in \<open>auto simp: offer_write_def\<close>)
qed

text \<open>Witness: a two-byte write.\<close>

theorem write_all_in_order_witness:
  "\<exists>n s1 outs pk' s'. offer_write sample_quinn 4 \<lparr>pw_data = [7, 8], pw_offset = 0, pw_reply = 5\<rparr> parked_new (conn_new three_bytes)
       = Some (outs, pk', s') \<and> n \<le> 2 \<and> written sample_quinn 4 [7, 8] (conn_new three_bytes) n s1"
  using write_all_in_order [OF sample_writes_progress, of 4 "\<lparr>pw_data = [7, 8], pw_offset = 0, pw_reply = 5\<rparr>" parked_new "conn_new three_bytes"]
  by (auto simp: numeral_2_eq_2)

text \<open>
  C25. A \<open>read_to_end(limit)\<close> answers with exactly the stream's bytes or not at all: resuming one returns; it
  appends what the stream yields to what it has gathered, never more than one byte past the limit;
  past the limit it is answered \<open>ReadLimitExceeded\<close>; otherwise it is answered with everything gathered
  when, and only when, the stream says it is finished (and then the end-of-stream fact is released),
  stays parked with everything gathered if the stream blocks, and is answered with the stream's error.
\<close>

theorem read_to_end_exact:
  assumes "chunks_bounded Q" and "pr_end_limit p = Some limit" "pr_max p = None" "length (pr_buf p) \<le> unat limit"
  shows "\<exists>got s1 a p' s'. pump_read Q i p s = Some (a, p', s') \<and> gathered Q i p s got s1
    \<and> length (pr_buf p @ got) \<le> unat limit + 1
    \<and> (if unat limit < length (pr_buf p @ got)
       then a = Some (BytesReply (pr_reply p) (Inl (ReadLimitExceeded (unat limit)))) \<and> s' = s1
       else (\<exists>r tail s2. stream_read Q i (replicate (read_request (p\<lparr>pr_buf := pr_buf p @ got\<rparr>)) 0) s1 = Some (r, tail, s2)
         \<and> (r = Inr ReadFinished \<and> a = Some (BytesReply (pr_reply p) (Inr (pr_buf p @ got))) \<and> s' = forget_recv i s2
            \<or> r = Inr ReadBlocked \<and> a = None \<and> p' = p\<lparr>pr_buf := pr_buf p @ got\<rparr> \<and> s' = s2
            \<or> (\<exists>e. r = Inl e \<and> a = Some (BytesReply (pr_reply p) (Inl e)) \<and> s' = s2))))"
proof -
  have ok: "read_ok p" using assms(2-4) by (simp add: read_ok_def)
  obtain got s1 a p' s' where g: "gathered Q i p s got s1" "length got \<le> read_room p" "pump_read Q i p s = Some (a, p', s')"
    and st: "read_stop Q i (p\<lparr>pr_buf := pr_buf p @ got\<rparr>) s1 (a, p', s')"
    using pump_read_exact [OF assms(1) ok] by (metis surj_pair)
  have "length (pr_buf p @ got) \<le> unat limit + 1" using g(2) assms by (simp add: read_room_def)
  moreover have "if unat limit < length (pr_buf p @ got)
       then a = Some (BytesReply (pr_reply p) (Inl (ReadLimitExceeded (unat limit)))) \<and> s' = s1
       else (\<exists>r tail s2. stream_read Q i (replicate (read_request (p\<lparr>pr_buf := pr_buf p @ got\<rparr>)) 0) s1 = Some (r, tail, s2)
         \<and> (r = Inr ReadFinished \<and> a = Some (BytesReply (pr_reply p) (Inr (pr_buf p @ got))) \<and> s' = forget_recv i s2
            \<or> r = Inr ReadBlocked \<and> a = None \<and> p' = p\<lparr>pr_buf := pr_buf p @ got\<rparr> \<and> s' = s2
            \<or> (\<exists>e. r = Inl e \<and> a = Some (BytesReply (pr_reply p) (Inl e)) \<and> s' = s2)))"
  proof (cases "unat limit < length (pr_buf p @ got)")
    case False
    let ?p = "p\<lparr>pr_buf := pr_buf p @ got\<rparr>"
    obtain r tail s2 where sr: "stream_read Q i (replicate (read_request ?p) 0) s1 = Some (r, tail, s2)"
      using stream_read_returns [OF assms(1)] by blast
    have "over_limit ?p = None" "pr_max ?p = None" "pr_end_limit ?p \<noteq> None" using False assms(2,3) by (simp_all add: over_limit_def)
    then show ?thesis
      using st sr False by (cases r; cases "projr r") (simp_all add: read_stop_def)
  qed (use st assms(2,3) in \<open>simp add: read_stop_def over_limit_def\<close>)
  ultimately show ?thesis using g(1,3) by blast
qed

text \<open>Witness: a read of the three bytes with limit ten.\<close>

theorem read_to_end_exact_witness:
  "\<exists>got s1 a p' s'. pump_read sample_quinn 4 \<lparr>pr_buf = [], pr_end_limit = Some 10, pr_max = None, pr_reply = 5\<rparr> (conn_new three_bytes)
       = Some (a, p', s') \<and> length got \<le> 11
     \<and> gathered sample_quinn 4 \<lparr>pr_buf = [], pr_end_limit = Some 10, pr_max = None, pr_reply = 5\<rparr> (conn_new three_bytes) got s1"
proof -
  let ?p = "\<lparr>pr_buf = [], pr_end_limit = Some 10, pr_max = None, pr_reply = 5\<rparr>"
  have "unat (10 :: usize) = 10" by simp
  then show ?thesis
    using read_to_end_exact [OF sample_chunks_bounded, of ?p 10 4 "conn_new three_bytes"] by auto
qed

text \<open>
  C26. A parked write does not keep later writes off its stream: when a \<open>write_all\<close> is parked with bytes
  unsent (its future may have been cancelled) and another write arrives on the same stream, the new
  bytes are offered at once. If the stream takes them the new write is answered \<open>Ok\<close> and the old one
  stays parked, so its remaining bytes follow the new ones; if the stream blocks, the old write is
  dropped with its remaining bytes, and its sender with it.
\<close>

theorem later_write_overtakes_parked_one:
  assumes "map_of (pk_blocked_writes pk) i = Some p" and "bs \<noteq> []"
  shows "(stream_write Q i bs s = (Inr (Wrote (length bs)), s1) \<longrightarrow>
            apply_cmd Q now (Write i bs r) pk s = Some ([UnitReply r (Inr ())], pk, s1))
    \<and> (stream_write Q i bs s = (Inr WriteBlocked, s1) \<longrightarrow>
            apply_cmd Q now (Write i bs r) pk s = Some ([SenderDropped (pw_reply p)],
              pk\<lparr>pk_blocked_writes := AList.update i \<lparr>pw_data = bs, pw_offset = 0, pw_reply = r\<rparr> (pk_blocked_writes pk)\<rparr>, s1))"
  using assms by (auto simp: offer_write_def pump_write.simps park_write_def)

text \<open>Witness: the sample stream takes the later write whole.\<close>

theorem later_write_overtakes_parked_one_witness:
  "apply_cmd sample_quinn 0 (Write 4 [9] 6)
     (parked_new\<lparr>pk_blocked_writes := [(4, \<lparr>pw_data = [7, 8], pw_offset = 1, pw_reply = 5\<rparr>)]\<rparr>) (conn_new three_bytes)
   = Some ([UnitReply 6 (Inr ())], parked_new\<lparr>pk_blocked_writes := [(4, \<lparr>pw_data = [7, 8], pw_offset = 1, pw_reply = 5\<rparr>)]\<rparr>,
       (conn_new three_bytes)\<lparr>cs_dirty := True\<rparr>)"
proof -
  have w: "stream_write sample_quinn 4 [9] (conn_new three_bytes) = (Inr (Wrote (length [9 :: u8])), (conn_new three_bytes)\<lparr>cs_dirty := True\<rparr>)"
    by (simp add: stream_write_def sample_quinn_def conn_new_def)
  have m: "map_of (pk_blocked_writes (parked_new\<lparr>pk_blocked_writes := [(4, \<lparr>pw_data = [7, 8], pw_offset = 1, pw_reply = 5\<rparr>)]\<rparr>)) 4
      = Some \<lparr>pw_data = [7, 8], pw_offset = 1, pw_reply = 5\<rparr>" by simp
  show ?thesis
    using later_write_overtakes_parked_one [OF m, of "[9]" sample_quinn "conn_new three_bytes" "(conn_new three_bytes)\<lparr>cs_dirty := True\<rparr>" 0 6] w
    by blast
qed

end
