(* ===== verification/Freshness.thy ===== *)
theory Freshness
  imports Prelude
begin

text \<open>
  \<open>proto/src/freshness.rs\<close>: the coarse timestamp check of the DCID authenticator. The wall clock is
  an argument: \<open>Some s\<close> is \<open>s\<close> seconds after the Unix epoch, \<open>None\<close> a clock before it.
\<close>

definition WINDOW_MINUTES :: u32 where
  "WINDOW_MINUTES = 2"

definition now_minutes :: "nat option \<Rightarrow> u32" where
  "now_minutes clock = word_of_nat ((case clock of Some secs \<Rightarrow> secs | None \<Rightarrow> 0) div 60)"

definition is_fresh :: "u32 \<Rightarrow> u32 \<Rightarrow> u32 \<Rightarrow> bool" where
  "is_fresh freshness now window =
     (let lo = saturating_sub now window; hi = saturating_add now window
      in lo \<le> freshness \<and> freshness \<le> hi)"

lemma is_fresh_nat:
  "is_fresh f n w \<longleftrightarrow> unat n - unat w \<le> unat f \<and> unat f \<le> unat n + unat w"
proof -
  have "unat f < 2 ^ 32" using unsigned_less [of f] by simp
  then show ?thesis
    by (auto simp: is_fresh_def Let_def word_le_nat_alt unat_saturating_sub unat_saturating_add)
qed

lemma is_fresh_lower: "is_fresh f n w \<Longrightarrow> saturating_sub n w \<le> f"
  by (simp add: is_fresh_def Let_def)

lemma saturating_sub_mono: "n \<le> m \<Longrightarrow> saturating_sub n w \<le> saturating_sub m (w :: 'l::len word)"
  by (simp add: word_le_nat_alt unat_saturating_sub)

text \<open>
  The freshness gate accepts exactly the timestamps at most \<open>window\<close> minutes away from the
  server's clock, in either direction; saturation at 0 and at \<open>u32::MAX\<close> never widens or narrows
  the window.
\<close>

theorem is_fresh_exact:
  "is_fresh freshness now window \<longleftrightarrow>
     \<bar>int (unat freshness) - int (unat now)\<bar> \<le> int (unat window)"
  unfolding is_fresh_nat by arith

end
