(* ===== verification/Replay.thy ===== *)
theory Replay
  imports Freshness
begin

text \<open>
  \<open>proto/src/replay.rs\<close>: the bounded anti-replay set over (nonce, freshness). \<open>once_filter\<close> is the
  contract the endpoint relies on: a key admitted once is not admitted again while it can still
  pass the freshness gate. \<open>ReplayGuard\<close> implements it.
\<close>

type_synonym replay_key = "bytes \<times> u32"

record replay_guard =
  rg_window :: u32
  rg_seen :: "replay_key set"

definition replay_new :: "u32 \<Rightarrow> replay_guard" where
  "replay_new window_minutes = \<lparr>rg_window = window_minutes, rg_seen = {}\<rparr>"

definition replay_len :: "replay_guard \<Rightarrow> nat" where
  "replay_len g = card (rg_seen g)"

definition replay_is_empty :: "replay_guard \<Rightarrow> bool" where
  "replay_is_empty g \<longleftrightarrow> rg_seen g = {}"

definition check_and_record :: "replay_guard \<Rightarrow> bytes \<Rightarrow> u32 \<Rightarrow> u32 \<Rightarrow> bool \<times> replay_guard" where
  "check_and_record g nonce freshness now =
     (let cutoff = saturating_sub now (rg_window g);
          seen = Set.filter (\<lambda>(_, f). cutoff \<le> f) (rg_seen g)
      in ((nonce, freshness) \<notin> seen, g\<lparr>rg_seen := insert (nonce, freshness) seen\<rparr>))"

section \<open>The contract: a key is admitted at most once while it is live\<close>

text \<open>
  \<open>live k t\<close> is "key \<open>k\<close> has not expired at time \<open>t\<close>"; an expired key stays expired as time moves on.
\<close>

locale once_filter =
  fixes check :: "'g \<Rightarrow> 'k \<Rightarrow> 't::linorder \<Rightarrow> bool \<times> 'g"
    and remembers :: "'g \<Rightarrow> 'k \<Rightarrow> bool"
    and live :: "'g \<Rightarrow> 'k \<Rightarrow> 't \<Rightarrow> bool"
  assumes accept_iff: "live g k t \<Longrightarrow> fst (check g k t) \<longleftrightarrow> \<not> remembers g k"
    and records: "remembers (snd (check g k t)) k"
    and keeps_live: "remembers g k \<Longrightarrow> live g k t \<Longrightarrow> remembers (snd (check g k' t)) k"
    and live_earlier: "live g k t' \<Longrightarrow> t \<le> t' \<Longrightarrow> live g k t"
    and live_same: "live (snd (check g k' t)) k t' \<longleftrightarrow> live g k t'"
begin

definition check_step :: "'g \<Rightarrow> 'k \<times> 't \<Rightarrow> bool \<times> 'g" where
  "check_step g i = check g (fst i) (snd i)"

lemma live_run: "live (snd (run check_step g is)) k t \<longleftrightarrow> live g k t"
  by (induction "is" arbitrary: g) (auto simp: check_step_def live_same)

lemma remembers_run:
  assumes "remembers g k" and "live g k t" and "\<forall>i\<in>set is. snd i \<le> t"
  shows "remembers (snd (run check_step g is)) k"
  using assms
proof (induction "is" arbitrary: g)
  case Nil
  then show ?case by simp
next
  case (Cons i "is")
  have "live g k (snd i)" using Cons.prems live_earlier by auto
  then have "remembers (snd (check_step g i)) k"
    using Cons.prems(1) by (simp add: check_step_def keeps_live)
  moreover have "live (snd (check_step g i)) k t"
    using Cons.prems(2) by (simp add: check_step_def live_same)
  ultimately show ?case using Cons.IH Cons.prems(3) by simp
qed

text \<open>Once checked, a key that is still live is refused, whatever was checked in between.\<close>

lemma refused_after:
  assumes "live g k t'" and "\<forall>i\<in>set is. snd i \<le> t'"
  shows "\<not> fst (check (snd (run check_step (snd (check g k t)) is)) k t')"
proof -
  let ?g = "snd (check g k t)"
  have live: "live ?g k t'" using assms(1) by (simp add: live_same)
  have "remembers (snd (run check_step ?g is)) k"
    using records live assms(2) by (rule remembers_run)
  moreover have "live (snd (run check_step ?g is)) k t'" using live by (simp add: live_run)
  ultimately show ?thesis by (simp add: accept_iff)
qed

end

definition replay_check :: "replay_guard \<Rightarrow> replay_key \<Rightarrow> u32 \<Rightarrow> bool \<times> replay_guard" where
  "replay_check g k now = check_and_record g (fst k) (snd k) now"

definition replay_live :: "replay_guard \<Rightarrow> replay_key \<Rightarrow> u32 \<Rightarrow> bool" where
  "replay_live g k now \<longleftrightarrow> saturating_sub now (rg_window g) \<le> snd k"

interpretation rg: once_filter replay_check "\<lambda>g k. k \<in> rg_seen g" replay_live
proof unfold_locales
  fix g k and t t' :: u32
  show "replay_live g k t' \<Longrightarrow> t \<le> t' \<Longrightarrow> replay_live g k t"
    unfolding replay_live_def using saturating_sub_mono order_trans by blast
qed (auto simp: replay_check_def replay_live_def check_and_record_def Let_def)

lemma rg_window_check [simp]: "rg_window (snd (check_and_record g n f t)) = rg_window g"
  by (simp add: check_and_record_def Let_def)

lemma check_and_record_purges:
  "k \<in> rg_seen (snd (check_and_record g n f t)) \<Longrightarrow> saturating_sub t (rg_window g) \<le> f \<Longrightarrow>
   saturating_sub t (rg_window g) \<le> snd k"
  by (auto simp: check_and_record_def Let_def)

lemma finite_seen [keeps]:
  "finite (rg_seen g) \<Longrightarrow> finite (rg_seen (snd (check_and_record g n f t)))"
  by (simp add: check_and_record_def Let_def)

section \<open>Properties\<close>

text \<open>
  Anti-replay: after a (nonce, freshness) pair has been checked at minute \<open>t\<close>, checking it again
  at a minute \<open>t'\<close> at which it still passes the freshness gate is refused, whatever was checked in
  between, as long as the server's clock never ran past \<open>t'\<close> in between.
\<close>

theorem replay_refused:
  assumes "is_fresh freshness t' (rg_window g)"
    and "\<forall>(k, s)\<in>set between. s \<le> t'"
  shows "\<not> fst (check_and_record
           (snd (run (\<lambda>g (k, s). replay_check g k s) (snd (check_and_record g nonce freshness t)) between))
           nonce freshness t')"
proof -
  have step: "(\<lambda>g (k, s). replay_check g k s) = rg.check_step"
    by (auto simp: fun_eq_iff rg.check_step_def)
  have "replay_live g (nonce, freshness) t'"
    using is_fresh_lower [OF assms(1)] by (simp add: replay_live_def)
  moreover have "\<forall>i\<in>set between. snd i \<le> t'" using assms(2) by auto
  ultimately show ?thesis
    using rg.refused_after [of g "(nonce, freshness)" t' between t]
    unfolding step by (simp add: replay_check_def)
qed

theorem replay_refused_witness:
  "\<not> fst (check_and_record
       (snd (run (\<lambda>g (k, s). replay_check g k s)
          (snd (check_and_record (replay_new 2) [1, 1, 1, 1, 1, 1, 1, 1] 100 100))
          [(([2, 2, 2, 2, 2, 2, 2, 2], 101), 101)]))
       [1, 1, 1, 1, 1, 1, 1, 1] 100 102)"
  by (rule replay_refused) (simp_all add: replay_new_def is_fresh_nat)

text \<open>
  Bounded memory: whatever is admitted past the freshness gate, after a check at minute \<open>now\<close>
  every remembered entry is inside the acceptance window \<open>[now - window, \<infinity>)\<close>, so entries older
  than the window never accumulate.
\<close>

theorem replay_window_bounded:
  assumes "is_fresh freshness now (rg_window g)"
    and "(n, f) \<in> rg_seen (snd (check_and_record g nonce freshness now))"
  shows "unat now - unat (rg_window g) \<le> unat f"
  using check_and_record_purges [OF assms(2) is_fresh_lower [OF assms(1)]]
  by (simp add: word_le_nat_alt unat_saturating_sub)

theorem replay_window_bounded_witness:
  "unat (200 :: u32) - unat (2 :: u32) \<le> unat (200 :: u32)"
  using replay_window_bounded
    [of 200 200 "replay_new 2" "[9]" 200 "[9]"]
  by (simp add: replay_new_def is_fresh_nat check_and_record_def Let_def)

text \<open>What is left of a pair after checks of other pairs: it is forgotten by a check whose cutoff is past it.\<close>

lemma seen_after_others:
  assumes "\<forall>(k', s)\<in>set between. k' \<noteq> k"
  shows "k \<in> rg_seen (snd (run (\<lambda>g (k, s). replay_check g k s) g between)) \<longleftrightarrow>
    k \<in> rg_seen g \<and> (\<forall>(k', s)\<in>set between. replay_live g k s)"
  using assms
proof (induction between arbitrary: g)
  case (Cons x between)
  obtain k' s where x: "x = (k', s)" by fastforce
  let ?g = "snd (replay_check g k' s)"
  have "k \<in> rg_seen ?g \<longleftrightarrow> k \<in> rg_seen g \<and> replay_live g k s"
    using Cons.prems x by (auto simp: replay_check_def check_and_record_def Let_def replay_live_def)
  moreover have "replay_live ?g k = replay_live g k" by (simp add: fun_eq_iff replay_live_def replay_check_def)
  ultimately show ?case using Cons x by auto
qed simp

text \<open>
  C40. Exactly when a replay gets through: a pair that was checked, and is checked again at a minute \<open>t'\<close> at which
  it passes the freshness gate, with any checks of other pairs in between, is admitted a second time if and only
  if one of those checks was made at a minute whose window had already left the pair behind; the server's clock
  must then have run past \<open>t'\<close> and been set back. In particular a clock that never runs backwards admits no replay.
\<close>

theorem replay_readmitted_after_clock_step_back:
  assumes "is_fresh freshness t' (rg_window g)" and "\<forall>(k, s)\<in>set between. k \<noteq> (nonce, freshness)"
  shows "(fst (check_and_record
             (snd (run (\<lambda>g (k, s). replay_check g k s) (snd (check_and_record g nonce freshness t)) between))
             nonce freshness t')
           \<longleftrightarrow> (\<exists>(k, s)\<in>set between. freshness < saturating_sub s (rg_window g)))
    \<and> (\<forall>(k, s)\<in>set between. freshness < saturating_sub s (rg_window g) \<longrightarrow> t' < s)"
proof -
  let ?g = "snd (check_and_record g nonce freshness t)"
  let ?g' = "snd (run (\<lambda>g (k, s). replay_check g k s) ?g between)"
  have step: "(\<lambda>g (k, s). replay_check g k s) = rg.check_step" by (auto simp: fun_eq_iff rg.check_step_def)
  have live: "replay_live g (nonce, freshness) t'" using is_fresh_lower [OF assms(1)] by (simp add: replay_live_def)
  have same: "replay_live ?g = replay_live g" by (simp add: fun_eq_iff replay_live_def)
  have "replay_live ?g' (nonce, freshness) t'" unfolding step rg.live_run same by (rule live)
  then have "fst (check_and_record ?g' nonce freshness t') \<longleftrightarrow> (nonce, freshness) \<notin> rg_seen ?g'"
    using rg.accept_iff [of ?g' "(nonce, freshness)" t'] by (simp add: replay_check_def)
  also have "\<dots> \<longleftrightarrow> \<not> (\<forall>(k, s)\<in>set between. replay_live g (nonce, freshness) s)"
    using seen_after_others [OF assms(2), of ?g] rg.records [of "(nonce, freshness)" g t] by (simp add: same replay_check_def)
  also have "\<dots> \<longleftrightarrow> (\<exists>(k, s)\<in>set between. freshness < saturating_sub s (rg_window g))"
    by (simp add: replay_live_def not_le [symmetric] Ball_def Bex_def split_beta)
  finally show ?thesis
    using live saturating_sub_mono [of _ t' "rg_window g"] unfolding replay_live_def
    by (auto simp: not_le [symmetric] intro: order_trans)
qed

text \<open>Witness: the clock reaches minute 103, where another pair is checked, and is set back to 102.\<close>

theorem replay_readmitted_after_clock_step_back_witness:
  "fst (check_and_record (replay_new WINDOW_MINUTES) [1, 2, 3, 4, 5, 6, 7, 8] 100 100)
   \<and> fst (check_and_record
       (snd (run (\<lambda>g (k, s). replay_check g k s)
          (snd (check_and_record (replay_new WINDOW_MINUTES) [1, 2, 3, 4, 5, 6, 7, 8] 100 100))
          [(([8, 7, 6, 5, 4, 3, 2, 1], 103), 103)]))
       [1, 2, 3, 4, 5, 6, 7, 8] 100 102)"
proof -
  have "is_fresh 100 102 (rg_window (replay_new WINDOW_MINUTES))" by (simp add: replay_new_def is_fresh_nat WINDOW_MINUTES_def)
  from replay_readmitted_after_clock_step_back [OF this, of "[(([8, 7, 6, 5, 4, 3, 2, 1], 103), 103)]" "[1, 2, 3, 4, 5, 6, 7, 8]" 100]
  show ?thesis by (simp add: replay_new_def WINDOW_MINUTES_def saturating_sub_def check_and_record_def)
qed

end
