(* ===== verification/Transport.thy ===== *)
theory Transport
  imports Prelude
begin

unbundle bit_operations_syntax

text \<open>
  \<open>proto/src/transport.rs\<close>: reading the Destination Connection ID of a QUIC long-header datagram
  without decrypting it. \<open>long_header\<close> is the RFC 9000 section 17.2 layout the parser is checked
  against; it is a specification, not code of the repository.
\<close>

definition peek_dcid :: "bytes \<Rightarrow> bytes option" where
  "peek_dcid datagram =
     do {
       first \<leftarrow> nth_opt datagram 0;
       if first AND 0x80 = 0 then None
       else do {
         len_byte \<leftarrow> nth_opt datagram 5;
         let dcid_len = unat len_byte;
         if dcid_len = 0 \<or> 20 < dcid_len then None
         else let end' = 6 + dcid_len
              in if length datagram < end' then None else Some (slice 6 end' datagram)
       }
     }"

definition long_header :: "u8 \<Rightarrow> bytes \<Rightarrow> bytes \<Rightarrow> bytes \<Rightarrow> bytes" where
  "long_header flags version dcid rest =
     [flags] @ version @ [word_of_nat (length dcid)] @ dcid @ rest"

lemma peek_dcid_Nil [simp, wire_simps]: "peek_dcid [] = None"
  by (simp add: peek_dcid_def nth_opt_def)

lemma peek_dcid_SomeD:
  assumes "peek_dcid d = Some c"
  shows "d ! 0 AND 0x80 \<noteq> 0" and "unat (d ! 5) = length c" and "c = slice 6 (6 + length c) d"
    and "1 \<le> length c" and "length c \<le> 20" and "6 + length c \<le> length d"
proof -
  have f: "d ! 0 AND 0x80 \<noteq> 0" and c: "c = slice 6 (6 + unat (d ! 5)) d"
    and b: "1 \<le> unat (d ! 5)" "unat (d ! 5) \<le> 20" "6 + unat (d ! 5) \<le> length d"
    using assms
    by (auto simp: peek_dcid_def nth_opt_def Let_def bind_eq_Some_conv Suc_le_eq simp del: unat_gt_0
        split: if_splits)
  from c b(3) have l: "length c = unat (d ! 5)" by simp
  with f b c show "d ! 0 AND 0x80 \<noteq> 0" and "unat (d ! 5) = length c"
    and "c = slice 6 (6 + length c) d" and "1 \<le> length c" and "length c \<le> 20"
    and "6 + length c \<le> length d"
    by auto
qed

lemma peek_dcid_long_header [wire_simps]:
  assumes "flags AND 0x80 \<noteq> 0" and "length version = 4" and "1 \<le> length dcid" and "length dcid \<le> 20"
  shows "peek_dcid (long_header flags version dcid rest) = Some dcid"
proof -
  have l: "unat (word_of_nat (length dcid) :: u8) = length dcid"
    using assms(4) by (simp add: unat_of_nat)
  have "slice 6 (6 + length dcid) (([flags] @ version @ [word_of_nat (length dcid)]) @ dcid @ rest) = dcid"
    using assms(2) by (intro slice_append_middle) auto
  moreover have "([flags] @ version @ [word_of_nat (length dcid) :: u8] @ dcid @ rest) ! 5
      = word_of_nat (length dcid)"
    using assms(2) by (simp add: nth_append)
  ultimately show ?thesis
    using assms l
    by (auto simp: peek_dcid_def long_header_def nth_opt_def Let_def)
qed

lemma peek_dcid_SomeE:
  assumes "peek_dcid d = Some c"
  obtains flags version rest where "d = long_header flags version c rest"
    and "flags AND 0x80 \<noteq> 0" and "length version = 4" and "1 \<le> length c" and "length c \<le> 20"
proof -
  note f = peek_dcid_SomeD(1) [OF assms] and l5 = peek_dcid_SomeD(2) [OF assms]
    and c = peek_dcid_SomeD(3) [OF assms] and len = peek_dcid_SomeD(4,5,6) [OF assms]
  have "d = take 6 d @ slice 6 (6 + length c) d @ drop (6 + length c) d"
    by (rule split_three) simp
  moreover have "take 6 d = [d ! 0] @ slice 1 5 d @ [d ! 5]"
  proof (rule nth_equalityI)
    show "length (take 6 d) = length ([d ! 0] @ slice 1 5 d @ [d ! 5])" using len by simp
  next
    fix i assume "i < length (take 6 d)"
    then have "i = 0 \<or> (1 \<le> i \<and> i < 5) \<or> i = 5" by auto
    then show "take 6 d ! i = ([d ! 0] @ slice 1 5 d @ [d ! 5]) ! i"
      using len by (auto simp: nth_append slice_def nth_Cons' )
  qed
  moreover have "d ! 5 = word_of_nat (length c)" by (simp flip: l5)
  ultimately have "d = long_header (d ! 0) (slice 1 5 d) c (drop (6 + length c) d)"
    using c by (simp add: long_header_def)
  then show thesis by (rule that) (use f len in auto)
qed

text \<open>
  C30. \<open>peek_dcid\<close> is an exact parser of the long-header layout: it answers \<open>Some dcid\<close> for precisely
  the datagrams with the long-header bit set, a four-byte version, a length byte of 1 to 20 and that
  many DCID bytes, and returns those bytes; everything else, truncated or short-header input
  included, is \<open>None\<close>.
\<close>

theorem peek_dcid_exact:
  "peek_dcid datagram = Some dcid \<longleftrightarrow>
     (\<exists>flags version rest. datagram = long_header flags version dcid rest
        \<and> flags AND 0x80 \<noteq> 0 \<and> length version = 4 \<and> length dcid \<in> {1..20})"
  using peek_dcid_SomeE [of datagram dcid] peek_dcid_long_header [of _ _ dcid]
  by (metis atLeastAtMost_iff)

end
