(* ===== verification/Selector.thy ===== *)
theory Selector
  imports Prelude
begin

unbundle bit_operations_syntax

text \<open>
  \<open>proto/src/selector.rs\<close>: the blinded DCID selector. BLAKE3's keyed hash is a parameter \<open>H\<close> (key,
  message); what the code relies on is that a digest has 32 bytes (\<open>blake3_ok\<close>). Arrays
  \<open>[u8; n]\<close> are byte lists of length \<open>n\<close>.
\<close>

type_synonym keyed_hash = "bytes \<Rightarrow> bytes \<Rightarrow> bytes"

definition blake3_ok :: "keyed_hash \<Rightarrow> bool" where
  "blake3_ok H \<longleftrightarrow> (\<forall>key msg. length (H key msg) = 32)"

definition CONTEXT :: bytes where
  "CONTEXT = map of_char ''quietquic/v1/selector''"

definition DCID_LEN :: nat where
  "DCID_LEN = 20"

record dcid_parts =
  dp_nonce :: bytes
  dp_freshness :: u32
  dp_selector :: bytes

definition compute_selector :: "keyed_hash \<Rightarrow> bytes \<Rightarrow> bytes \<Rightarrow> u32 \<Rightarrow> bytes" where
  "compute_selector H psk nonce freshness =
     take 8 (H psk (CONTEXT @ nonce @ u32_to_le freshness))"

definition build_dcid :: "keyed_hash \<Rightarrow> bytes \<Rightarrow> bytes \<Rightarrow> u32 \<Rightarrow> bytes" where
  "build_dcid H psk nonce freshness =
     (let sel = compute_selector H psk nonce freshness;
          dcid0 = replicate 20 0;
          dcid1 = copy_at dcid0 0 nonce;
          dcid2 = copy_at dcid1 8 (u32_to_le freshness)
      in copy_at dcid2 12 sel)"

definition parse_dcid :: "bytes \<Rightarrow> dcid_parts option" where
  "parse_dcid dcid =
     (if length dcid \<noteq> DCID_LEN then None
      else Some \<lparr>dp_nonce = slice 0 8 dcid,
                 dp_freshness = u32_from_le (slice 8 12 dcid),
                 dp_selector = slice 12 20 dcid\<rparr>)"

definition selector_matches :: "keyed_hash \<Rightarrow> bytes \<Rightarrow> dcid_parts \<Rightarrow> bool" where
  "selector_matches H psk parts =
     (let expected = compute_selector H psk (dp_nonce parts) (dp_freshness parts);
          diff = fold (\<lambda>(a, b) acc. acc OR (a XOR b)) (zip expected (dp_selector parts)) 0
      in diff = 0)"

section \<open>The DCID layout as a codec\<close>

definition parts_ok :: "dcid_parts \<Rightarrow> bool" where
  "parts_ok p \<longleftrightarrow> length (dp_nonce p) = 8 \<and> length (dp_selector p) = 8"

definition layout :: "dcid_parts \<Rightarrow> bytes" where
  "layout p = dp_nonce p @ u32_to_le (dp_freshness p) @ dp_selector p"

lemma parse_dcid_layout: "parts_ok p \<Longrightarrow> parse_dcid (layout p) = Some p"
  by (simp add: parse_dcid_def layout_def parts_ok_def DCID_LEN_def slice_def)

lemma layout_parse_dcid:
  assumes "parse_dcid d = Some p"
  shows "layout p = d \<and> parts_ok p"
proof -
  have l: "length d = 20" and p: "p = \<lparr>dp_nonce = slice 0 8 d, dp_freshness = u32_from_le (slice 8 12 d),
      dp_selector = slice 12 20 d\<rparr>"
    using assms by (auto simp: parse_dcid_def DCID_LEN_def split: if_splits)
  have "d = take 12 d @ slice 12 20 d" using l split_three [of 12 20 d] by simp
  moreover have "take 12 d = slice 0 8 d @ slice 8 12 d"
    using take_add [of 8 4 d] by (simp add: slice_def)
  ultimately show ?thesis using l by (simp add: p layout_def parts_ok_def u32_to_from_le)
qed

interpretation dcid: byte_codec layout parse_dcid parts_ok 20
proof unfold_locales
  show "parts_ok p \<Longrightarrow> length (layout p) = 20" for p by (simp add: layout_def parts_ok_def)
qed (use parse_dcid_layout layout_parse_dcid in blast)+

lemma length_compute_selector [simp]: "blake3_ok H \<Longrightarrow> length (compute_selector H psk n f) = 8"
  by (simp add: compute_selector_def blake3_ok_def)

lemma build_dcid_layout:
  assumes "blake3_ok H" and "length n = 8"
  shows "build_dcid H psk n f =
    layout \<lparr>dp_nonce = n, dp_freshness = f, dp_selector = compute_selector H psk n f\<rparr>"
  using assms by (simp add: build_dcid_def layout_def copy_at_def Let_def)

section \<open>The constant-time comparison\<close>

lemma or_eq_0_iff: "(a OR b = 0) = (a = 0 \<and> b = (0 :: 'l::len word))"
  by (auto simp: bit_eq_iff bit_simps)

lemma xor_eq_0_iff: "(a XOR b = 0) = (a = (b :: 'l::len word))"
  by (auto simp: bit_eq_iff bit_simps)

lemma fold_diff_eq_0:
  "fold (\<lambda>(a, b) acc. acc OR (a XOR b)) ps (acc :: 'l::len word) = 0 \<longleftrightarrow>
   acc = 0 \<and> (\<forall>(a, b)\<in>set ps. a = b)"
  by (induction ps arbitrary: acc) (auto simp: or_eq_0_iff xor_eq_0_iff)

lemma zip_all_eq: "length xs = length ys \<Longrightarrow> (\<forall>(a, b)\<in>set (zip xs ys). a = b) \<longleftrightarrow> xs = ys"
  by (induction xs ys rule: list_induct2) auto

lemma selector_matches_iff:
  assumes "blake3_ok H" and "length (dp_selector p) = 8"
  shows "selector_matches H psk p \<longleftrightarrow> dp_selector p = compute_selector H psk (dp_nonce p) (dp_freshness p)"
  using assms by (auto simp: selector_matches_def Let_def fold_diff_eq_0 zip_all_eq)

text \<open>What a match says about the bytes: the selector field is the one \<open>build_dcid\<close> writes.\<close>

lemma matches_iff_built:
  assumes "blake3_ok H" and "parse_dcid dcid = Some p"
  shows "selector_matches H psk p \<longleftrightarrow> dcid = build_dcid H psk (dp_nonce p) (dp_freshness p)"
proof -
  from assms(2) have l: "layout p = dcid" and ok: "parts_ok p" by (auto simp: dcid.dec_iff)
  let ?q = "p\<lparr>dp_selector := compute_selector H psk (dp_nonce p) (dp_freshness p)\<rparr>"
  have "build_dcid H psk (dp_nonce p) (dp_freshness p) = layout ?q"
    using assms(1) ok by (simp add: build_dcid_layout parts_ok_def layout_def)
  moreover have "layout p = layout ?q \<longleftrightarrow> dp_selector p = dp_selector ?q"
    by (simp add: layout_def)
  ultimately show ?thesis
    using assms(1) ok l by (auto simp: selector_matches_iff parts_ok_def)
qed

lemma parse_build:
  assumes "blake3_ok H" "length n = 8"
  shows "parse_dcid (build_dcid H psk n f) =
    Some \<lparr>dp_nonce = n, dp_freshness = f, dp_selector = compute_selector H psk n f\<rparr>"
  using assms by (simp add: build_dcid_layout dcid.dec_enc parts_ok_def)

lemma length_build_dcid: "blake3_ok H \<Longrightarrow> length n = 8 \<Longrightarrow> length (build_dcid H psk n f) = DCID_LEN"
  using parse_build [of H n psk f] dcid.dec_width [of "build_dcid H psk n f"] by (simp add: DCID_LEN_def)

section \<open>Properties\<close>

text \<open>
  Round trip: a DCID built for a PSK, an 8-byte nonce and a timestamp is 20 bytes long, parses
  back to that nonce and timestamp, and its selector matches that PSK.
\<close>

theorem build_parse_roundtrip:
  assumes "blake3_ok H" and "length n = 8"
  shows "\<exists>p. parse_dcid (build_dcid H psk n f) = Some p \<and> dp_nonce p = n \<and> dp_freshness p = f
           \<and> selector_matches H psk p \<and> length (build_dcid H psk n f) = DCID_LEN"
  using parse_build [OF assms, of psk f] length_build_dcid [OF assms, of psk f] assms
  by (simp add: selector_matches_iff)

theorem build_parse_roundtrip_witness:
  "\<exists>p. parse_dcid (build_dcid (\<lambda>k m. replicate 32 (sum_list k + sum_list m)) (replicate 32 7) (replicate 8 1) 100) = Some p
     \<and> dp_nonce p = replicate 8 1 \<and> dp_freshness p = 100
     \<and> selector_matches (\<lambda>k m. replicate 32 (sum_list k + sum_list m)) (replicate 32 7) p
     \<and> length (build_dcid (\<lambda>k m. replicate 32 (sum_list k + sum_list m)) (replicate 32 7) (replicate 8 1) 100) = DCID_LEN"
  by (rule build_parse_roundtrip) (simp_all add: blake3_ok_def)

text \<open>
  The constant-time comparison admits nothing but the right selector: a DCID that parses matches
  a PSK exactly when it is, byte for byte, the DCID that \<open>build_dcid\<close> computes from that PSK and the
  nonce and timestamp it carries.
\<close>

theorem selector_match_means_built_with_psk:
  assumes "blake3_ok H" and "parse_dcid dcid = Some p"
  shows "selector_matches H psk p \<longleftrightarrow> dcid = build_dcid H psk (dp_nonce p) (dp_freshness p)"
  using assms by (rule matches_iff_built)

theorem selector_match_means_built_with_psk_witness:
  "selector_matches (\<lambda>k m. replicate 32 (sum_list k)) (replicate 32 1)
     \<lparr>dp_nonce = replicate 8 0, dp_freshness = 0, dp_selector = replicate 8 32\<rparr> \<longleftrightarrow>
   replicate 12 0 @ replicate 8 32 =
     build_dcid (\<lambda>k m. replicate 32 (sum_list k)) (replicate 32 1) (replicate 8 0) 0"
  using selector_match_means_built_with_psk
    [of "\<lambda>k m. replicate 32 (sum_list k)" "replicate 12 0 @ replicate 8 32"
        "\<lparr>dp_nonce = replicate 8 0, dp_freshness = 0, dp_selector = replicate 8 32\<rparr>" "replicate 32 1"]
  by (simp add: blake3_ok_def parse_dcid_def DCID_LEN_def slice_def u32_from_le_def numeral_eq_Suc)

end
