(* ===== verification/Config.thy ===== *)
theory Config
  imports Quinn
begin

text \<open>
  \<open>proto/src/config.rs\<close> and the validation half of \<open>endpoint.rs\<close>: the configuration values, the PSK's
  hex form, and \<open>build_clients\<close>, which turns the server's secrets into one PSK-rekeyed transport
  configuration per client or refuses an ambiguous set. The TOML and hex decoders, the TLS identity
  and the random token key are arguments.
\<close>

section \<open>Configuration values\<close>

datatype psk = Psk (as_bytes: bytes)

definition psk_debug :: "psk \<Rightarrow> string" where
  "psk_debug p = ''Psk(***)''"

text \<open>\<open>hex_decode\<close> is the \<open>hex\<close> crate's decoder; an error is its message.\<close>

definition psk_deserialize :: "(string \<Rightarrow> string + bytes) \<Rightarrow> string \<Rightarrow> string + psk" where
  "psk_deserialize hex_decode s =
     (case hex_decode s of
        Inl e \<Rightarrow> Inl e
      | Inr bs \<Rightarrow> if length bs = 32 then Inr (Psk bs) else Inl ''psk must be 32 bytes (64 hex chars)'')"

record client_entry =
  ce_client_id :: string
  ce_psk :: psk

record server_secrets =
  ss_listen :: socket_addr
  ss_clients :: "client_entry list"

record client_config_file =
  cf_client_id :: string
  cf_psk :: psk
  cf_server :: socket_addr
  cf_bind :: "socket_addr option"

datatype config_error = Io string | Parse string | Invalid string

section \<open>Building the client table\<close>

record client_crypto =
  cl_client_id :: string
  cl_psk :: psk
  cl_server_config :: server_config

definition quietquic_transport_config :: transport_config where
  "quietquic_transport_config = \<lparr>max_concurrent_uni_streams = 0\<rparr>"

text \<open>
  \<open>char::is_whitespace\<close> and \<open>s.trim().is_empty()\<close>. A \<open>string\<close> is a sequence of code points up to 255, and these are
  all the white space among them; identities with other characters are outside the model.
\<close>

definition is_whitespace :: "char \<Rightarrow> bool" where
  "is_whitespace c \<longleftrightarrow> (of_char c :: nat) \<in> {9, 10, 11, 12, 13, 32, 0x85, 0xA0}"

definition trim_is_empty :: "string \<Rightarrow> bool" where
  "trim_is_empty s \<longleftrightarrow> list_all is_whitespace s"

text \<open>
  The validation loop: the sets of identities and keys seen so far, and the entries left.
  \<open>debug_fmt\<close> is the \<open>{:?}\<close> rendering of a string.
\<close>

fun validate_clients ::
  "(string \<Rightarrow> string) \<Rightarrow> string set \<Rightarrow> bytes set \<Rightarrow> client_entry list \<Rightarrow> config_error option" where
  "validate_clients debug_fmt client_ids psks [] = None"
| "validate_clients debug_fmt client_ids psks (entry # rest) =
     (if trim_is_empty (ce_client_id entry) then Some (Invalid ''client_id must not be empty'')
      else if ce_client_id entry \<in> client_ids
      then Some (Invalid (''duplicate client_id '' @ debug_fmt (ce_client_id entry)))
      else if as_bytes (ce_psk entry) \<in> psks
      then Some (Invalid (''duplicate PSK makes client identity ambiguous (client_id '' @ debug_fmt (ce_client_id entry) @ '')''))
      else validate_clients debug_fmt (insert (ce_client_id entry) client_ids) (insert (as_bytes (ce_psk entry)) psks) rest)"

text \<open>
  The throwaway identity, in DER. The arguments of \<open>build_clients\<close> stand for the results of
  \<open>SelfSigned::generate\<close>, of its \<open>quic_server_config\<close>, and of the random \<open>token_key\<close>; the theory \<open>KeyMaterial\<close> has them.
\<close>

record self_signed =
  sf_cert :: bytes
  sf_key :: bytes

record build_env =
  be_debug_fmt :: "string \<Rightarrow> string"
  be_identity :: "string + self_signed"
  be_quic_server :: "self_signed \<Rightarrow> string + bytes"
  be_token_key :: bytes

definition client_crypto_of :: "bytes \<Rightarrow> bytes \<Rightarrow> client_entry \<Rightarrow> client_crypto" where
  "client_crypto_of quic_server token_key entry =
     \<lparr>cl_client_id = ce_client_id entry, cl_psk = ce_psk entry,
      cl_server_config = \<lparr>sc_psk = as_bytes (ce_psk entry), sc_identity = quic_server,
        sc_token_key = token_key, sc_transport = quietquic_transport_config\<rparr>\<rparr>"

definition build_clients :: "build_env \<Rightarrow> server_secrets \<Rightarrow> config_error + client_crypto list" where
  "build_clients B secrets =
     (case validate_clients (be_debug_fmt B) {} {} (ss_clients secrets) of
        Some err \<Rightarrow> Inl err
      | None \<Rightarrow>
          case be_identity B of
            Inl e \<Rightarrow> Inl (Io (''tls identity: '' @ e))
          | Inr identity \<Rightarrow>
              case be_quic_server B identity of
                Inl e \<Rightarrow> Inl (Io (''quic server config: '' @ e))
              | Inr quic_server \<Rightarrow>
                  Inr (map (client_crypto_of quic_server (be_token_key B)) (ss_clients secrets)))"

section \<open>Lemmas\<close>

lemma validate_clients_None:
  "validate_clients f ids ks es = None \<longleftrightarrow>
     (\<forall>e\<in>set es. \<not> trim_is_empty (ce_client_id e)) \<and>
     distinct (map ce_client_id es) \<and> distinct (map (\<lambda>e. as_bytes (ce_psk e)) es) \<and>
     ids \<inter> ce_client_id ` set es = {} \<and> ks \<inter> (\<lambda>e. as_bytes (ce_psk e)) ` set es = {}"
  by (induction es arbitrary: ids ks) auto

lemma validate_clients_kind:
  "validate_clients f ids ks es = Some e \<Longrightarrow> \<exists>m. e = Invalid m"
  by (induction es arbitrary: ids ks) (auto split: if_splits)

definition psks_distinct :: "client_crypto list \<Rightarrow> bool" where
  "psks_distinct cls \<longleftrightarrow> distinct (map (\<lambda>c. as_bytes (cl_psk c)) cls)"

lemma build_clients_Inr:
  assumes "build_clients B secrets = Inr cls"
  shows "map cl_client_id cls = map ce_client_id (ss_clients secrets)"
    and "map (\<lambda>c. as_bytes (cl_psk c)) cls = map (\<lambda>e. as_bytes (ce_psk e)) (ss_clients secrets)"
    and "\<forall>c\<in>set cls. sc_psk (cl_server_config c) = as_bytes (cl_psk c)"
    and "distinct (map cl_client_id cls)" and "psks_distinct cls"
  using assms
  by (auto simp: build_clients_def client_crypto_of_def o_def psks_distinct_def validate_clients_None
      split: option.splits sum.splits)

section \<open>Properties\<close>

text \<open>
  C29. A server configuration is accepted exactly when it is unambiguous: given a TLS identity, building
  the client table succeeds if and only if no \<open>client_id\<close> is blank and neither an identity nor a key
  occurs twice, and any refusal is an \<open>Invalid\<close> error. On success there is one entry per configured
  client, in order, re-keyed with that client's own key and allowing no unidirectional streams.
\<close>

theorem build_clients_exact:
  assumes "be_identity B = Inr identity" and "be_quic_server B identity = Inr quic_server"
  shows "if (\<forall>e\<in>set (ss_clients secrets). \<exists>c\<in>set (ce_client_id e). \<not> is_whitespace c)
            \<and> distinct (map ce_client_id (ss_clients secrets))
            \<and> distinct (map (\<lambda>e. as_bytes (ce_psk e)) (ss_clients secrets))
         then \<exists>cls. build_clients B secrets = Inr cls \<and> length cls = length (ss_clients secrets)
                \<and> (\<forall>i<length cls. cl_client_id (cls ! i) = ce_client_id (ss_clients secrets ! i)
                     \<and> cl_psk (cls ! i) = ce_psk (ss_clients secrets ! i)
                     \<and> sc_psk (cl_server_config (cls ! i)) = as_bytes (ce_psk (ss_clients secrets ! i))
                     \<and> max_concurrent_uni_streams (sc_transport (cl_server_config (cls ! i))) = 0)
         else \<exists>m. build_clients B secrets = Inl (Invalid m)"
proof -
  have ok: "validate_clients (be_debug_fmt B) {} {} (ss_clients secrets) = None \<longleftrightarrow>
      (\<forall>e\<in>set (ss_clients secrets). \<exists>c\<in>set (ce_client_id e). \<not> is_whitespace c)
            \<and> distinct (map ce_client_id (ss_clients secrets))
            \<and> distinct (map (\<lambda>e. as_bytes (ce_psk e)) (ss_clients secrets))"
    by (simp add: validate_clients_None trim_is_empty_def list_all_iff)
  show ?thesis
  proof (cases "validate_clients (be_debug_fmt B) {} {} (ss_clients secrets)")
    case None
    with ok assms show ?thesis
      by (simp add: build_clients_def client_crypto_of_def quietquic_transport_config_def)
  next
    case (Some e)
    then have "\<exists>m. build_clients B secrets = Inl (Invalid m)"
      using validate_clients_kind [OF Some] by (auto simp: build_clients_def)
    moreover have "\<not> ((\<forall>e\<in>set (ss_clients secrets). \<exists>c\<in>set (ce_client_id e). \<not> is_whitespace c)
            \<and> distinct (map ce_client_id (ss_clients secrets))
            \<and> distinct (map (\<lambda>e. as_bytes (ce_psk e)) (ss_clients secrets)))"
      using Some ok by simp
    ultimately show ?thesis by (simp only: if_False)
  qed
qed

definition sample_build_env :: build_env where
  "sample_build_env = \<lparr>be_debug_fmt = (\<lambda>s. s), be_identity = Inr \<lparr>sf_cert = [1], sf_key = [1]\<rparr>, be_quic_server = (\<lambda>s. Inr (sf_cert s)), be_token_key = [2]\<rparr>"

text \<open>Witness: two clients sharing a key are refused.\<close>

theorem build_clients_exact_witness:
  "\<exists>m. build_clients sample_build_env \<lparr>ss_listen = AddrV4 1 1,
     ss_clients = [\<lparr>ce_client_id = ''a'', ce_psk = Psk [1]\<rparr>, \<lparr>ce_client_id = ''b'', ce_psk = Psk [1]\<rparr>]\<rparr> = Inl (Invalid m)"
  using build_clients_exact [of sample_build_env "\<lparr>sf_cert = [1], sf_key = [1]\<rparr>" "[1]" "\<lparr>ss_listen = AddrV4 1 1,
     ss_clients = [\<lparr>ce_client_id = ''a'', ce_psk = Psk [1]\<rparr>, \<lparr>ce_client_id = ''b'', ce_psk = Psk [1]\<rparr>]\<rparr>"]
  by (simp add: sample_build_env_def)

end
