(* ===== verification/Registry.thy ===== *)
theory Registry
  imports Outcome
begin

text \<open>
  The connection-ID bookkeeping: \<open>RecordingCidGenerator\<close> of \<open>crypto.rs\<close> and the three operations of
  \<open>endpoint.rs\<close> on what it records (\<open>drain_pending_cids\<close>, \<open>sweep_orphan_cids\<close>,
  \<open>prune_connection_cids\<close>). The three fields are the first three of the endpoint's record, which
  extends this one, so the operations apply to an endpoint as they are.
\<close>

section \<open>State and operations\<close>

record cid_registry =
  issued_cids :: "cid set"
  pending_cids :: "cid list"
  cids_by_conn :: "connection_handle \<rightharpoonup> cid list"

text \<open>\<open>cid\<close> is what the inner random generator draws.\<close>

definition generate_cid :: "cid \<Rightarrow> 'z cid_registry_scheme \<Rightarrow> 'z cid_registry_scheme" where
  "generate_cid c r = r\<lparr>issued_cids := insert c (issued_cids r), pending_cids := pending_cids r @ [c]\<rparr>"

definition mint_all :: "cid list \<Rightarrow> 'z cid_registry_scheme \<Rightarrow> 'z cid_registry_scheme" where
  "mint_all cs r = fold generate_cid cs r"

definition drain_pending_cids :: "connection_handle \<Rightarrow> 'z cid_registry_scheme \<Rightarrow> 'z cid_registry_scheme" where
  "drain_pending_cids ch r =
     (if pending_cids r = [] then r
      else r\<lparr>pending_cids := [],
             cids_by_conn := (cids_by_conn r)(ch \<mapsto>
               (case cids_by_conn r ch of None \<Rightarrow> [] | Some l \<Rightarrow> l) @ pending_cids r)\<rparr>)"

definition sweep_orphan_cids :: "'z cid_registry_scheme \<Rightarrow> 'z cid_registry_scheme" where
  "sweep_orphan_cids r =
     (let orphans = pending_cids r;
          r1 = r\<lparr>pending_cids := []\<rparr>
      in if orphans = [] then r1 else r1\<lparr>issued_cids := issued_cids r1 - set orphans\<rparr>)"

definition prune_connection_cids :: "connection_handle \<Rightarrow> 'z cid_registry_scheme \<Rightarrow> 'z cid_registry_scheme" where
  "prune_connection_cids ch r =
     (case cids_by_conn r ch of
        None \<Rightarrow> r
      | Some cids \<Rightarrow> r\<lparr>cids_by_conn := (cids_by_conn r)(ch := None), issued_cids := issued_cids r - set cids\<rparr>)"

section \<open>The contract\<close>

text \<open>
  What the endpoint relies on: every routing CID is either not yet attributed or owned by exactly one
  connection, draining attributes the unattributed, sweeping forgets them, pruning forgets exactly
  one owner's.
\<close>

locale cid_table =
  fixes mint :: "'cid \<Rightarrow> 'r \<Rightarrow> 'r"
    and drain :: "'h \<Rightarrow> 'r \<Rightarrow> 'r"
    and sweep :: "'r \<Rightarrow> 'r"
    and prune :: "'h \<Rightarrow> 'r \<Rightarrow> 'r"
    and routes :: "'r \<Rightarrow> 'cid set"
    and orphans :: "'r \<Rightarrow> 'cid set"
    and owned :: "'r \<Rightarrow> 'h \<Rightarrow> 'cid set"
    and inv :: "'r \<Rightarrow> bool"
  assumes mint_law: "inv r \<Longrightarrow> c \<notin> routes r \<Longrightarrow> inv (mint c r) \<and> routes (mint c r) = insert c (routes r)
      \<and> orphans (mint c r) = insert c (orphans r) \<and> owned (mint c r) = owned r"
    and drain_law: "inv r \<Longrightarrow> inv (drain h r) \<and> routes (drain h r) = routes r
      \<and> orphans (drain h r) = {} \<and> owned (drain h r) = (owned r)(h := owned r h \<union> orphans r)"
    and sweep_law: "inv r \<Longrightarrow> inv (sweep r) \<and> routes (sweep r) = routes r - orphans r
      \<and> orphans (sweep r) = {} \<and> owned (sweep r) = owned r"
    and prune_law: "inv r \<Longrightarrow> inv (prune h r) \<and> routes (prune h r) = routes r - owned r h
      \<and> orphans (prune h r) = orphans r \<and> owned (prune h r) = (owned r)(h := {})"
    and partition: "inv r \<Longrightarrow> routes r = orphans r \<union> (\<Union>h. owned r h)"
    and unattributed: "inv r \<Longrightarrow> orphans r \<inter> owned r h = {}"
    and one_owner: "inv r \<Longrightarrow> h \<noteq> h' \<Longrightarrow> owned r h \<inter> owned r h' = {}"
begin

text \<open>At rest: nothing unattributed, and only the given connections own CIDs.\<close>

definition at_rest :: "'h set \<Rightarrow> 'r \<Rightarrow> bool" where
  "at_rest live r \<longleftrightarrow> inv r \<and> orphans r = {} \<and> (\<forall>h. owned r h \<noteq> {} \<longrightarrow> h \<in> live)"

lemma mint_all_law:
  assumes "inv r" "distinct cs" "set cs \<inter> routes r = {}"
  shows "inv (fold mint cs r) \<and> routes (fold mint cs r) = routes r \<union> set cs
    \<and> orphans (fold mint cs r) = orphans r \<union> set cs \<and> owned (fold mint cs r) = owned r"
  using assms
proof (induction cs arbitrary: r)
  case (Cons c cs)
  then have m: "inv (mint c r)" "routes (mint c r) = insert c (routes r)"
    "orphans (mint c r) = insert c (orphans r)" "owned (mint c r) = owned r"
    using mint_law [of r c] by auto
  have "set cs \<inter> routes (mint c r) = {}" using Cons.prems m by auto
  with Cons.IH [of "mint c r"] Cons.prems m show ?case by auto
qed simp

text \<open>A connection's mint followed by its drain, an unclaimed mint followed by a sweep, and a reaped connection.\<close>

lemma claim_at_rest:
  assumes "at_rest live r" "distinct cs" "set cs \<inter> routes r = {}"
  shows "at_rest (insert h live) (drain h (fold mint cs r))" and "routes (drain h (fold mint cs r)) = routes r \<union> set cs"
    and "owned (drain h (fold mint cs r)) = (owned r)(h := owned r h \<union> set cs)"
  using mint_all_law [of r cs] drain_law [of "fold mint cs r" h] assms by (auto simp: at_rest_def)

lemma sweep_at_rest:
  assumes "at_rest live r" "distinct cs" "set cs \<inter> routes r = {}"
  shows "at_rest live (sweep (fold mint cs r))" and "routes (sweep (fold mint cs r)) = routes r"
    and "owned (sweep (fold mint cs r)) = owned r"
  using mint_all_law [of r cs] sweep_law [of "fold mint cs r"] assms by (auto simp: at_rest_def)

lemma prune_at_rest:
  assumes "at_rest live r"
  shows "at_rest (live - {h}) (prune h r)" and "routes (prune h r) = routes r - owned r h"
    and "h' \<noteq> h \<Longrightarrow> owned (prune h r) h' = owned r h'"
  using prune_law [of r h] assms by (auto simp: at_rest_def)

lemma routes_at_rest: "at_rest live r \<Longrightarrow> routes r = (\<Union>h\<in>live. owned r h)"
  using partition [of r] by (auto simp: at_rest_def)

lemma at_rest_mono: "at_rest live r \<Longrightarrow> live \<subseteq> live' \<Longrightarrow> at_rest live' r"
  by (auto simp: at_rest_def)

end

section \<open>The registry keeps the contract\<close>

definition owned_cids :: "'z cid_registry_scheme \<Rightarrow> connection_handle \<Rightarrow> cid set" where
  "owned_cids r ch = (case cids_by_conn r ch of None \<Rightarrow> {} | Some l \<Rightarrow> set l)"

definition registry_ok :: "'z cid_registry_scheme \<Rightarrow> bool" where
  "registry_ok r \<longleftrightarrow> issued_cids r = set (pending_cids r) \<union> (\<Union>ch. owned_cids r ch)
     \<and> (\<forall>ch. set (pending_cids r) \<inter> owned_cids r ch = {})
     \<and> (\<forall>ch ch'. ch \<noteq> ch' \<longrightarrow> owned_cids r ch \<inter> owned_cids r ch' = {})"

lemma owned_generate [simp]: "owned_cids (generate_cid c r) = owned_cids r"
  by (simp add: fun_eq_iff owned_cids_def generate_cid_def)

lemma owned_sweep [simp]: "owned_cids (sweep_orphan_cids r) = owned_cids r"
  by (simp add: fun_eq_iff owned_cids_def sweep_orphan_cids_def Let_def)

lemma owned_drain: "owned_cids (drain_pending_cids ch r) = (owned_cids r)(ch := owned_cids r ch \<union> set (pending_cids r))"
  by (auto simp: fun_eq_iff owned_cids_def drain_pending_cids_def split: option.splits)

lemma owned_prune: "owned_cids (prune_connection_cids ch r) = (owned_cids r)(ch := {})"
  by (auto simp: fun_eq_iff owned_cids_def prune_connection_cids_def split: option.splits)

lemma issued_prune: "issued_cids (prune_connection_cids ch r) = issued_cids r - owned_cids r ch"
  by (auto simp: owned_cids_def prune_connection_cids_def split: option.splits)

lemma registry_fields [simp]:
  "issued_cids (generate_cid c r) = insert c (issued_cids r)" "pending_cids (generate_cid c r) = pending_cids r @ [c]"
  "issued_cids (drain_pending_cids ch r) = issued_cids r" "pending_cids (drain_pending_cids ch r) = []"
  "issued_cids (sweep_orphan_cids r) = issued_cids r - set (pending_cids r)" "pending_cids (sweep_orphan_cids r) = []"
  "pending_cids (prune_connection_cids ch r) = pending_cids r"
  by (simp_all add: generate_cid_def drain_pending_cids_def sweep_orphan_cids_def prune_connection_cids_def Let_def
      split: option.splits)

interpretation cids: cid_table generate_cid drain_pending_cids sweep_orphan_cids prune_connection_cids
  issued_cids "\<lambda>r. set (pending_cids r)" owned_cids registry_ok
proof unfold_locales
  fix r :: "'z cid_registry_scheme" and c h h'
  assume ok: "registry_ok r"
  have one: "a = b" if "x \<in> owned_cids r a" "x \<in> owned_cids r b" for a b x
    using ok that unfolding registry_ok_def by blast
  show "registry_ok (generate_cid c r) \<and> issued_cids (generate_cid c r) = insert c (issued_cids r)
      \<and> set (pending_cids (generate_cid c r)) = insert c (set (pending_cids r)) \<and> owned_cids (generate_cid c r) = owned_cids r"
    if "c \<notin> issued_cids r"
    using ok that by (auto simp: registry_ok_def)
  show "registry_ok (drain_pending_cids h r) \<and> issued_cids (drain_pending_cids h r) = issued_cids r
      \<and> set (pending_cids (drain_pending_cids h r)) = {}
      \<and> owned_cids (drain_pending_cids h r) = (owned_cids r)(h := owned_cids r h \<union> set (pending_cids r))"
    using ok by (auto simp: registry_ok_def owned_drain dest: one split: if_splits)
  show "registry_ok (sweep_orphan_cids r) \<and> issued_cids (sweep_orphan_cids r) = issued_cids r - set (pending_cids r)
      \<and> set (pending_cids (sweep_orphan_cids r)) = {} \<and> owned_cids (sweep_orphan_cids r) = owned_cids r"
    using ok by (auto simp: registry_ok_def)
  show "registry_ok (prune_connection_cids h r) \<and> issued_cids (prune_connection_cids h r) = issued_cids r - owned_cids r h
      \<and> set (pending_cids (prune_connection_cids h r)) = set (pending_cids r)
      \<and> owned_cids (prune_connection_cids h r) = (owned_cids r)(h := {})"
    using ok by (auto simp: registry_ok_def owned_prune issued_prune dest: one split: if_splits)
  show "issued_cids r = set (pending_cids r) \<union> (\<Union>h. owned_cids r h)" using ok by (simp add: registry_ok_def)
  show "set (pending_cids r) \<inter> owned_cids r h = {}" using ok by (simp add: registry_ok_def)
  show "owned_cids r h \<inter> owned_cids r h' = {}" if "h \<noteq> h'" using ok that by (simp add: registry_ok_def)
qed

end
