(* ===== verification/Endpoint.thy ===== *)
theory Endpoint
  imports Freshness Replay Transport Selector Conn Config Registry
begin

unbundle bit_operations_syntax

text \<open>
  \<open>proto/src/endpoint.rs\<close>: the sans-IO endpoint. Its record extends the CID registry; every operation
  of the code is one definition on it. The argument \<open>D\<close> holds the third-party state machines and the
  keyed hash, \<open>clock\<close> what the wall clock reads (\<open>None\<close>: before the epoch), \<open>now\<close> the caller's
  instant. \<open>None\<close> is a call that does not return a value: a panic (an index, an \<open>expect\<close>, the
  generation counter) or a drain of quinn that never runs dry. Hash maps that are iterated are
  association lists, and \<open>iter\<close> is the order in which \<open>keys()\<close> enumerates one.
\<close>

section \<open>State\<close>

definition LOCAL_CID_LEN :: nat where "LOCAL_CID_LEN = 8"

definition SERVER_NAME :: string where "SERVER_NAME = ''localhost''"

datatype role = RoleServer | RoleClient

record ('c, 'e) endpoint = cid_registry +
  ep_inner :: 'e
  ep_role :: role
  ep_clients :: "client_crypto list"
  ep_replay :: "replay_guard list"
  ep_rate_limiter :: rate_limiter
  ep_connections :: "(connection_handle \<times> 'c conn_state) list"
  ep_client_ids :: "connection_handle \<rightharpoonup> string"
  ep_by_quinn :: "nat \<rightharpoonup> connection_handle"
  ep_next_generation :: u64
  ep_outbound :: "transmit list"
  ep_events :: "event list"
  ep_next_timeout :: "instant option"
  ep_last_service :: "instant option"

type_synonym order = "connection_handle list \<Rightarrow> connection_handle list"

text \<open>The literal both constructors start from.\<close>

definition endpoint_literal ::
  "role \<Rightarrow> 'e \<Rightarrow> client_crypto list \<Rightarrow> replay_guard list \<Rightarrow> instant option \<Rightarrow> ('c, 'e) endpoint" where
  "endpoint_literal role inner clients replay last_service =
     \<lparr>issued_cids = {}, pending_cids = [], cids_by_conn = Map.empty,
      ep_inner = inner, ep_role = role, ep_clients = clients, ep_replay = replay,
      ep_rate_limiter = limiter_new, ep_connections = [], ep_client_ids = Map.empty,
      ep_by_quinn = Map.empty, ep_next_generation = 1, ep_outbound = [], ep_events = [],
      ep_next_timeout = None, ep_last_service = last_service\<rparr>"

definition new_server :: "build_env \<Rightarrow> 'e \<Rightarrow> server_secrets \<Rightarrow> config_error + ('c, 'e) endpoint" where
  "new_server B inner secrets =
     (case build_clients B secrets of
        Inl err \<Rightarrow> Inl err
      | Inr clients \<Rightarrow>
          Inr (endpoint_literal RoleServer inner clients (map (\<lambda>_. replay_new WINDOW_MINUTES) clients) None))"

section \<open>Handles and timers\<close>

text \<open>
  The \<open>expect\<close> of the generation counter is the panic of \<open>allocate_handle\<close>. Its \<open>debug_assert!\<close> is compiled out of a
  release build, which is what is modelled: there \<open>insert\<close> overwrites whatever the table had for the slab index.
\<close>

definition allocate_handle :: "nat \<Rightarrow> ('c, 'e) endpoint \<Rightarrow> (connection_handle \<times> ('c, 'e) endpoint) option" where
  "allocate_handle q ep =
     do {
       let g = ep_next_generation ep;
       next \<leftarrow> checked_add g 1;
       let handle = ConnectionHandle q g;
       Some (handle, ep\<lparr>ep_next_generation := next, ep_by_quinn := (ep_by_quinn ep)(q \<mapsto> handle)\<rparr>)
     }"

fun min_opt :: "instant list \<Rightarrow> instant option" where
  "min_opt [] = None"
| "min_opt (t # ts) = (case min_opt ts of None \<Rightarrow> Some t | Some u \<Rightarrow> Some (min t u))"

definition refresh_next_timeout :: "('c, 'v, 'n, 'e, 'i) deps \<Rightarrow> ('c, 'e) endpoint \<Rightarrow> ('c, 'e) endpoint" where
  "refresh_next_timeout D ep =
     ep\<lparr>ep_next_timeout := min_opt (List.map_filter (\<lambda>(ch, s). qc_poll_timeout D (cs_conn s)) (ep_connections ep))\<rparr>"

definition upd_conn :: "connection_handle \<Rightarrow> ('c \<Rightarrow> 'c) \<Rightarrow> ('c, 'e) endpoint \<Rightarrow> ('c, 'e) endpoint" where
  "upd_conn ch f ep =
     ep\<lparr>ep_connections := AList.map_entry ch (\<lambda>s. s\<lparr>cs_conn := f (cs_conn s)\<rparr>) (ep_connections ep)\<rparr>"

section \<open>Dialing\<close>

text \<open>
  \<open>nonce\<close> is the random nonce, \<open>crypto_err\<close> the error of \<open>quic_client_config\<close>, if it fails,
  \<open>inner\<close> the freshly made quinn endpoint.
\<close>

definition dial_config :: "('c, 'v, 'n, 'e, 'i) deps \<Rightarrow> bytes \<Rightarrow> u32 \<Rightarrow> client_config_file \<Rightarrow> client_config" where
  "dial_config D nonce freshness_minute cfg =
     (let psk = as_bytes (cf_psk cfg)
      in \<lparr>cc_psk = psk, cc_transport = quietquic_transport_config,
          cc_initial_dst_cid = build_dcid (blake3_keyed_hash D) psk nonce freshness_minute\<rparr>)"

definition new_client ::
  "('c, 'v, 'n, 'e, 'i) deps \<Rightarrow> 'e \<Rightarrow> string option \<Rightarrow> bytes \<Rightarrow> instant \<Rightarrow> u32 \<Rightarrow> client_config_file
     \<Rightarrow> (config_error + ('c, 'e) endpoint \<times> connection_handle) option" where
  "new_client D inner crypto_err nonce now freshness_minute cfg =
     (case crypto_err of
        Some e \<Rightarrow> Some (Inl (Io (''client crypto: '' @ e)))
      | None \<Rightarrow>
          let client_config = dial_config D nonce freshness_minute cfg;
              (r, minted, inner1) = qe_connect D now client_config (cf_server cfg) SERVER_NAME inner
          in case r of
               Inl e \<Rightarrow> Some (Inl (Io (''connect: '' @ e)))
             | Inr (quinn_ch, conn) \<Rightarrow>
                 do {
                   let endpoint = mint_all minted (endpoint_literal RoleClient inner1 [] [] (Some now));
                   (ch, endpoint1) \<leftarrow> allocate_handle quinn_ch endpoint;
                   let endpoint2 = drain_pending_cids ch endpoint1;
                   let endpoint3 = endpoint2\<lparr>ep_connections := AList.update ch (conn_new conn) (ep_connections endpoint2)\<rparr>;
                   Some (Inr (refresh_next_timeout D endpoint3, ch))
                 })"

section \<open>The pre-filter\<close>

definition read_dcid_any :: "bytes \<Rightarrow> bytes option" where
  "read_dcid_any data =
     (case data of
        [] \<Rightarrow> None
      | b # _ \<Rightarrow> if b AND 0x80 \<noteq> 0 then peek_dcid data else get_range data 1 (1 + LOCAL_CID_LEN))"

definition is_active_dcid :: "('c, 'e) endpoint \<Rightarrow> bytes \<Rightarrow> bool" where
  "is_active_dcid ep data = (case read_dcid_any data of None \<Rightarrow> False | Some dcid \<Rightarrow> dcid \<in> issued_cids ep)"

text \<open>\<open>iter().position(p)\<close>\<close>

fun position :: "('a \<Rightarrow> bool) \<Rightarrow> 'a list \<Rightarrow> nat option" where
  "position p [] = None"
| "position p (x # xs) = (if p x then Some 0 else map_option Suc (position p xs))"

definition select_psk :: "('c, 'v, 'n, 'e, 'i) deps \<Rightarrow> ('c, 'e) endpoint \<Rightarrow> dcid_parts \<Rightarrow> nat option" where
  "select_psk D ep parts =
     position (\<lambda>c. selector_matches (blake3_keyed_hash D) (as_bytes (cl_psk c)) parts) (ep_clients ep)"

text \<open>The answer is the admitted client's index, if any; \<open>None\<close> outside is the index panic on \<open>replay\<close>.\<close>

definition prefilter ::
  "('c, 'v, 'n, 'e, 'i) deps \<Rightarrow> nat option \<Rightarrow> bytes \<Rightarrow> ('c, 'e) endpoint \<Rightarrow> (nat option \<times> ('c, 'e) endpoint) option" where
  "prefilter D clock data ep =
     (case peek_dcid data of
        None \<Rightarrow> Some (None, ep)
      | Some dcid \<Rightarrow>
          if length dcid \<noteq> DCID_LEN then Some (None, ep)
          else case parse_dcid dcid of
            None \<Rightarrow> Some (None, ep)
          | Some parts \<Rightarrow>
              let minute = now_minutes clock in
              if \<not> is_fresh (dp_freshness parts) minute WINDOW_MINUTES then Some (None, ep)
              else case select_psk D ep parts of
                None \<Rightarrow> Some (None, ep)
              | Some client_idx \<Rightarrow>
                  do {
                    g \<leftarrow> nth_opt (ep_replay ep) client_idx;
                    let (ok, g') = check_and_record g (dp_nonce parts) (dp_freshness parts) minute;
                    let ep' = ep\<lparr>ep_replay := (ep_replay ep)[client_idx := g']\<rparr>;
                    Some (if ok then Some client_idx else None, ep')
                  })"

section \<open>Feeding quinn\<close>

definition push_transmit :: "socket_addr \<Rightarrow> bytes \<Rightarrow> ('c, 'e) endpoint \<Rightarrow> ('c, 'e) endpoint" where
  "push_transmit dest bs ep = ep\<lparr>ep_outbound := ep_outbound ep @ [Transmit dest bs]\<rparr>"

definition admit ::
  "('c, 'v, 'n, 'e, 'i) deps \<Rightarrow> instant \<Rightarrow> 'i \<Rightarrow> nat \<Rightarrow> ('c, 'e) endpoint \<Rightarrow> (datagram_outcome \<times> ('c, 'e) endpoint) option" where
  "admit D now incoming client_idx ep =
     (let (r, buf, minted, inner) = qe_accept D incoming now (ep_inner ep);
          ep1 = mint_all minted (ep\<lparr>ep_inner := inner\<rparr>)
      in case r of
           None \<Rightarrow> Some (Dropped, ep1)
         | Some (quinn_ch, conn) \<Rightarrow>
             do {
               (ch, ep2) \<leftarrow> allocate_handle quinn_ch ep1;
               let ep3 = (if buf \<noteq> [] then push_transmit (qc_remote_address D conn) buf ep2 else ep2);
               let ep4 = drain_pending_cids ch ep3;
               let ep5 = ep4\<lparr>ep_connections := AList.update ch (conn_new conn) (ep_connections ep4)\<rparr>;
               client \<leftarrow> nth_opt (ep_clients ep5) client_idx;
               Some (Accepted ch, ep5\<lparr>ep_client_ids := (ep_client_ids ep5)(ch \<mapsto> cl_client_id client)\<rparr>)
             })"

text \<open>
  The early return on an incoming connection that no pre-filter admitted skips the sweep, as in the
  code.
\<close>

definition feed ::
  "('c, 'v, 'n, 'e, 'i) deps \<Rightarrow> instant \<Rightarrow> socket_addr \<Rightarrow> bytes \<Rightarrow> nat option \<Rightarrow> ('c, 'e) endpoint
     \<Rightarrow> (datagram_outcome \<times> ('c, 'e) endpoint) option" where
  "feed D now from data admitted_client ep =
     (let (event, resp, minted, inner) = qe_handle D now from data (ep_inner ep);
          ep1 = mint_all minted (ep\<lparr>ep_inner := inner\<rparr>);
          ep2 = (if resp \<noteq> [] \<and> ep_role ep1 = RoleServer then push_transmit from resp ep1 else ep1);
          swept = map_option (\<lambda>(out, ep'). (out, sweep_orphan_cids ep'))
      in case event of
           Some (QNewConnection incoming) \<Rightarrow>
             (case ep_role ep2 of
                RoleServer \<Rightarrow>
                  (case admitted_client of
                     None \<Rightarrow> Some (Dropped, ep2)
                   | Some client_idx \<Rightarrow> swept (admit D now incoming client_idx ep2))
              | RoleClient \<Rightarrow> swept (Some (Dropped, ep2)))
         | Some (QConnectionEvent quinn_ch cev) \<Rightarrow>
             swept (case ep_by_quinn ep2 quinn_ch of
                      Some ch \<Rightarrow> Some (Accepted ch, upd_conn ch (qc_handle_event D cev) ep2)
                    | None \<Rightarrow> Some (Dropped, ep2))
         | _ \<Rightarrow> swept (Some (Dropped, ep2)))"

section \<open>The servicing pass\<close>

text \<open>1. Route one connection's endpoint events.\<close>

definition poll_ee ::
  "('c, 'v, 'n, 'e, 'i) deps \<Rightarrow> connection_handle \<Rightarrow> ('c, 'e) endpoint \<Rightarrow> 'n option \<times> ('c, 'e) endpoint" where
  "poll_ee D ch ep =
     (case map_of (ep_connections ep) ch of
        None \<Rightarrow> (None, ep)
      | Some s \<Rightarrow> let (ev, c) = qc_poll_endpoint_events D (cs_conn s) in (ev, upd_conn ch (\<lambda>_. c) ep))"

definition route_ee ::
  "('c, 'v, 'n, 'e, 'i) deps \<Rightarrow> connection_handle \<Rightarrow> 'n \<Rightarrow> ('c, 'e) endpoint \<Rightarrow> ('c, 'e) endpoint option" where
  "route_ee D ch ev ep =
     (let (cev, minted, inner) = qe_handle_event D (quinn ch) ev (ep_inner ep);
          ep1 = drain_pending_cids ch (mint_all minted (ep\<lparr>ep_inner := inner\<rparr>))
      in Some (case cev of None \<Rightarrow> ep1 | Some v \<Rightarrow> upd_conn ch (qc_handle_event D v) ep1))"

definition route_events ::
  "('c, 'v, 'n, 'e, 'i) deps \<Rightarrow> ('c, 'e) endpoint \<Rightarrow> connection_handle \<Rightarrow> ('c, 'e) endpoint option" where
  "route_events D ep ch = while_some (poll_ee D ch) (route_ee D ch) ep"

text \<open>2. Turn one connection's progress into events and its output into transmits.\<close>

definition progress_events :: "connection_handle \<Rightarrow> conn_progress \<Rightarrow> event list" where
  "progress_events ch p =
     (if cp_connected p then [Connected ch] else [])
     @ map (\<lambda>i. StreamOpened ch i Bi) (cp_opened p)
     @ map (StreamReadable ch) (cp_readable p)
     @ map (StreamWritable ch) (cp_writable p)
     @ map (StreamFinAcked ch) (cp_fin_acked p)
     @ map (\<lambda>(i, code). StreamStopped ch i code) (cp_stopped p)"

partial_function (option) drain_transmits ::
  "('c, 'v, 'n, 'e, 'i) deps \<Rightarrow> instant \<Rightarrow> 'c \<Rightarrow> transmit list \<Rightarrow> (transmit list \<times> 'c) option" where
  "drain_transmits D now c acc =
     (case qc_poll_transmit D now 1 c of
        (None, c') \<Rightarrow> Some (acc, c')
      | (Some (dest, buf), c') \<Rightarrow>
          if buf = [] then Some (acc, c') else drain_transmits D now c' (acc @ [Transmit dest buf]))"

record ('c, 'e) pass =
  ps_ep :: "('c, 'e) endpoint"
  ps_events :: "event list"
  ps_transmits :: "transmit list"
  ps_lost :: "(connection_handle \<times> connection_error) list"

definition service_one ::
  "('c, 'v, 'n, 'e, 'i) deps \<Rightarrow> instant \<Rightarrow> ('c, 'e) pass \<Rightarrow> connection_handle \<Rightarrow> ('c, 'e) pass option" where
  "service_one D now p ch =
     (case map_of (ep_connections (ps_ep p)) ch of
        None \<Rightarrow> Some p
      | Some s \<Rightarrow>
          do {
            (progress, s1) \<leftarrow> service_streams D s;
            let lost = (case cp_lost progress of
                          Some reason \<Rightarrow> [(ch, reason)]
                        | None \<Rightarrow> if is_drained D s1 then [(ch, LocallyClosed)] else []);
            (out, c) \<leftarrow> drain_transmits D now (cs_conn s1) [];
            let s2 = clear_dirty (s1\<lparr>cs_conn := c\<rparr>);
            Some \<lparr>ps_ep = (ps_ep p)\<lparr>ep_connections := AList.map_entry ch (\<lambda>_. s2) (ep_connections (ps_ep p))\<rparr>,
                  ps_events = ps_events p @ progress_events ch progress,
                  ps_transmits = ps_transmits p @ out,
                  ps_lost = ps_lost p @ lost\<rparr>
          })"

text \<open>3. Reap a lost connection.\<close>

definition reap :: "connection_handle \<times> connection_error \<Rightarrow> ('c, 'e) endpoint \<Rightarrow> ('c, 'e) endpoint" where
  "reap = (\<lambda>(ch, reason) ep.
     case map_of (ep_connections ep) ch of
       None \<Rightarrow> ep
     | Some _ \<Rightarrow>
         let ep1 = ep\<lparr>ep_connections := AList.delete ch (ep_connections ep),
                      ep_by_quinn := (ep_by_quinn ep)(quinn ch := None),
                      ep_client_ids := (ep_client_ids ep)(ch := None)\<rparr>;
             ep2 = prune_connection_cids ch ep1
         in ep2\<lparr>ep_events := ep_events ep2 @ [ConnectionLost ch reason]\<rparr>)"

definition service_connections ::
  "('c, 'v, 'n, 'e, 'i) deps \<Rightarrow> order \<Rightarrow> instant \<Rightarrow> ('c, 'e) endpoint \<Rightarrow> ('c, 'e) endpoint option" where
  "service_connections D iter now ep =
     do {
       let ep0 = ep\<lparr>ep_last_service := Some now\<rparr>;
       let handles = iter (map fst (ep_connections ep0));
       ep1 \<leftarrow> fold_opt (route_events D) ep0 handles;
       p \<leftarrow> fold_opt (service_one D now) \<lparr>ps_ep = ep1, ps_events = [], ps_transmits = [], ps_lost = []\<rparr> handles;
       let ep2 = (ps_ep p)\<lparr>ep_events := ep_events (ps_ep p) @ ps_events p,
                           ep_outbound := ep_outbound (ps_ep p) @ ps_transmits p\<rparr>;
       let ep3 = fold reap (ps_lost p) ep2;
       Some (refresh_next_timeout D (sweep_orphan_cids ep3))
     }"

section \<open>The public interface\<close>

definition handle_datagram ::
  "('c, 'v, 'n, 'e, 'i) deps \<Rightarrow> order \<Rightarrow> nat option \<Rightarrow> instant \<Rightarrow> socket_addr \<Rightarrow> bytes \<Rightarrow> ('c, 'e) endpoint
     \<Rightarrow> (datagram_outcome \<times> ('c, 'e) endpoint) option" where
  "handle_datagram D iter clock now from data ep =
     (let fed = (\<lambda>ep1 admitted.
            do {
              (outcome, ep2) \<leftarrow> feed D now from data admitted ep1;
              ep3 \<leftarrow> service_connections D iter now ep2;
              Some (outcome, ep3)
            })
      in if ep_role ep = RoleServer \<and> \<not> is_active_dcid ep data then
           do {
             (ok, rl) \<leftarrow> check (ep_rate_limiter ep) (sa_ip from) now;
             let ep1 = ep\<lparr>ep_rate_limiter := rl\<rparr>;
             if \<not> ok then Some (Dropped, ep1)
             else do {
               (sel, ep2) \<leftarrow> prefilter D clock data ep1;
               case sel of
                 None \<Rightarrow> Some (Dropped, ep2)
               | Some client_idx \<Rightarrow>
                   do {
                     client \<leftarrow> nth_opt (ep_clients ep2) client_idx;
                     fed (ep2\<lparr>ep_inner := qe_set_server_config D (Some (cl_server_config client)) (ep_inner ep2)\<rparr>)
                         (Some client_idx)
                   }
             }
           }
         else fed ep None)"

definition pop_outbound :: "('c, 'e) endpoint \<Rightarrow> transmit option \<times> ('c, 'e) endpoint" where
  "pop_outbound ep =
     (case ep_outbound ep of [] \<Rightarrow> (None, ep) | t # ts \<Rightarrow> (Some t, ep\<lparr>ep_outbound := ts\<rparr>))"

definition poll_transmit ::
  "('c, 'v, 'n, 'e, 'i) deps \<Rightarrow> order \<Rightarrow> instant \<Rightarrow> ('c, 'e) endpoint \<Rightarrow> (transmit option \<times> ('c, 'e) endpoint) option" where
  "poll_transmit D iter now ep =
     (case pop_outbound ep of
        (Some t, ep') \<Rightarrow> Some (Some t, ep')
      | (None, ep') \<Rightarrow> map_option pop_outbound (service_connections D iter now ep'))"

definition poll_event :: "('c, 'e) endpoint \<Rightarrow> event option \<times> ('c, 'e) endpoint" where
  "poll_event ep =
     (case ep_events ep of [] \<Rightarrow> (None, ep) | e # es \<Rightarrow> (Some e, ep\<lparr>ep_events := es\<rparr>))"

definition next_timeout :: "('c, 'e) endpoint \<Rightarrow> instant option" where
  "next_timeout ep =
     (if list_ex (\<lambda>(ch, s). is_dirty s) (ep_connections ep)
      then (case ep_last_service ep of Some t \<Rightarrow> Some t | None \<Rightarrow> ep_next_timeout ep)
      else ep_next_timeout ep)"

definition expire :: "('c, 'v, 'n, 'e, 'i) deps \<Rightarrow> instant \<Rightarrow> 'c conn_state \<Rightarrow> 'c conn_state" where
  "expire D now s =
     (case qc_poll_timeout D (cs_conn s) of
        Some t \<Rightarrow> if t \<le> now then s\<lparr>cs_conn := qc_handle_timeout D now (cs_conn s)\<rparr> else s
      | None \<Rightarrow> s)"

definition handle_timeout ::
  "('c, 'v, 'n, 'e, 'i) deps \<Rightarrow> order \<Rightarrow> instant \<Rightarrow> ('c, 'e) endpoint \<Rightarrow> ('c, 'e) endpoint option" where
  "handle_timeout D iter now ep =
     service_connections D iter now
       (ep\<lparr>ep_connections := map (\<lambda>(ch, s). (ch, expire D now s)) (ep_connections ep)\<rparr>)"

text \<open>
  A caller's stream work: \<open>conn_mut\<close> borrows the connection, the caller runs an operation on it
  (\<open>None\<close>: the handle is dead).
\<close>

definition conn_mut :: "('c, 'e) endpoint \<Rightarrow> connection_handle \<Rightarrow> 'c conn_state option" where
  "conn_mut ep ch = map_of (ep_connections ep) ch"

definition put_conn :: "connection_handle \<Rightarrow> 'c conn_state \<Rightarrow> ('c, 'e) endpoint \<Rightarrow> ('c, 'e) endpoint" where
  "put_conn ch s ep = ep\<lparr>ep_connections := AList.map_entry ch (\<lambda>_. s) (ep_connections ep)\<rparr>"

definition client_id :: "('c, 'e) endpoint \<Rightarrow> connection_handle \<Rightarrow> string option" where
  "client_id ep ch = ep_client_ids ep ch"

definition issued_cid_count :: "('c, 'e) endpoint \<Rightarrow> nat" where
  "issued_cid_count ep = card (issued_cids ep)"

end
