(* ===== verification/EndpointInv.thy ===== *)
theory EndpointInv
  imports Endpoint
begin

text \<open>
  The invariants of the endpoint and that every operation keeps them: the CID books (every routing CID
  is owned by exactly one live connection, or pending inside a pass), the handle tables (generations
  increase, the routing and identity tables name live connections only), and the pre-filter's tables.
\<close>

section \<open>What the registry operations leave alone\<close>

lemma generate_cid_frame [simp]:
  "ep_inner (generate_cid c ep) = ep_inner ep"
  "ep_role (generate_cid c ep) = ep_role ep"
  "ep_clients (generate_cid c ep) = ep_clients ep"
  "ep_replay (generate_cid c ep) = ep_replay ep"
  "ep_rate_limiter (generate_cid c ep) = ep_rate_limiter ep"
  "ep_connections (generate_cid c ep) = ep_connections ep"
  "ep_client_ids (generate_cid c ep) = ep_client_ids ep"
  "ep_by_quinn (generate_cid c ep) = ep_by_quinn ep"
  "ep_next_generation (generate_cid c ep) = ep_next_generation ep"
  "ep_outbound (generate_cid c ep) = ep_outbound ep"
  "ep_events (generate_cid c ep) = ep_events ep"
  "ep_next_timeout (generate_cid c ep) = ep_next_timeout ep"
  "ep_last_service (generate_cid c ep) = ep_last_service ep"
  by (simp_all add: generate_cid_def split: option.splits)

lemma drain_pending_cids_frame [simp]:
  "ep_inner (drain_pending_cids ch ep) = ep_inner ep"
  "ep_role (drain_pending_cids ch ep) = ep_role ep"
  "ep_clients (drain_pending_cids ch ep) = ep_clients ep"
  "ep_replay (drain_pending_cids ch ep) = ep_replay ep"
  "ep_rate_limiter (drain_pending_cids ch ep) = ep_rate_limiter ep"
  "ep_connections (drain_pending_cids ch ep) = ep_connections ep"
  "ep_client_ids (drain_pending_cids ch ep) = ep_client_ids ep"
  "ep_by_quinn (drain_pending_cids ch ep) = ep_by_quinn ep"
  "ep_next_generation (drain_pending_cids ch ep) = ep_next_generation ep"
  "ep_outbound (drain_pending_cids ch ep) = ep_outbound ep"
  "ep_events (drain_pending_cids ch ep) = ep_events ep"
  "ep_next_timeout (drain_pending_cids ch ep) = ep_next_timeout ep"
  "ep_last_service (drain_pending_cids ch ep) = ep_last_service ep"
  by (simp_all add: drain_pending_cids_def split: option.splits)

lemma sweep_orphan_cids_frame [simp]:
  "ep_inner (sweep_orphan_cids ep) = ep_inner ep"
  "ep_role (sweep_orphan_cids ep) = ep_role ep"
  "ep_clients (sweep_orphan_cids ep) = ep_clients ep"
  "ep_replay (sweep_orphan_cids ep) = ep_replay ep"
  "ep_rate_limiter (sweep_orphan_cids ep) = ep_rate_limiter ep"
  "ep_connections (sweep_orphan_cids ep) = ep_connections ep"
  "ep_client_ids (sweep_orphan_cids ep) = ep_client_ids ep"
  "ep_by_quinn (sweep_orphan_cids ep) = ep_by_quinn ep"
  "ep_next_generation (sweep_orphan_cids ep) = ep_next_generation ep"
  "ep_outbound (sweep_orphan_cids ep) = ep_outbound ep"
  "ep_events (sweep_orphan_cids ep) = ep_events ep"
  "ep_next_timeout (sweep_orphan_cids ep) = ep_next_timeout ep"
  "ep_last_service (sweep_orphan_cids ep) = ep_last_service ep"
  by (simp_all add: sweep_orphan_cids_def Let_def split: option.splits)

lemma prune_connection_cids_frame [simp]:
  "ep_inner (prune_connection_cids ch ep) = ep_inner ep"
  "ep_role (prune_connection_cids ch ep) = ep_role ep"
  "ep_clients (prune_connection_cids ch ep) = ep_clients ep"
  "ep_replay (prune_connection_cids ch ep) = ep_replay ep"
  "ep_rate_limiter (prune_connection_cids ch ep) = ep_rate_limiter ep"
  "ep_connections (prune_connection_cids ch ep) = ep_connections ep"
  "ep_client_ids (prune_connection_cids ch ep) = ep_client_ids ep"
  "ep_by_quinn (prune_connection_cids ch ep) = ep_by_quinn ep"
  "ep_next_generation (prune_connection_cids ch ep) = ep_next_generation ep"
  "ep_outbound (prune_connection_cids ch ep) = ep_outbound ep"
  "ep_events (prune_connection_cids ch ep) = ep_events ep"
  "ep_next_timeout (prune_connection_cids ch ep) = ep_next_timeout ep"
  "ep_last_service (prune_connection_cids ch ep) = ep_last_service ep"
  by (simp_all add: prune_connection_cids_def split: option.splits)

lemma mint_all_frame [simp]:
  "ep_inner (mint_all cs ep) = ep_inner ep"
  "ep_role (mint_all cs ep) = ep_role ep"
  "ep_clients (mint_all cs ep) = ep_clients ep"
  "ep_replay (mint_all cs ep) = ep_replay ep"
  "ep_rate_limiter (mint_all cs ep) = ep_rate_limiter ep"
  "ep_connections (mint_all cs ep) = ep_connections ep"
  "ep_client_ids (mint_all cs ep) = ep_client_ids ep"
  "ep_by_quinn (mint_all cs ep) = ep_by_quinn ep"
  "ep_next_generation (mint_all cs ep) = ep_next_generation ep"
  "ep_outbound (mint_all cs ep) = ep_outbound ep"
  "ep_events (mint_all cs ep) = ep_events ep"
  "ep_next_timeout (mint_all cs ep) = ep_next_timeout ep"
  "ep_last_service (mint_all cs ep) = ep_last_service ep"
  by (simp_all add: mint_all_def, (induction cs arbitrary: ep; simp)+)

section \<open>Documented behaviour of quinn's endpoint\<close>

text \<open>
  \<open>M e\<close> is the set of CIDs the generator has drawn up to endpoint state \<open>e\<close>: quinn never draws one
  twice (eight random bytes), and installing a configuration draws none.
\<close>

definition fresh_mint :: "('e \<Rightarrow> cid set) \<Rightarrow> 'e \<Rightarrow> cid list \<Rightarrow> 'e \<Rightarrow> bool" where
  "fresh_mint M e cs e' \<longleftrightarrow> distinct cs \<and> set cs \<inter> M e = {} \<and> M e' = M e \<union> set cs"

definition mints_fresh :: "('c, 'v, 'n, 'e, 'i) deps \<Rightarrow> ('e \<Rightarrow> cid set) \<Rightarrow> bool" where
  "mints_fresh D M \<longleftrightarrow>
     (\<forall>now from data e ev resp cs e'. qe_handle D now from data e = (ev, resp, cs, e') \<longrightarrow> fresh_mint M e cs e')
     \<and> (\<forall>i now e r buf cs e'. qe_accept D i now e = (r, buf, cs, e') \<longrightarrow> fresh_mint M e cs e')
     \<and> (\<forall>now cfg a n e r cs e'. qe_connect D now cfg a n e = (r, cs, e') \<longrightarrow> fresh_mint M e cs e')
     \<and> (\<forall>h n e r cs e'. qe_handle_event D h n e = (r, cs, e') \<longrightarrow> fresh_mint M e cs e')
     \<and> (\<forall>sc e. M (qe_set_server_config D sc e) = M e)"

section \<open>Invariants\<close>

definition live :: "('c, 'e) endpoint \<Rightarrow> connection_handle set" where
  "live ep = fst ` set (ep_connections ep)"

definition books_ok :: "('e \<Rightarrow> cid set) \<Rightarrow> ('c, 'e) endpoint \<Rightarrow> bool" where
  "books_ok M ep \<longleftrightarrow> registry_ok ep \<and> (\<forall>ch. owned_cids ep ch \<noteq> {} \<longrightarrow> ch \<in> live ep)
     \<and> issued_cids ep \<subseteq> M (ep_inner ep)"

definition handles_ok :: "('c, 'e) endpoint \<Rightarrow> bool" where
  "handles_ok ep \<longleftrightarrow> sorted_wrt (<) (map fst (ep_connections ep))
     \<and> (\<forall>ch\<in>live ep. generation ch < ep_next_generation ep)
     \<and> (\<forall>q ch. ep_by_quinn ep q = Some ch \<longrightarrow> quinn ch = q \<and> ch \<in> live ep)
     \<and> dom (ep_client_ids ep) = (if ep_role ep = RoleServer then live ep else {})
     \<and> ran (ep_client_ids ep) \<subseteq> cl_client_id ` set (ep_clients ep)"

definition filter_ok :: "('c, 'e) endpoint \<Rightarrow> bool" where
  "filter_ok ep \<longleftrightarrow> limiter_ok (ep_rate_limiter ep) \<and> length (ep_replay ep) = length (ep_clients ep)
     \<and> (\<forall>g\<in>set (ep_replay ep). rg_window g = WINDOW_MINUTES)"

definition endpoint_ok :: "('e \<Rightarrow> cid set) \<Rightarrow> ('c, 'e) endpoint \<Rightarrow> bool" where
  "endpoint_ok M ep \<longleftrightarrow> books_ok M ep \<and> pending_cids ep = [] \<and> handles_ok ep \<and> filter_ok ep"

text \<open>Everything a servicing pass leaves alone up to its reaping: all but the books, quinn and the connections' states.\<close>

definition frame where
  "frame ep = (ep_role ep, ep_clients ep, ep_replay ep, ep_rate_limiter ep, map fst (ep_connections ep),
     ep_client_ids ep, ep_by_quinn ep, ep_next_generation ep, ep_outbound ep, ep_events ep,
     ep_next_timeout ep, ep_last_service ep)"

lemma frame_live: "frame ep = frame ep' \<Longrightarrow> live ep = live ep'"
  by (auto simp: frame_def live_def simp flip: set_map)

lemma frame_handles_ok: "frame ep = frame ep' \<Longrightarrow> handles_ok ep = handles_ok ep'"
  using frame_live [of ep ep'] by (simp add: handles_ok_def frame_def)

lemma frame_filter_ok: "frame ep = frame ep' \<Longrightarrow> filter_ok ep = filter_ok ep'"
  by (simp add: filter_ok_def frame_def)

lemma map_fst_map_entry [simp]: "map fst (AList.map_entry k f al) = map fst al"
  by (induction al) auto

lemma upd_conn_frame [simp]:
  "frame (upd_conn ch f ep) = frame ep" "ep_inner (upd_conn ch f ep) = ep_inner ep"
  "issued_cids (upd_conn ch f ep) = issued_cids ep" "pending_cids (upd_conn ch f ep) = pending_cids ep"
  "cids_by_conn (upd_conn ch f ep) = cids_by_conn ep"
  by (simp_all add: upd_conn_def frame_def)

lemma registry_ops_frame [simp]:
  "frame (mint_all cs ep) = frame ep" "frame (drain_pending_cids ch ep) = frame ep"
  "frame (sweep_orphan_cids ep) = frame ep" "frame (ep\<lparr>ep_inner := e\<rparr>) = frame ep"
  by (simp_all add: frame_def)

subsection \<open>The books\<close>

lemma books_ok_cong:
  assumes "live ep' = live ep" "issued_cids ep' = issued_cids ep" "pending_cids ep' = pending_cids ep"
    "cids_by_conn ep' = cids_by_conn ep" "ep_inner ep' = ep_inner ep"
  shows "books_ok M ep' = books_ok M ep"
proof -
  have "owned_cids ep' = owned_cids ep" by (simp add: fun_eq_iff owned_cids_def assms)
  then show ?thesis by (simp add: books_ok_def registry_ok_def assms)
qed

lemma handles_ok_cong:
  assumes "map fst (ep_connections ep') = map fst (ep_connections ep)" "ep_next_generation ep' = ep_next_generation ep"
    "ep_by_quinn ep' = ep_by_quinn ep" "ep_client_ids ep' = ep_client_ids ep" "ep_role ep' = ep_role ep"
    "ep_clients ep' = ep_clients ep"
  shows "handles_ok ep' = handles_ok ep"
proof -
  have "live ep' = live ep" using assms(1) by (simp add: live_def flip: set_map)
  then show ?thesis by (simp add: handles_ok_def assms)
qed

lemma books_ok_upd_conn [simp]: "books_ok M (upd_conn ch f ep) = books_ok M ep"
  by (rule books_ok_cong) (simp_all add: live_def upd_conn_def flip: set_map)

lemma owned_inner [simp]: "owned_cids (ep\<lparr>ep_inner := e\<rparr>) = owned_cids ep"
  by (simp add: fun_eq_iff owned_cids_def)

lemma registry_ok_inner [simp]: "registry_ok (ep\<lparr>ep_inner := e\<rparr>) = registry_ok ep"
  by (simp add: registry_ok_def)

lemma live_simps [simp]:
  "live (mint_all cs ep) = live ep" "live (drain_pending_cids ch ep) = live ep"
  "live (sweep_orphan_cids ep) = live ep" "live (ep\<lparr>ep_inner := e\<rparr>) = live ep" "live (upd_conn ch f ep) = live ep"
  by (rule frame_live; simp)+

lemma books_mint:
  assumes "books_ok M ep" "fresh_mint M (ep_inner ep) cs e"
  shows "books_ok M (mint_all cs (ep\<lparr>ep_inner := e\<rparr>))"
    and "set (pending_cids (mint_all cs (ep\<lparr>ep_inner := e\<rparr>))) = set (pending_cids ep) \<union> set cs"
    and "owned_cids (mint_all cs (ep\<lparr>ep_inner := e\<rparr>)) = owned_cids ep"
proof -
  have "registry_ok (ep\<lparr>ep_inner := e\<rparr>)" "distinct cs" "set cs \<inter> issued_cids (ep\<lparr>ep_inner := e\<rparr>) = {}"
    using assms by (auto simp: books_ok_def fresh_mint_def)
  from cids.mint_all_law [OF this] assms show "books_ok M (mint_all cs (ep\<lparr>ep_inner := e\<rparr>))"
    "set (pending_cids (mint_all cs (ep\<lparr>ep_inner := e\<rparr>))) = set (pending_cids ep) \<union> set cs"
    "owned_cids (mint_all cs (ep\<lparr>ep_inner := e\<rparr>)) = owned_cids ep"
    by (auto simp: books_ok_def fresh_mint_def mint_all_def [symmetric])
qed

lemma books_drain: "books_ok M ep \<Longrightarrow> ch \<in> live ep \<Longrightarrow> books_ok M (drain_pending_cids ch ep)"
  using cids.drain_law [of ep ch] by (auto simp: books_ok_def split: if_splits)

lemma books_sweep: "books_ok M ep \<Longrightarrow> books_ok M (sweep_orphan_cids ep)"
  using cids.sweep_law [of ep] by (auto simp: books_ok_def)

subsection \<open>Inside a servicing pass\<close>

lemma route_events_keeps:
  assumes D: "mints_fresh D M" and r: "route_events D ep ch = Some ep'" and ok: "books_ok M ep" and ch: "ch \<in> live ep"
  shows "books_ok M ep' \<and> frame ep' = frame ep"
  using r unfolding route_events_def
proof (rule while_some_invariant [where I = "\<lambda>u. books_ok M u \<and> frame u = frame ep"])
  show "books_ok M ep \<and> frame ep = frame ep" using ok by simp
  have poll: "books_ok M u' \<and> frame u' = frame ep" if "books_ok M u \<and> frame u = frame ep" "poll_ee D ch u = (x, u')" for u x u'
    using that by (auto simp: poll_ee_def split: option.splits prod.splits)
  show "books_ok M u' \<and> frame u' = frame ep" if "books_ok M u \<and> frame u = frame ep" "poll_ee D ch u = (None, u')" for u u'
    using poll that by blast
  fix u x u' v
  assume "books_ok M u \<and> frame u = frame ep" "poll_ee D ch u = (Some x, u')" and v: "route_ee D ch x u' = Some v"
  then have u': "books_ok M u'" "frame u' = frame ep" using poll by blast+
  obtain cev cs e where h: "qe_handle_event D (quinn ch) x (ep_inner u') = (cev, cs, e)"
    by (cases "qe_handle_event D (quinn ch) x (ep_inner u')")
  then have "fresh_mint M (ep_inner u') cs e" using D unfolding mints_fresh_def by blast
  then have "books_ok M (mint_all cs (u'\<lparr>ep_inner := e\<rparr>))" using u' by (intro books_mint)
  moreover have "ch \<in> live (mint_all cs (u'\<lparr>ep_inner := e\<rparr>))" using frame_live [OF u'(2)] ch by simp
  ultimately have "books_ok M (drain_pending_cids ch (mint_all cs (u'\<lparr>ep_inner := e\<rparr>)))" by (rule books_drain)
  with v h u'(2) show "books_ok M v \<and> frame v = frame ep"
    by (auto simp: route_ee_def Let_def split: option.splits)
qed

lemma route_all_keeps:
  assumes "mints_fresh D M" "fold_opt (route_events D) ep hs = Some ep'" "books_ok M ep" "set hs \<subseteq> live ep"
  shows "books_ok M ep' \<and> frame ep' = frame ep"
  using assms(2-4)
proof (induction hs arbitrary: ep)
  case (Cons h hs)
  then obtain ep1 where ep1: "route_events D ep h = Some ep1" "fold_opt (route_events D) ep1 hs = Some ep'"
    by (auto simp: bind_eq_Some_conv)
  then have k: "books_ok M ep1 \<and> frame ep1 = frame ep"
    using Cons.prems by (intro route_events_keeps [OF assms(1)]) auto
  then have "set hs \<subseteq> live ep1" using Cons.prems frame_live [of ep1 ep] by simp
  with Cons.IH [OF ep1(2)] k show ?case by simp
qed simp

text \<open>
  What the service loop leaves of an endpoint: only connection states change. What it stages is about
  live connections, every serviced connection ends clean, and one that quinn reports drained is lost.
\<close>

definition staged :: "('c, 'e) endpoint \<Rightarrow> ('c, 'e) pass \<Rightarrow> bool" where
  "staged ep p \<longleftrightarrow> frame (ps_ep p) = frame ep \<and> ep_inner (ps_ep p) = ep_inner ep
     \<and> issued_cids (ps_ep p) = issued_cids ep \<and> pending_cids (ps_ep p) = pending_cids ep
     \<and> cids_by_conn (ps_ep p) = cids_by_conn ep
     \<and> event_conn ` set (ps_events p) \<subseteq> live ep \<and> fst ` set (ps_lost p) \<subseteq> live ep"

lemma progress_events_conn: "e \<in> set (progress_events ch p) \<Longrightarrow> event_conn e = ch"
  by (auto simp: progress_events_def split: if_splits)

definition lost_of where
  "lost_of D ch progress s =
     (case cp_lost progress of Some reason \<Rightarrow> [(ch, reason)] | None \<Rightarrow> if is_drained D s then [(ch, LocallyClosed)] else [])"

lemma service_oneE:
  assumes "service_one D now p ch = Some p'" "map_of (ep_connections (ps_ep p)) ch = Some s"
  obtains progress s1 out c where "service_streams D s = Some (progress, s1)"
    "drain_transmits D now (cs_conn s1) [] = Some (out, c)"
    "p' = \<lparr>ps_ep = (ps_ep p)\<lparr>ep_connections := AList.map_entry ch (\<lambda>_. clear_dirty (s1\<lparr>cs_conn := c\<rparr>)) (ep_connections (ps_ep p))\<rparr>,
      ps_events = ps_events p @ progress_events ch progress, ps_transmits = ps_transmits p @ out,
      ps_lost = ps_lost p @ lost_of D ch progress s1\<rparr>"
  using assms by (auto simp: service_one_def bind_eq_Some_conv Let_def lost_of_def)

lemma fst_lost_of: "fst ` set (lost_of D ch progress s) \<subseteq> {ch}"
  by (auto simp: lost_of_def split: option.splits if_splits)

lemma service_one_staged:
  assumes "service_one D now p ch = Some p'" "staged ep p"
  shows "staged ep p'"
proof (cases "map_of (ep_connections (ps_ep p)) ch")
  case None
  with assms show ?thesis by (simp add: service_one_def)
next
  case (Some s)
  then have "ch \<in> live (ps_ep p)" by (force simp: live_def dest: map_of_SomeD)
  then have ch: "ch \<in> live ep" using assms(2) frame_live [of "ps_ep p" ep] by (simp add: staged_def)
  obtain progress s1 out c where "service_streams D s = Some (progress, s1)"
    "drain_transmits D now (cs_conn s1) [] = Some (out, c)" and
    p': "p' = \<lparr>ps_ep = (ps_ep p)\<lparr>ep_connections := AList.map_entry ch (\<lambda>_. clear_dirty (s1\<lparr>cs_conn := c\<rparr>)) (ep_connections (ps_ep p))\<rparr>,
      ps_events = ps_events p @ progress_events ch progress, ps_transmits = ps_transmits p @ out,
      ps_lost = ps_lost p @ lost_of D ch progress s1\<rparr>" by (rule service_oneE [OF assms(1) Some])
  have ev: "event_conn ` set (progress_events ch progress) \<subseteq> live ep"
    using ch by (auto dest: progress_events_conn)
  have lost: "fst ` set (lost_of D ch progress s1) \<subseteq> live ep"
    using ch fst_lost_of [of D ch progress s1] by auto
  have "frame (ps_ep p') = frame (ps_ep p)" by (simp add: p' frame_def)
  with assms(2) ev lost show ?thesis by (simp add: staged_def p' image_Un)
qed

lemma service_all_staged:
  assumes "fold_opt (service_one D now) p hs = Some p'" "staged ep p"
  shows "staged ep p'"
  using assms by (induction hs arbitrary: p) (auto simp: bind_eq_Some_conv dest: service_one_staged)

text \<open>A connection that was serviced is clean.\<close>

definition clean_at :: "connection_handle \<Rightarrow> ('c, 'e) endpoint \<Rightarrow> bool" where
  "clean_at ch ep \<longleftrightarrow> (\<forall>s. map_of (ep_connections ep) ch = Some s \<longrightarrow> \<not> cs_dirty s)"

lemma map_of_map_entry: "map_of (AList.map_entry k f al) k' =
   (if k' = k then map_option f (map_of al k) else map_of al k')"
  by (induction al) auto

lemma service_one_clean:
  assumes "service_one D now p ch = Some p'"
  shows "clean_at ch (ps_ep p')" and "clean_at ch' (ps_ep p) \<Longrightarrow> clean_at ch' (ps_ep p')"
  using assms
  by (auto simp: service_one_def clean_at_def bind_eq_Some_conv Let_def map_of_map_entry clear_dirty_def
      split: option.splits if_splits)

lemma service_all_clean:
  assumes "fold_opt (service_one D now) p hs = Some p'" "\<And>ch. ch \<in> live (ps_ep p) \<Longrightarrow> ch \<in> set hs \<or> clean_at ch (ps_ep p)"
    "\<And>ch. ch \<in> live (ps_ep p') \<Longrightarrow> ch \<in> live (ps_ep p)"
  shows "\<forall>ch\<in>live (ps_ep p'). clean_at ch (ps_ep p')"
proof -
  have keep: "clean_at ch (ps_ep p2)" if "fold_opt (service_one D now) p1 hs = Some p2" "clean_at ch (ps_ep p1)" for p1 p2 hs ch
    using that by (induction hs arbitrary: p1) (auto simp: bind_eq_Some_conv dest: service_one_clean(2))
  have all: "clean_at ch (ps_ep p2)" if "fold_opt (service_one D now) p1 hs = Some p2" "ch \<in> set hs" for p1 p2 hs ch
    using that
  proof (induction hs arbitrary: p1)
    case (Cons h hs)
    then obtain q where q: "service_one D now p1 h = Some q" "fold_opt (service_one D now) q hs = Some p2"
      by (auto simp: bind_eq_Some_conv)
    show ?case
    proof (cases "ch \<in> set hs")
      case False
      with Cons.prems have "ch = h" by simp
      with service_one_clean(1) [OF q(1)] keep [OF q(2)] show ?thesis by blast
    qed (use Cons.IH q in blast)
  qed simp
  from assms keep all show ?thesis by blast
qed

subsection \<open>Reaping\<close>

text \<open>The part of an endpoint no servicing pass changes.\<close>

definition config where
  "config ep = (ep_role ep, ep_clients ep, ep_replay ep, ep_rate_limiter ep, ep_next_generation ep)"

lemma frame_config: "frame ep = frame ep' \<Longrightarrow> config ep = config ep'"
  by (simp add: frame_def config_def)

lemma config_filter_ok: "config ep = config ep' \<Longrightarrow> filter_ok ep = filter_ok ep'"
  by (simp add: filter_ok_def config_def)

lemma sorted_wrt_delete: "sorted_wrt P (map fst al) \<Longrightarrow> sorted_wrt P (map fst (AList.delete k al))"
  by (induction al) (auto simp: AList.delete_eq)

lemma reap_keeps:
  fixes ep :: "('c, 'e) endpoint"
  shows "config (reap l ep) = config ep" "ep_inner (reap l ep) = ep_inner ep" "ep_outbound (reap l ep) = ep_outbound ep"
    "pending_cids (reap l ep) = pending_cids ep" "ep_last_service (reap l ep) = ep_last_service ep"
    "ep_connections (reap l ep) = AList.delete (fst l) (ep_connections ep)"
  by (auto simp: reap_def config_def Let_def split: option.splits prod.splits
      intro!: delete_id [symmetric] simp: map_of_eq_None_iff)

lemma live_reap: "live (reap l ep) = live ep - {fst l}"
  by (simp add: live_def reap_keeps fst_set_delete)

lemma reap_client_ids: "ch \<noteq> fst l \<Longrightarrow> ep_client_ids (reap l ep) ch = ep_client_ids ep ch"
  by (auto simp: reap_def Let_def split: option.splits prod.splits)

lemma reap_handles_ok:
  assumes "handles_ok ep"
  shows "handles_ok (reap l ep)"
proof (cases "map_of (ep_connections ep) (fst l)")
  case None
  then show ?thesis using assms by (cases l) (simp add: reap_def)
next
  case (Some s)
  obtain ch reason where l: "l = (ch, reason)" by (cases l)
  have "sorted_wrt (<) (map fst (ep_connections (reap l ep)))"
    using assms by (simp add: handles_ok_def reap_keeps sorted_wrt_delete)
  moreover have "ep_by_quinn (reap l ep) = (ep_by_quinn ep)(quinn ch := None)"
    "ep_client_ids (reap l ep) = (ep_client_ids ep)(ch := None)"
    using Some l by (simp_all add: reap_def Let_def)
  moreover have "ep_role (reap l ep) = ep_role ep" "ep_next_generation (reap l ep) = ep_next_generation ep"
    "ep_clients (reap l ep) = ep_clients ep"
    using reap_keeps(1) [of l ep] by (auto simp: config_def)
  moreover have "ran ((ep_client_ids ep)(ch := None)) \<subseteq> ran (ep_client_ids ep)" by (auto simp: ran_def)
  ultimately show ?thesis
    using assms l unfolding handles_ok_def live_reap by (auto split: if_splits)
qed

lemma reap_books_ok:
  assumes "books_ok M ep"
  shows "books_ok M (reap l ep)"
proof (cases "map_of (ep_connections ep) (fst l)")
  case None
  then show ?thesis using assms by (cases l) (simp add: reap_def)
next
  case (Some s)
  obtain ch reason where l: "l = (ch, reason)" by (cases l)
  have eq: "issued_cids (reap l ep) = issued_cids (prune_connection_cids ch ep)"
    "pending_cids (reap l ep) = pending_cids (prune_connection_cids ch ep)"
    "owned_cids (reap l ep) = owned_cids (prune_connection_cids ch ep)"
    using Some l by (simp_all add: reap_def Let_def owned_cids_def prune_connection_cids_def fun_eq_iff split: option.splits)
  then have "registry_ok (reap l ep) = registry_ok (prune_connection_cids ch ep)" by (simp add: registry_ok_def)
  with cids.prune_law [of ep ch] assms eq l show ?thesis
    unfolding books_ok_def live_reap by (auto simp: reap_keeps split: if_splits)
qed

lemma fold_reap:
  assumes "books_ok M ep" "handles_ok ep"
  shows "books_ok M (fold reap ls ep) \<and> handles_ok (fold reap ls ep) \<and> config (fold reap ls ep) = config ep
    \<and> ep_outbound (fold reap ls ep) = ep_outbound ep \<and> ep_last_service (fold reap ls ep) = ep_last_service ep
    \<and> live (fold reap ls ep) = live ep - fst ` set ls
    \<and> set (ep_connections (fold reap ls ep)) \<subseteq> set (ep_connections ep)
    \<and> (\<forall>ch. ch \<notin> fst ` set ls \<longrightarrow> ep_client_ids (fold reap ls ep) ch = ep_client_ids ep ch)"
  using assms
proof (induction ls arbitrary: ep)
  case (Cons l ls)
  have "set (AList.delete (fst l) (ep_connections ep)) \<subseteq> set (ep_connections ep)" by (auto simp: AList.delete_eq)
  with Cons.IH [OF reap_books_ok [OF Cons.prems(1), of l] reap_handles_ok [OF Cons.prems(2), of l]]
  show ?case by (auto simp: reap_keeps live_reap reap_client_ids)
qed simp

text \<open>Every reaped connection is reported once, with its reason, after the events already queued.\<close>

lemma fold_reap_events:
  "distinct (map fst ls) \<Longrightarrow> fst ` set ls \<subseteq> live ep \<Longrightarrow>
   ep_events (fold reap ls ep) = ep_events ep @ map (\<lambda>(ch, reason). ConnectionLost ch reason) ls"
proof (induction ls arbitrary: ep)
  case (Cons l ls)
  obtain ch reason where l: "l = (ch, reason)" by (cases l)
  then have "map_of (ep_connections ep) ch \<noteq> None" using Cons.prems by (simp add: live_def map_of_eq_None_iff)
  then have "ep_events (reap l ep) = ep_events ep @ [ConnectionLost ch reason]"
    using l by (auto simp: reap_def Let_def)
  moreover have "fst ` set ls \<subseteq> live (reap l ep)" using Cons.prems by (simp add: live_reap) blast
  ultimately show ?case using Cons l by simp
qed simp

subsection \<open>A whole pass\<close>

definition iter_ok :: "order \<Rightarrow> bool" where
  "iter_ok iter \<longleftrightarrow> (\<forall>hs. set (iter hs) = set hs \<and> (distinct hs \<longrightarrow> distinct (iter hs)))"

lemma service_connectionsE:
  assumes "service_connections D iter now ep = Some ep'"
  obtains ep1 p where
    "fold_opt (route_events D) (ep\<lparr>ep_last_service := Some now\<rparr>) (iter (map fst (ep_connections ep))) = Some ep1"
    "fold_opt (service_one D now) \<lparr>ps_ep = ep1, ps_events = [], ps_transmits = [], ps_lost = []\<rparr>
       (iter (map fst (ep_connections ep))) = Some p"
    "ep' = refresh_next_timeout D (sweep_orphan_cids (fold reap (ps_lost p)
       ((ps_ep p)\<lparr>ep_events := ep_events (ps_ep p) @ ps_events p, ep_outbound := ep_outbound (ps_ep p) @ ps_transmits p\<rparr>)))"
  using assms by (auto simp: service_connections_def Let_def bind_eq_Some_conv)

lemma refresh_frame [simp]:
  "config (refresh_next_timeout D ep) = config ep" "live (refresh_next_timeout D ep) = live ep"
  "ep_connections (refresh_next_timeout D ep) = ep_connections ep" "ep_inner (refresh_next_timeout D ep) = ep_inner ep"
  "pending_cids (refresh_next_timeout D ep) = pending_cids ep" "books_ok M (refresh_next_timeout D ep) = books_ok M ep"
  "handles_ok (refresh_next_timeout D ep) = handles_ok ep" "ep_outbound (refresh_next_timeout D ep) = ep_outbound ep"
  "ep_client_ids (refresh_next_timeout D ep) = ep_client_ids ep" "ep_last_service (refresh_next_timeout D ep) = ep_last_service ep"
  "ep_events (refresh_next_timeout D ep) = ep_events ep"
  by (simp_all add: refresh_next_timeout_def config_def live_def books_ok_cong [of "_\<lparr>ep_next_timeout := _\<rparr>" ep] handles_ok_cong [of "_\<lparr>ep_next_timeout := _\<rparr>" ep])

lemma sweep_frame [simp]:
  "config (sweep_orphan_cids ep) = config ep" "handles_ok (sweep_orphan_cids ep) = handles_ok ep"
  by (simp_all add: config_def handles_ok_cong [of "sweep_orphan_cids ep" ep])

text \<open>What a pass does to the rest of the endpoint, given what it staged.\<close>

lemma service_connections_keeps:
  assumes D: "mints_fresh D M" and it: "iter_ok iter" and r: "service_connections D iter now ep = Some ep'"
    and ok: "books_ok M ep" "handles_ok ep"
  shows "books_ok M ep'" "handles_ok ep'" "pending_cids ep' = []" "config ep' = config ep" "live ep' \<subseteq> live ep"
    "ep_last_service ep' = Some now" "\<exists>ts. ep_outbound ep' = ep_outbound ep @ ts"
    "\<forall>(ch, s)\<in>set (ep_connections ep'). \<not> cs_dirty s"
    "ch \<in> live ep' \<Longrightarrow> ep_client_ids ep' ch = ep_client_ids ep ch"
proof -
  let ?ep0 = "ep\<lparr>ep_last_service := Some now\<rparr>"
  obtain ep1 p where
    1: "fold_opt (route_events D) ?ep0 (iter (map fst (ep_connections ep))) = Some ep1" and
    2: "fold_opt (service_one D now) \<lparr>ps_ep = ep1, ps_events = [], ps_transmits = [], ps_lost = []\<rparr>
       (iter (map fst (ep_connections ep))) = Some p" and
    3: "ep' = refresh_next_timeout D (sweep_orphan_cids (fold reap (ps_lost p)
       ((ps_ep p)\<lparr>ep_events := ep_events (ps_ep p) @ ps_events p, ep_outbound := ep_outbound (ps_ep p) @ ps_transmits p\<rparr>)))"
    by (rule service_connectionsE [OF r])
  let ?ep2 = "(ps_ep p)\<lparr>ep_events := ep_events (ps_ep p) @ ps_events p, ep_outbound := ep_outbound (ps_ep p) @ ps_transmits p\<rparr>"
  have handles: "set (iter (map fst (ep_connections ep))) = live ep" using it by (simp add: iter_ok_def live_def)
  have l0: "live ?ep0 = live ep" by (simp add: live_def)
  have b0: "books_ok M ?ep0" using ok(1) books_ok_cong [of ?ep0 ep M] l0 by simp
  have h0: "handles_ok ?ep0" using ok(2) handles_ok_cong [of ?ep0 ep] by simp
  have ep1: "books_ok M ep1" "frame ep1 = frame ?ep0" "live ep1 = live ep"
    using route_all_keeps [OF D 1 b0] handles frame_live [of ep1 ?ep0] l0 by auto
  have st: "staged ep1 p" by (rule service_all_staged [OF 2]) (simp add: staged_def)
  have fr: "frame (ps_ep p) = frame ?ep0" using st ep1 by (simp add: staged_def)
  have l2: "live ?ep2 = live ep" "live (ps_ep p) = live ep"
    using frame_live [OF fr] l0 by (simp_all add: live_def)
  have b2: "books_ok M ?ep2" using st ep1 l2 books_ok_cong [of ?ep2 ep1 M] by (simp add: staged_def)
  have h2: "handles_ok ?ep2" using frame_handles_ok [OF fr] h0 handles_ok_cong [of ?ep2 "ps_ep p"] by simp
  note fold = fold_reap [OF b2 h2, of "ps_lost p"]
  have eqs: "config ?ep2 = config ep" "ep_last_service ?ep2 = Some now" "ep_client_ids ?ep2 = ep_client_ids ep"
    "ep_outbound ?ep2 = ep_outbound ep @ ps_transmits p"
    using fr by (simp_all add: frame_def config_def)
  have clean: "\<forall>ch\<in>live (ps_ep p). clean_at ch (ps_ep p)"
    by (rule service_all_clean [OF 2]) (use handles ep1 l2 in auto)
  have d: "distinct (map fst (ep_connections (ps_ep p)))"
    using h2 by (simp add: handles_ok_def strict_sorted_iff)
  have dirty: "\<not> cs_dirty s" if "(ch, s) \<in> set (ep_connections (ps_ep p))" for ch s
    using clean that d by (force simp: clean_at_def live_def)
  show "books_ok M ep'" "handles_ok ep'" "pending_cids ep' = []" "config ep' = config ep" "live ep' \<subseteq> live ep"
    "ep_last_service ep' = Some now" "\<exists>ts. ep_outbound ep' = ep_outbound ep @ ts"
    using fold eqs l2 unfolding 3 by (simp_all add: books_sweep)
  show "\<forall>(ch, s)\<in>set (ep_connections ep'). \<not> cs_dirty s"
    using fold dirty unfolding 3 by auto
  show "ep_client_ids ep' ch = ep_client_ids ep ch" if "ch \<in> live ep'"
    using fold eqs that unfolding 3 by simp
qed

end
