(* ===== verification/EndpointRun.thy ===== *)
theory EndpointRun
  imports EndpointInv
begin

text \<open>
  Whole operations and runs of the endpoint: feeding a datagram, the public interface as a step
  function on operations, that every operation returns (the drains end, no index and no \<open>expect\<close>
  fails) and keeps the invariants of \<open>EndpointInv\<close>.
\<close>

lemma mints_freshD:
  assumes "mints_fresh D M"
  shows "qe_handle D now from data e = (ev, resp, cs, e') \<Longrightarrow> fresh_mint M e cs e'"
    and "qe_accept D i now e = (r, buf, cs, e') \<Longrightarrow> fresh_mint M e cs e'"
    and "qe_connect D now cfg a n e = (r', cs, e') \<Longrightarrow> fresh_mint M e cs e'"
    and "M (qe_set_server_config D sc e) = M e"
  using assms unfolding mints_fresh_def by (elim conjE, metis)+

section \<open>Registering a connection\<close>

lemma update_new_key: "k \<notin> fst ` set al \<Longrightarrow> AList.update k v al = al @ [(k, v)]"
  by (induction al) auto

lemma allocate_handle_Some:
  "allocate_handle q ep = Some (ch, ep') \<longleftrightarrow>
     (\<exists>g'. checked_add (ep_next_generation ep) 1 = Some g' \<and> ch = ConnectionHandle q (ep_next_generation ep)
        \<and> ep' = ep\<lparr>ep_next_generation := g', ep_by_quinn := (ep_by_quinn ep)(q \<mapsto> ch)\<rparr>)"
  by (auto simp: allocate_handle_def Let_def bind_eq_Some_conv)

text \<open>
  The common tail of \<open>new_client\<close> and \<open>admit\<close>: a new handle, the pending CIDs attributed to it, and
  the connection registered under it.
\<close>

definition registered ::
  "('c, 'e) endpoint \<Rightarrow> connection_handle \<Rightarrow> 'c conn_state \<Rightarrow> ('c, 'e) endpoint \<Rightarrow> bool" where
  "registered ep ch s ep' \<longleftrightarrow>
     generation ch = ep_next_generation ep
     \<and> checked_add (ep_next_generation ep) 1 = Some (ep_next_generation ep')
     \<and> ep_by_quinn ep' = (ep_by_quinn ep)(quinn ch \<mapsto> ch)
     \<and> ep_connections ep' = AList.update ch s (ep_connections ep)
     \<and> issued_cids ep' = issued_cids (drain_pending_cids ch ep)
     \<and> pending_cids ep' = pending_cids (drain_pending_cids ch ep)
     \<and> cids_by_conn ep' = cids_by_conn (drain_pending_cids ch ep)
     \<and> ep_inner ep' = ep_inner ep \<and> ep_role ep' = ep_role ep \<and> ep_clients ep' = ep_clients ep
     \<and> ep_replay ep' = ep_replay ep \<and> ep_rate_limiter ep' = ep_rate_limiter ep"

lemma registered_handle:
  assumes "registered ep ch s ep'" "handles_ok ep"
  shows "ch \<notin> live ep" "live ep' = insert ch (live ep)" "\<forall>ch'\<in>live ep. ch' < ch"
    "generation ch < ep_next_generation ep'" "unat (ep_next_generation ep') = unat (ep_next_generation ep) + 1"
    "ep_connections ep' = ep_connections ep @ [(ch, s)]"
proof -
  show u: "unat (ep_next_generation ep') = unat (ep_next_generation ep) + 1"
    using assms(1) checked_add_Some [of "ep_next_generation ep" 1] by (auto simp: registered_def)
  then show "generation ch < ep_next_generation ep'" using assms(1) by (simp add: registered_def word_less_nat_alt)
  show lt: "\<forall>ch'\<in>live ep. ch' < ch"
    using assms by (auto simp: registered_def handles_ok_def intro!: generation_less)
  then show n: "ch \<notin> live ep" by auto
  then show "ep_connections ep' = ep_connections ep @ [(ch, s)]"
    using assms(1) by (simp add: registered_def live_def update_new_key)
  then show "live ep' = insert ch (live ep)" by (simp add: live_def)
qed

lemma registered_books:
  assumes r: "registered ep ch s ep'" and "books_ok M ep" "handles_ok ep"
  shows "books_ok M ep'" "pending_cids ep' = []"
proof -
  have eq: "owned_cids ep' = owned_cids (drain_pending_cids ch ep)"
    using r by (simp add: fun_eq_iff owned_cids_def registered_def)
  then have "registry_ok ep' = registry_ok (drain_pending_cids ch ep)"
    using r by (simp add: registry_ok_def registered_def)
  with cids.drain_law [of ep ch] assms eq registered_handle(2) [OF r assms(3)] show "books_ok M ep'"
    unfolding books_ok_def registered_def by (auto split: if_splits)
  show "pending_cids ep' = []" using r by (simp add: registered_def)
qed

lemma registered_handles_ok:
  assumes r: "registered ep ch s ep'" and ok: "handles_ok ep"
    and ids: "ep_client_ids ep' = (if ep_role ep = RoleServer then (ep_client_ids ep)(ch \<mapsto> n) else ep_client_ids ep)"
    and n: "ep_role ep = RoleServer \<Longrightarrow> n \<in> cl_client_id ` set (ep_clients ep)"
  shows "handles_ok ep'"
proof -
  note h = registered_handle [OF r ok]
  have "sorted_wrt (<) (map fst (ep_connections ep'))"
    using ok h(3) by (simp add: h(6) handles_ok_def sorted_wrt_append live_def)
  moreover have "\<forall>ch'\<in>live ep'. generation ch' < ep_next_generation ep'"
    using ok h(2,4,5) by (force simp: handles_ok_def word_less_nat_alt)
  moreover have "\<forall>q ch'. ep_by_quinn ep' q = Some ch' \<longrightarrow> quinn ch' = q \<and> ch' \<in> live ep'"
    using r ok h(2) by (auto simp: registered_def handles_ok_def)
  moreover have "dom (ep_client_ids ep') = (if ep_role ep' = RoleServer then live ep' else {})"
    using r ok h(2) by (auto simp: registered_def handles_ok_def ids)
  moreover have "ran (ep_client_ids ep') \<subseteq> cl_client_id ` set (ep_clients ep')"
    using r ok n by (auto simp: registered_def handles_ok_def ids ran_def)
  ultimately show ?thesis by (simp add: handles_ok_def)
qed

section \<open>Feeding a datagram\<close>

text \<open>What feeding may do to the tables; the books are only required to balance, not to be at rest.\<close>

definition feeds :: "('c, 'e) endpoint \<Rightarrow> nat option \<Rightarrow> datagram_outcome \<Rightarrow> ('c, 'e) endpoint \<Rightarrow> bool" where
  "feeds ep admitted out ep' \<longleftrightarrow>
     ep_role ep' = ep_role ep \<and> ep_clients ep' = ep_clients ep \<and> ep_replay ep' = ep_replay ep
     \<and> ep_rate_limiter ep' = ep_rate_limiter ep \<and> live ep \<subseteq> live ep'
     \<and> unat (ep_next_generation ep) \<le> unat (ep_next_generation ep')
     \<and> unat (ep_next_generation ep') \<le> unat (ep_next_generation ep) + 1
     \<and> (\<forall>ch\<in>live ep' - live ep. generation ch = ep_next_generation ep \<and> out = Accepted ch
          \<and> (\<exists>idx<length (ep_clients ep). admitted = Some idx \<and> ep_role ep = RoleServer
               \<and> ep_client_ids ep' ch = Some (cl_client_id (ep_clients ep ! idx))))
     \<and> (\<forall>ch\<in>live ep. ep_client_ids ep' ch = ep_client_ids ep ch)
     \<and> (\<forall>ch. out = Accepted ch \<longrightarrow> ch \<in> live ep')
     \<and> (ep_role ep = RoleClient \<longrightarrow> ep_outbound ep' = ep_outbound ep)"

lemma feedsD:
  assumes "feeds ep adm out ep'"
  shows "ep_role ep' = ep_role ep" "ep_clients ep' = ep_clients ep" "ep_replay ep' = ep_replay ep"
    "ep_rate_limiter ep' = ep_rate_limiter ep" "live ep \<subseteq> live ep'"
    "unat (ep_next_generation ep) \<le> unat (ep_next_generation ep')"
    "unat (ep_next_generation ep') \<le> unat (ep_next_generation ep) + 1"
    "ch \<in> live ep' \<Longrightarrow> ch \<notin> live ep \<Longrightarrow> generation ch = ep_next_generation ep"
    "ch \<in> live ep' \<Longrightarrow> ch \<notin> live ep \<Longrightarrow> out = Accepted ch"
    "ch \<in> live ep' \<Longrightarrow> ch \<notin> live ep \<Longrightarrow> \<exists>idx<length (ep_clients ep). adm = Some idx \<and> ep_role ep = RoleServer
               \<and> ep_client_ids ep' ch = Some (cl_client_id (ep_clients ep ! idx))"
    "ch \<in> live ep \<Longrightarrow> ep_client_ids ep' ch = ep_client_ids ep ch"
    "out = Accepted ch \<Longrightarrow> ch \<in> live ep'"
    "ep_role ep = RoleClient \<Longrightarrow> ep_outbound ep' = ep_outbound ep"
  using assms unfolding feeds_def by blast+

lemma push_transmit_simps [simp]:
  "frame (push_transmit d b ep\<lparr>ep_outbound := os\<rparr>) = frame (ep\<lparr>ep_outbound := os\<rparr>)"
  "live (push_transmit d b ep) = live ep" "books_ok M (push_transmit d b ep) = books_ok M ep"
  "handles_ok (push_transmit d b ep) = handles_ok ep" "config (push_transmit d b ep) = config ep"
  by (simp_all add: push_transmit_def frame_def live_def config_def books_ok_cong [of "_\<lparr>ep_outbound := _\<rparr>" ep]
      handles_ok_cong [of "_\<lparr>ep_outbound := _\<rparr>" ep])

lemma drain_cids_by_conn:
  "cids_by_conn (drain_pending_cids ch r) =
     (if pending_cids r = [] then cids_by_conn r
      else (cids_by_conn r)(ch \<mapsto> (case cids_by_conn r ch of None \<Rightarrow> [] | Some l \<Rightarrow> l) @ pending_cids r))"
  by (simp add: drain_pending_cids_def)

lemma admit_registers:
  fixes ep :: "('c, 'e) endpoint"
  assumes a: "admit D now incoming idx ep = Some (out, ep')" and acc: "qe_accept D incoming now (ep_inner ep) = (Some (q, conn), buf, cs, e)"
  shows "\<exists>ch. out = Accepted ch \<and> idx < length (ep_clients ep) \<and> registered (mint_all cs (ep\<lparr>ep_inner := e\<rparr>)) ch (conn_new conn) ep'
    \<and> ep_client_ids ep' = (ep_client_ids ep)(ch \<mapsto> cl_client_id (ep_clients ep ! idx))"
proof -
  define ep1 where "ep1 = mint_all cs (ep\<lparr>ep_inner := e\<rparr>)"
  define push where "push = (if buf \<noteq> [] then push_transmit (qc_remote_address D conn) buf else (\<lambda>x :: ('c, 'e) endpoint. x))"
  have push: "ep_connections (push x) = ep_connections x" "ep_clients (push x) = ep_clients x"
    "ep_client_ids (push x) = ep_client_ids x" "issued_cids (push x) = issued_cids x"
    "pending_cids (push x) = pending_cids x" "cids_by_conn (push x) = cids_by_conn x"
    "ep_inner (push x) = ep_inner x" "ep_role (push x) = ep_role x" "ep_replay (push x) = ep_replay x"
    "ep_rate_limiter (push x) = ep_rate_limiter x" "ep_by_quinn (push x) = ep_by_quinn x"
    "ep_next_generation (push x) = ep_next_generation x" for x
    by (simp_all add: push_def push_transmit_def)
  obtain ch ep2 client where al: "allocate_handle q ep1 = Some (ch, ep2)" and out: "out = Accepted ch"
    and cl: "nth_opt (ep_clients ep2) idx = Some client"
    and ep': "ep' = (drain_pending_cids ch (push ep2))\<lparr>ep_connections := AList.update ch (conn_new conn) (ep_connections ep2),
       ep_client_ids := (ep_client_ids ep2)(ch \<mapsto> cl_client_id client)\<rparr>"
    using a acc by (auto simp: admit_def Let_def bind_eq_Some_conv ep1_def push_def push_transmit_def split: if_splits)
  from al obtain g' where g: "checked_add (ep_next_generation ep1) 1 = Some g'" "ch = ConnectionHandle q (ep_next_generation ep1)"
    "ep2 = ep1\<lparr>ep_next_generation := g', ep_by_quinn := (ep_by_quinn ep1)(q \<mapsto> ch)\<rparr>"
    by (auto simp: allocate_handle_Some)
  have "registered ep1 ch (conn_new conn) ep'"
    unfolding registered_def ep' using g by (simp add: push drain_cids_by_conn)
  moreover have "ep_clients ep2 = ep_clients ep" "ep_client_ids ep2 = ep_client_ids ep" by (simp_all add: g(3) ep1_def)
  ultimately show ?thesis using cl out by (simp add: ep1_def ep' nth_opt_def split: if_splits)
qed

lemma mint_all_handles_ok [simp]: "handles_ok (mint_all cs (ep\<lparr>ep_inner := e\<rparr>)) = handles_ok ep"
  by (rule handles_ok_cong) simp_all

lemma feeds_dropped: "feeds ep adm Dropped ep" 
  by (simp add: feeds_def)

lemma feeds_cong:
  assumes "config ep2 = config ep1" "live ep2 = live ep1" "ep_client_ids ep2 = ep_client_ids ep1"
    "ep_outbound ep2 = ep_outbound ep1"
  shows "feeds ep adm out ep2 = feeds ep adm out ep1" "feeds ep2 adm out ep' = feeds ep1 adm out ep'"
  using assms by (simp_all add: feeds_def config_def)

lemma admit_feeds:
  assumes D: "mints_fresh D M" and a: "admit D now incoming idx ep = Some (out, ep')"
    and ok: "books_ok M ep" "handles_ok ep" and role: "ep_role ep = RoleServer"
  shows "books_ok M ep' \<and> handles_ok ep' \<and> feeds ep (Some idx) out ep'"
proof -
  obtain r buf cs e where acc: "qe_accept D incoming now (ep_inner ep) = (r, buf, cs, e)"
    by (cases "qe_accept D incoming now (ep_inner ep)")
  then have fm: "fresh_mint M (ep_inner ep) cs e" by (rule mints_freshD(2) [OF D])
  let ?ep1 = "mint_all cs (ep\<lparr>ep_inner := e\<rparr>)"
  have b1: "books_ok M ?ep1" and h1: "handles_ok ?ep1" using books_mint [OF ok(1) fm] ok(2) by simp_all
  show ?thesis
  proof (cases r)
    case None
    then have "out = Dropped" "ep' = ?ep1" using a acc by (simp_all add: admit_def)
    with b1 h1 feeds_dropped show ?thesis by (simp add: feeds_cong(1) [of ?ep1 ep] config_def)
  next
    case (Some qc)
    obtain q conn where qc: "qc = (q, conn)" by (cases qc)
    obtain ch where ch: "out = Accepted ch" "idx < length (ep_clients ep)" "registered ?ep1 ch (conn_new conn) ep'"
      "ep_client_ids ep' = (ep_client_ids ep)(ch \<mapsto> cl_client_id (ep_clients ep ! idx))"
      using admit_registers [OF a acc [unfolded Some qc]] by blast
    note h = registered_handle [OF ch(3) h1]
    have "handles_ok ep'"
      by (rule registered_handles_ok [OF ch(3) h1]) (use ch role in \<open>auto simp: ch(4)\<close>)
    moreover have "feeds ep (Some idx) out ep'"
      using ch h role unfolding feeds_def by (auto simp: registered_def)
    ultimately show ?thesis using registered_books(1) [OF ch(3) b1 h1] by blast
  qed
qed

lemma feed_keeps:
  assumes D: "mints_fresh D M" and f: "feed D now from data adm ep = Some (out, ep')"
    and ok: "books_ok M ep" "handles_ok ep"
  shows "books_ok M ep' \<and> handles_ok ep' \<and> feeds ep adm out ep'"
proof -
  obtain ev resp cs e where h: "qe_handle D now from data (ep_inner ep) = (ev, resp, cs, e)"
    by (cases "qe_handle D now from data (ep_inner ep)")
  then have fm: "fresh_mint M (ep_inner ep) cs e" by (rule mints_freshD(1) [OF D])
  define ep1 where "ep1 = mint_all cs (ep\<lparr>ep_inner := e\<rparr>)"
  define ep2 where "ep2 = (if resp \<noteq> [] \<and> ep_role ep1 = RoleServer then push_transmit from resp ep1 else ep1)"
  have ok2: "books_ok M ep2" "handles_ok ep2"
    using books_mint [OF ok(1) fm] ok(2) by (simp_all add: ep2_def ep1_def)
  have same: "config ep2 = config ep" "live ep2 = live ep" "ep_client_ids ep2 = ep_client_ids ep"
    "ep_role ep = RoleClient \<Longrightarrow> ep_outbound ep2 = ep_outbound ep" "ep_role ep2 = ep_role ep"
    "ep_clients ep2 = ep_clients ep" "ep_replay ep2 = ep_replay ep" "ep_rate_limiter ep2 = ep_rate_limiter ep"
    "ep_next_generation ep2 = ep_next_generation ep"
    by (simp_all add: ep2_def ep1_def config_def push_transmit_def live_def)
  have from_ep2: "feeds ep adm out' x" if "feeds ep2 adm out' x" for out' x
  proof -
    from that have "ep_role ep2 = RoleClient \<longrightarrow> ep_outbound x = ep_outbound ep2" unfolding feeds_def by (elim conjE)
    then have "ep_role ep = RoleClient \<longrightarrow> ep_outbound x = ep_outbound ep" by (simp add: same(4,5))
    with that show ?thesis unfolding feeds_def same(2,3,5-9) by (elim conjE, intro conjI)
  qed
  have swept: "books_ok M (sweep_orphan_cids x) \<and> handles_ok (sweep_orphan_cids x) \<and> feeds ep adm out' (sweep_orphan_cids x)"
    if "books_ok M x" "handles_ok x" "feeds ep2 adm out' x" for x out'
    using that books_sweep [of M x] from_ep2 [of out' x] feeds_cong(1) [of "sweep_orphan_cids x" x] by simp
  have routed: "feeds ep2 adm (Accepted ch) (upd_conn ch g ep2)" if "ep_by_quinn ep2 q = Some ch" for q ch g
  proof -
    have "ch \<in> live ep2" using ok2(2) that by (auto simp: handles_ok_def)
    then show ?thesis unfolding feeds_def by (auto simp: upd_conn_def live_def simp flip: set_map)
  qed
  have upd_ok: "books_ok M (upd_conn ch g ep2)" "handles_ok (upd_conn ch g ep2)" for ch g
    using ok2 frame_handles_ok [of "upd_conn ch g ep2" ep2] by simp_all
  let ?swept = "map_option (\<lambda>(out, ep'). (out, sweep_orphan_cids ep'))"
  have f2: "Some (out, ep') =
      (case ev of
         Some (QNewConnection incoming) \<Rightarrow>
           (case ep_role ep2 of
              RoleServer \<Rightarrow> (case adm of None \<Rightarrow> Some (Dropped, ep2) | Some idx \<Rightarrow> ?swept (admit D now incoming idx ep2))
            | RoleClient \<Rightarrow> ?swept (Some (Dropped, ep2)))
       | Some (QConnectionEvent q cev) \<Rightarrow>
           ?swept (case ep_by_quinn ep2 q of
                     Some ch \<Rightarrow> Some (Accepted ch, upd_conn ch (qc_handle_event D cev) ep2)
                   | None \<Rightarrow> Some (Dropped, ep2))
       | _ \<Rightarrow> ?swept (Some (Dropped, ep2)))"
    unfolding f [symmetric] feed_def h Let_def prod.case ep1_def [symmetric] ep2_def [symmetric] by (rule refl)
  let ?R = "\<lambda>out ep'. (out, ep') = (Dropped, ep2) \<or> (\<exists>x. ep' = sweep_orphan_cids x \<and> books_ok M x \<and> handles_ok x \<and> feeds ep2 adm out x)"
  have drop: "?R Dropped (sweep_orphan_cids ep2)" using ok2 feeds_dropped by blast
  have acc: "?R (Accepted ch) (sweep_orphan_cids (upd_conn ch g ep2))" if "ep_by_quinn ep2 q = Some ch" for q ch g
    using upd_ok routed [OF that] by blast
  have adm: "?R out' (sweep_orphan_cids x)"
    if "admit D now incoming idx ep2 = Some (out', x)" "ep_role ep2 = RoleServer" "adm = Some idx" for incoming idx out' x
    using admit_feeds [OF D that(1) ok2 that(2)] that(3) by blast
  have "?R out ep'"
  proof (cases ev)
    case None
    with f2 drop show ?thesis by simp
  next
    case (Some dev)
    show ?thesis
    proof (cases dev)
      case (QNewConnection incoming)
      show ?thesis
      proof (cases "ep_role ep2")
        case RoleServer
        show ?thesis
        proof (cases adm)
          case None
          with f2 RoleServer QNewConnection Some show ?thesis by simp
        next
          case (Some idx)
          with f2 RoleServer QNewConnection \<open>ev = Some dev\<close>
          obtain x where "admit D now incoming idx ep2 = Some (out, x)" "ep' = sweep_orphan_cids x"
            by (auto simp: eq_commute [of "Some (out, ep')"])
          with adm [OF _ RoleServer Some] show ?thesis by simp
        qed
      next
        case RoleClient
        with f2 Some QNewConnection drop show ?thesis by simp
      qed
    next
      case (QConnectionEvent q cev)
      show ?thesis
      proof (cases "ep_by_quinn ep2 q")
        case (Some ch)
        with f2 \<open>ev = Some dev\<close> QConnectionEvent acc [OF Some] show ?thesis by simp
      next
        case None
        with f2 Some QConnectionEvent drop show ?thesis by simp
      qed
    next
      case QResponse
      with f2 Some drop show ?thesis by simp
    qed
  qed
  then show ?thesis using ok2 swept from_ep2 [OF feeds_dropped] by blast
qed

section \<open>Every operation returns\<close>

lemma drain_transmits_returns:
  assumes "pumps_drain D W"
  shows "\<exists>out c'. drain_transmits D now c acc = Some (out, c')"
proof (induction "t_weight W c" arbitrary: c acc rule: less_induct)
  case less
  obtain r c' where r: "qc_poll_transmit D now 1 c = (r, c')" by (cases "qc_poll_transmit D now 1 c")
  show ?case
  proof (cases r)
    case None
    with r show ?thesis by (subst drain_transmits.simps) simp
  next
    case (Some db)
    obtain dest b where db: "db = (dest, b)" by (cases db)
    have "t_weight W c' < t_weight W c" if "b \<noteq> []"
      using assms r Some db that unfolding pumps_drain_def by blast
    with less r Some db show ?thesis by (subst drain_transmits.simps) simp
  qed
qed

lemma route_events_returns:
  assumes "pumps_drain D W"
  shows "\<exists>ep'. route_events D ep ch = Some ep'"
  unfolding route_events_def
proof (rule while_some_total [where I = "\<lambda>_. True" and
      m = "\<lambda>u. case map_of (ep_connections u) ch of None \<Rightarrow> 0 | Some s \<Rightarrow> n_weight W (cs_conn s)"])
  fix u x u' assume p: "poll_ee D ch u = (Some x, u')"
  then obtain s c where s: "map_of (ep_connections u) ch = Some s" "qc_poll_endpoint_events D (cs_conn s) = (Some x, c)"
    "u' = upd_conn ch (\<lambda>_. c) u"
    by (auto simp: poll_ee_def split: option.splits prod.splits)
  then have lt: "n_weight W c < n_weight W (cs_conn s)" using assms unfolding pumps_drain_def by blast
  have u': "map_of (ep_connections u') ch = Some (s\<lparr>cs_conn := c\<rparr>)" by (simp add: s upd_conn_def map_of_map_entry)
  obtain cev cs e where h: "qe_handle_event D (quinn ch) x (ep_inner u') = (cev, cs, e)"
    by (cases "qe_handle_event D (quinn ch) x (ep_inner u')")
  have le: "n_weight W (qc_handle_event D v c) \<le> n_weight W c" if "cev = Some v" for v
    using assms h that unfolding pumps_drain_def by blast
  show "\<exists>v. route_ee D ch x u' = Some v \<and> True \<and>
      (case map_of (ep_connections v) ch of None \<Rightarrow> 0 | Some s \<Rightarrow> n_weight W (cs_conn s))
      < (case map_of (ep_connections u) ch of None \<Rightarrow> 0 | Some s \<Rightarrow> n_weight W (cs_conn s))"
  proof (cases cev)
    case None
    with h u' s lt show ?thesis by (simp add: route_ee_def Let_def)
  next
    case (Some v)
    with h u' s lt le [OF Some] show ?thesis by (simp add: route_ee_def Let_def upd_conn_def map_of_map_entry)
  qed
qed simp

lemma service_one_returns:
  assumes "pumps_drain D W"
  shows "\<exists>p'. service_one D now p ch = Some p'"
proof (cases "map_of (ep_connections (ps_ep p)) ch")
  case (Some s)
  have "events_drain D W" using assms by (simp add: pumps_drain_def)
  then obtain pr s1 where "service_streams D s = Some (pr, s1)" using service_streams_returns by blast
  moreover obtain out c where "drain_transmits D now (cs_conn s1) [] = Some (out, c)"
    using drain_transmits_returns [OF assms] by blast
  ultimately show ?thesis using Some by (simp add: service_one_def)
qed (simp add: service_one_def)

lemma fold_opt_returns:
  assumes "\<And>s i. \<exists>s'. f s i = Some s'"
  shows "\<exists>s'. fold_opt f s is = Some s'"
proof (induction "is" arbitrary: s)
  case (Cons i "is")
  obtain s1 where "f s i = Some s1" using assms by blast
  with Cons.IH [of s1] show ?case by simp
qed simp

lemma service_connections_returns:
  assumes "pumps_drain D W"
  shows "\<exists>ep'. service_connections D iter now ep = Some ep'"
proof -
  let ?hs = "iter (map fst (ep_connections ep))"
  obtain ep1 where "fold_opt (route_events D) (ep\<lparr>ep_last_service := Some now\<rparr>) ?hs = Some ep1"
    using fold_opt_returns [of "route_events D", OF route_events_returns [OF assms]] by blast
  moreover obtain p where "fold_opt (service_one D now) \<lparr>ps_ep = ep1, ps_events = [], ps_transmits = [], ps_lost = []\<rparr> ?hs = Some p"
    using fold_opt_returns [of "service_one D now", OF service_one_returns [OF assms]] by blast
  ultimately show ?thesis by (simp add: service_connections_def)
qed

lemma admit_returns:
  assumes "ep_next_generation ep \<noteq> - 1" "idx < length (ep_clients ep)"
  shows "\<exists>out ep'. admit D now incoming idx ep = Some (out, ep')"
proof -
  have "unat (ep_next_generation ep) \<noteq> unat (- 1 :: u64)" using assms(1) by (simp only: word_unat_eq_iff not_False_eq_True)
  moreover have "unat (ep_next_generation ep) < 2 ^ 64" using unsigned_less [of "ep_next_generation ep"] by simp
  ultimately have "unat (ep_next_generation ep) + 1 < 2 ^ 64"
    by (simp add: unsigned_minus_1_eq_mask mask_eq_exp_minus_1)
  then have "\<exists>g'. checked_add (ep_next_generation ep) 1 = Some g'" by (simp add: checked_add_def)
  then show ?thesis using assms(2)
    by (auto simp: admit_def Let_def allocate_handle_def nth_opt_def push_transmit_def case_prod_beta split: option.splits)
qed

lemma feed_returns:
  assumes "ep_next_generation ep \<noteq> - 1" "\<And>idx. adm = Some idx \<Longrightarrow> idx < length (ep_clients ep)"
  shows "\<exists>out ep'. feed D now from data adm ep = Some (out, ep')"
proof -
  obtain ev resp cs e where h: "qe_handle D now from data (ep_inner ep) = (ev, resp, cs, e)"
    by (cases "qe_handle D now from data (ep_inner ep)")
  define ep1 where "ep1 = mint_all cs (ep\<lparr>ep_inner := e\<rparr>)"
  define ep2 where "ep2 = (if resp \<noteq> [] \<and> ep_role ep1 = RoleServer then push_transmit from resp ep1 else ep1)"
  have same: "ep_next_generation ep2 = ep_next_generation ep" "ep_clients ep2 = ep_clients ep"
    by (simp_all add: ep2_def ep1_def push_transmit_def)
  have adm: "\<exists>out ep'. admit D now incoming idx ep2 = Some (out, ep')" if "adm = Some idx" for incoming idx
    using admit_returns [of ep2 idx] assms that same by simp
  show ?thesis
    unfolding feed_def h Let_def prod.case ep1_def [symmetric] ep2_def [symmetric]
    using adm by (cases adm) (fastforce split: option.splits q_datagram_event.splits role.splits)+
qed

section \<open>The pre-filter's tables\<close>

lemma position_Some:
  "position p xs = Some i \<longleftrightarrow> i < length xs \<and> p (xs ! i) \<and> (\<forall>j<i. \<not> p (xs ! j))"
proof (induction xs arbitrary: i)
  case (Cons x xs)
  then show ?case by (cases i) (auto simp: All_less_Suc2)
qed simp

lemma position_None: "position p xs = None \<longleftrightarrow> (\<forall>x\<in>set xs. \<not> p x)"
  by (induction xs) auto

lemma select_psk_bound: "select_psk D ep parts = Some i \<Longrightarrow> i < length (ep_clients ep)"
  by (simp add: select_psk_def position_Some)

text \<open>
  The three parsing gates and the freshness gate as one: the parts of a datagram's selector, if it has
  a fresh one. The pre-filter then changes at most the guard of the client it selects.
\<close>

definition fresh_parts :: "nat option \<Rightarrow> bytes \<Rightarrow> dcid_parts option" where
  "fresh_parts clock data =
     do {
       dcid \<leftarrow> peek_dcid data;
       parts \<leftarrow> if length dcid = DCID_LEN then parse_dcid dcid else None;
       if is_fresh (dp_freshness parts) (now_minutes clock) WINDOW_MINUTES then Some parts else None
     }"

lemma prefilter_shape:
  assumes "length (ep_replay ep) = length (ep_clients ep)"
  shows "prefilter D clock data ep =
    (case Option.bind (fresh_parts clock data) (\<lambda>parts. map_option (Pair parts) (select_psk D ep parts)) of
       None \<Rightarrow> Some (None, ep)
     | Some (parts, i) \<Rightarrow>
         let r = check_and_record (ep_replay ep ! i) (dp_nonce parts) (dp_freshness parts) (now_minutes clock)
         in Some (if fst r then Some i else None, ep\<lparr>ep_replay := (ep_replay ep)[i := snd r]\<rparr>))"
  using assms
  by (auto simp: prefilter_def fresh_parts_def nth_opt_def Let_def case_prod_beta dest: select_psk_bound
      split: option.splits bind_splits)

lemma prefilter_returns:
  assumes "filter_ok ep"
  obtains sel rs where "prefilter D clock data ep = Some (sel, ep\<lparr>ep_replay := rs\<rparr>)" "filter_ok (ep\<lparr>ep_replay := rs\<rparr>)"
     "\<And>i. sel = Some i \<Longrightarrow> i < length (ep_clients ep)"
proof -
  have l: "length (ep_replay ep) = length (ep_clients ep)" using assms by (simp add: filter_ok_def)
  let ?sel = "Option.bind (fresh_parts clock data) (\<lambda>parts. map_option (Pair parts) (select_psk D ep parts))"
  show thesis
  proof (cases ?sel)
    case None
    then have "prefilter D clock data ep = Some (None, ep\<lparr>ep_replay := ep_replay ep\<rparr>)"
      unfolding prefilter_shape [OF l] by simp
    then show thesis by (rule that) (use assms in simp_all)
  next
    case (Some pi)
    obtain parts i where pi: "pi = (parts, i)" by (cases pi)
    then have i: "i < length (ep_clients ep)" using Some select_psk_bound by (auto simp: bind_eq_Some_conv)
    let ?r = "check_and_record (ep_replay ep ! i) (dp_nonce parts) (dp_freshness parts) (now_minutes clock)"
    have "rg_window (snd ?r) = WINDOW_MINUTES" using assms i l by (simp add: filter_ok_def)
    then have "\<forall>g\<in>set ((ep_replay ep)[i := snd ?r]). rg_window g = WINDOW_MINUTES"
      using assms set_update_subset_insert [of "ep_replay ep" i "snd ?r"] unfolding filter_ok_def by blast
    then have "filter_ok (ep\<lparr>ep_replay := (ep_replay ep)[i := snd ?r]\<rparr>)" using assms by (simp add: filter_ok_def)
    moreover have "prefilter D clock data ep =
        Some (if fst ?r then Some i else None, ep\<lparr>ep_replay := (ep_replay ep)[i := snd ?r]\<rparr>)"
      unfolding prefilter_shape [OF l] Some pi by (simp add: Let_def)
    ultimately show thesis using i by (intro that) (auto split: if_splits)
  qed
qed

end
