(* ===== verification/EndpointOps.thy ===== *)
theory EndpointOps
  imports EndpointRun
begin

text \<open>
  The public interface of the endpoint as a step function on operations: the stages of
  \<open>handle_datagram\<close>, that every operation returns and keeps the invariants, and how a run moves the
  tables on.
\<close>

section \<open>The stages of \<open>handle_datagram\<close>\<close>

definition fed ::
  "('c, 'v, 'n, 'e, 'i) deps \<Rightarrow> order \<Rightarrow> instant \<Rightarrow> socket_addr \<Rightarrow> bytes \<Rightarrow> nat option \<Rightarrow> ('c, 'e) endpoint
     \<Rightarrow> (datagram_outcome \<times> ('c, 'e) endpoint) option" where
  "fed D iter now from data adm ep =
     do {
       (out, ep1) \<leftarrow> feed D now from data adm ep;
       ep2 \<leftarrow> service_connections D iter now ep1;
       Some (out, ep2)
     }"

text \<open>A datagram takes the fast path when it needs no pre-filter.\<close>

definition bypasses :: "('c, 'e) endpoint \<Rightarrow> bytes \<Rightarrow> bool" where
  "bypasses ep data \<longleftrightarrow> ep_role ep = RoleClient \<or> is_active_dcid ep data"

text \<open>The rate limiter and the pre-filter together: the admitted client, and the tables they leave.\<close>

definition gate ::
  "('c, 'v, 'n, 'e, 'i) deps \<Rightarrow> nat option \<Rightarrow> instant \<Rightarrow> socket_addr \<Rightarrow> bytes \<Rightarrow> ('c, 'e) endpoint
     \<Rightarrow> (nat option \<times> ('c, 'e) endpoint) option" where
  "gate D clock now from data ep =
     do {
       (ok, rl) \<leftarrow> check (ep_rate_limiter ep) (sa_ip from) now;
       if ok then prefilter D clock data (ep\<lparr>ep_rate_limiter := rl\<rparr>) else Some (None, ep\<lparr>ep_rate_limiter := rl\<rparr>)
     }"

lemma handle_datagram_stages:
  "handle_datagram D iter clock now from data ep =
     (if bypasses ep data then fed D iter now from data None ep
      else do {
        (sel, ep2) \<leftarrow> gate D clock now from data ep;
        case sel of
          None \<Rightarrow> Some (Dropped, ep2)
        | Some i \<Rightarrow>
            do {
              client \<leftarrow> nth_opt (ep_clients ep2) i;
              fed D iter now from data (Some i)
                (ep2\<lparr>ep_inner := qe_set_server_config D (Some (cl_server_config client)) (ep_inner ep2)\<rparr>)
            }
      })"
proof -
  have "bypasses ep data \<longleftrightarrow> \<not> (ep_role ep = RoleServer \<and> \<not> is_active_dcid ep data)"
    by (cases "ep_role ep") (auto simp: bypasses_def)
  then show ?thesis
    by (auto simp: handle_datagram_def fed_def gate_def Let_def bind_eq_Some_conv split: bind_splits prod.splits option.splits)
qed

lemma gate_returns:
  assumes "filter_ok ep"
  obtains sel rl rs where "gate D clock now from data ep = Some (sel, ep\<lparr>ep_rate_limiter := rl, ep_replay := rs\<rparr>)"
    "filter_ok (ep\<lparr>ep_rate_limiter := rl, ep_replay := rs\<rparr>)" "\<And>i. sel = Some i \<Longrightarrow> i < length (ep_clients ep)"
proof -
  obtain ok rl where c: "check (ep_rate_limiter ep) (sa_ip from) now = Some (ok, rl)" "limiter_ok rl"
    using check_returns assms unfolding filter_ok_def by blast
  have f: "filter_ok (ep\<lparr>ep_rate_limiter := rl\<rparr>)" using assms c by (simp add: filter_ok_def)
  show thesis
  proof (cases ok)
    case False
    show thesis
      by (rule that [where sel = None and rl = rl and rs = "ep_replay ep"]) (use False c f in \<open>simp_all add: gate_def\<close>)
  next
    case True
    obtain sel rs where "prefilter D clock data (ep\<lparr>ep_rate_limiter := rl\<rparr>) = Some (sel, ep\<lparr>ep_rate_limiter := rl, ep_replay := rs\<rparr>)"
      "filter_ok (ep\<lparr>ep_rate_limiter := rl, ep_replay := rs\<rparr>)" "\<And>i. sel = Some i \<Longrightarrow> i < length (ep_clients ep)"
      by (rule prefilter_returns [OF f, of D clock data]) simp
    then show thesis
      by (intro that [where sel = sel and rl = rl and rs = rs]) (use True c in \<open>simp_all add: gate_def\<close>)
  qed
qed

section \<open>The interface as operations\<close>

datatype ep_op =
    Datagram "nat option" instant socket_addr bytes
  | PollTransmit instant
  | PollEvent
  | HandleTimeout instant
  | StreamOp connection_handle conn_op
  | CloseConn connection_handle instant u64 bytes

datatype ep_out = OutDatagram datagram_outcome | OutTransmit "transmit option" | OutEvent "event option" | OutDone

text \<open>
  \<open>StreamOp\<close> and \<open>CloseConn\<close> are what a caller does through \<open>conn_mut\<close>; on a dead handle they do
  nothing.
\<close>

fun ep_exec ::
  "('c, 'v, 'n, 'e, 'i) deps \<Rightarrow> order \<Rightarrow> ('c, 'e) endpoint \<Rightarrow> ep_op \<Rightarrow> (ep_out \<times> ('c, 'e) endpoint) option" where
  "ep_exec D iter ep (Datagram clock now from data) =
     map_option (\<lambda>(r, ep'). (OutDatagram r, ep')) (handle_datagram D iter clock now from data ep)"
| "ep_exec D iter ep (PollTransmit now) = map_option (\<lambda>(r, ep'). (OutTransmit r, ep')) (poll_transmit D iter now ep)"
| "ep_exec D iter ep PollEvent = Some (OutEvent (fst (poll_event ep)), snd (poll_event ep))"
| "ep_exec D iter ep (HandleTimeout now) = map_option (Pair OutDone) (handle_timeout D iter now ep)"
| "ep_exec D iter ep (StreamOp ch cop) =
     (case conn_mut ep ch of
        None \<Rightarrow> Some (OutDone, ep)
      | Some s \<Rightarrow> map_option (\<lambda>s'. (OutDone, put_conn ch s' ep)) (conn_exec D s cop))"
| "ep_exec D iter ep (CloseConn ch now code reason) = Some (OutDone, upd_conn ch (qc_close D now code reason) ep)"

text \<open>All that is assumed of quinn and of the hash map's iteration order.\<close>

definition quinn_ok ::
  "('c, 'v, 'n, 'e, 'i) deps \<Rightarrow> order \<Rightarrow> 'c conn_weights \<Rightarrow> ('e \<Rightarrow> cid set) \<Rightarrow> bool" where
  "quinn_ok D iter W M \<longleftrightarrow> pumps_drain D W \<and> mints_fresh D M \<and> chunks_bounded D \<and> iter_ok iter"

section \<open>Every operation returns and keeps the invariants\<close>

text \<open>How an operation moves the handle tables on.\<close>

definition advances :: "('c, 'e) endpoint \<Rightarrow> ('c, 'e) endpoint \<Rightarrow> bool" where
  "advances ep ep' \<longleftrightarrow> ep_role ep' = ep_role ep \<and> ep_clients ep' = ep_clients ep
     \<and> unat (ep_next_generation ep) \<le> unat (ep_next_generation ep')
     \<and> unat (ep_next_generation ep') \<le> unat (ep_next_generation ep) + 1
     \<and> (\<forall>ch\<in>live ep' - live ep. ep_next_generation ep \<le> generation ch)
     \<and> (\<forall>ch\<in>live ep \<inter> live ep'. ep_client_ids ep' ch = ep_client_ids ep ch)"

lemma advances_pass:
  assumes "config ep' = config ep" "live ep' \<subseteq> live ep" "\<And>ch. ch \<in> live ep' \<Longrightarrow> ep_client_ids ep' ch = ep_client_ids ep ch"
  shows "advances ep ep'"
  using assms by (auto simp: advances_def config_def)

lemma fed_keeps:
  assumes Q: "quinn_ok D iter W M" and ok: "books_ok M ep" "handles_ok ep" "filter_ok ep"
    and ng: "ep_next_generation ep \<noteq> - 1" and adm: "\<And>i. adm = Some i \<Longrightarrow> i < length (ep_clients ep)"
  obtains out ep1 ep' where "fed D iter now from data adm ep = Some (out, ep')" "feeds ep adm out ep1"
    "service_connections D iter now ep1 = Some ep'" "books_ok M ep1" "handles_ok ep1"
    "endpoint_ok M ep'" "advances ep ep'"
proof -
  have D: "mints_fresh D M" and P: "pumps_drain D W" and it: "iter_ok iter" using Q by (simp_all add: quinn_ok_def)
  obtain out ep1 where f: "feed D now from data adm ep = Some (out, ep1)"
    using feed_returns [OF ng adm] by blast
  obtain ep' where s: "service_connections D iter now ep1 = Some ep'"
    using service_connections_returns [OF P] by blast
  have f1: "books_ok M ep1" "handles_ok ep1" "feeds ep adm out ep1" using feed_keeps [OF D f ok(1,2)] by simp_all
  note k = service_connections_keeps [OF D it s f1(1,2)]
  have "filter_ok ep1" using feedsD(2-4) [OF f1(3)] ok(3) by (simp add: filter_ok_def)
  then have e: "endpoint_ok M ep'" using k(1-4) config_filter_ok [of ep' ep1] by (simp add: endpoint_ok_def)
  note fd = feedsD [OF f1(3)]
  have "\<forall>ch\<in>live ep' - live ep. ep_next_generation ep \<le> generation ch"
    using k(5) fd(8) by (metis DiffD1 DiffD2 order_refl subsetD)
  moreover have "\<forall>ch\<in>live ep \<inter> live ep'. ep_client_ids ep' ch = ep_client_ids ep ch" using k(9) fd(11) by simp
  ultimately have "advances ep ep'" using k(4) fd(1,2,6,7) by (simp add: advances_def config_def)
  with f s f1 e show thesis by (intro that [of out ep' ep1]) (simp_all add: fed_def)
qed

lemma handle_datagram_keeps:
  assumes Q: "quinn_ok D iter W M" and ok: "endpoint_ok M ep" and ng: "ep_next_generation ep \<noteq> - 1"
  shows "\<exists>out ep'. handle_datagram D iter clock now from data ep = Some (out, ep') \<and> endpoint_ok M ep' \<and> advances ep ep'"
proof -
  have parts: "books_ok M ep" "handles_ok ep" "filter_ok ep" "pending_cids ep = []" using ok by (simp_all add: endpoint_ok_def)
  show ?thesis
  proof (cases "bypasses ep data")
    case True
    obtain out ep1 ep' where "fed D iter now from data None ep = Some (out, ep')" "endpoint_ok M ep'" "advances ep ep'"
      by (rule fed_keeps [OF Q parts(1-3) ng, of None now "from" data]) auto
    with True show ?thesis by (auto simp: handle_datagram_stages)
  next
    case False
    obtain sel rl rs where g: "gate D clock now from data ep = Some (sel, ep\<lparr>ep_rate_limiter := rl, ep_replay := rs\<rparr>)"
      "filter_ok (ep\<lparr>ep_rate_limiter := rl, ep_replay := rs\<rparr>)" "\<And>i. sel = Some i \<Longrightarrow> i < length (ep_clients ep)"
      by (rule gate_returns [OF parts(3), of D clock now "from" data]) simp
    let ?ep = "ep\<lparr>ep_rate_limiter := rl, ep_replay := rs\<rparr>"
    have b: "books_ok M ?ep" "handles_ok ?ep" "live ?ep = live ep"
      using parts books_ok_cong [of ?ep ep M] handles_ok_cong [of ?ep ep] by (simp_all add: live_def)
    show ?thesis
    proof (cases sel)
      case None
      have "endpoint_ok M ?ep" "advances ep ?ep" using b g(2) parts(4) by (simp_all add: endpoint_ok_def advances_def)
      with None False g show ?thesis by (simp add: handle_datagram_stages)
    next
      case (Some i)
      then have i: "i < length (ep_clients ep)" using g(3) by blast
      let ?c = "ep_clients ep ! i"
      let ?ep2 = "?ep\<lparr>ep_inner := qe_set_server_config D (Some (cl_server_config ?c)) (ep_inner ep)\<rparr>"
      have "M (qe_set_server_config D (Some (cl_server_config ?c)) (ep_inner ep)) = M (ep_inner ep)"
        using Q by (intro mints_freshD(4)) (simp add: quinn_ok_def)
      then have b2: "books_ok M ?ep2" using b(1) by (simp add: books_ok_def)
      have h2: "handles_ok ?ep2" using b(2) handles_ok_cong [of ?ep2 ?ep] by simp
      have f2: "filter_ok ?ep2" using g(2) by (simp add: filter_ok_def)
      obtain out ep1 ep' where r: "fed D iter now from data (Some i) ?ep2 = Some (out, ep')" "endpoint_ok M ep'" "advances ?ep2 ep'"
        by (rule fed_keeps [OF Q b2 h2 f2, of "Some i" now "from" data]) (use ng i in auto)
      have "advances ep ep'" using r(3) b(3) by (simp add: advances_def live_def)
      with r False g Some i show ?thesis by (simp add: handle_datagram_stages nth_opt_def)
    qed
  qed
qed

lemma endpoint_ok_cong:
  assumes "map fst (ep_connections ep') = map fst (ep_connections ep)" "config ep' = config ep"
    "issued_cids ep' = issued_cids ep" "pending_cids ep' = pending_cids ep" "cids_by_conn ep' = cids_by_conn ep"
    "ep_inner ep' = ep_inner ep" "ep_by_quinn ep' = ep_by_quinn ep" "ep_client_ids ep' = ep_client_ids ep"
  shows "endpoint_ok M ep' = endpoint_ok M ep" "advances ep ep'"
proof -
  have l: "live ep' = live ep" using assms(1) by (simp add: live_def flip: set_map)
  have c: "ep_next_generation ep' = ep_next_generation ep" "ep_role ep' = ep_role ep" "ep_clients ep' = ep_clients ep"
    using assms(2) by (simp_all add: config_def)
  show "endpoint_ok M ep' = endpoint_ok M ep"
    using books_ok_cong [OF l assms(3-6)] handles_ok_cong [OF assms(1) c(1) assms(7,8) c(2,3)] config_filter_ok [OF assms(2)]
    by (simp add: endpoint_ok_def assms(4))
  show "advances ep ep'" using l assms(8) c by (simp add: advances_def)
qed

lemma pop_outbound_keeps: "endpoint_ok M (snd (pop_outbound ep)) = endpoint_ok M ep" "advances ep (snd (pop_outbound ep))"
  by (rule endpoint_ok_cong; simp add: pop_outbound_def config_def split: list.splits)+

lemma advances_snd_pop: "advances ep ep1 \<Longrightarrow> advances ep (snd (pop_outbound ep1))"
  by (simp add: pop_outbound_def advances_def live_def split: list.splits)

lemma service_keeps:
  assumes Q: "quinn_ok D iter W M" and ok: "endpoint_ok M ep"
  obtains ep' where "service_connections D iter now ep = Some ep'" "endpoint_ok M ep'" "advances ep ep'"
proof -
  have D: "mints_fresh D M" and P: "pumps_drain D W" and it: "iter_ok iter" using Q by (simp_all add: quinn_ok_def)
  obtain ep' where s: "service_connections D iter now ep = Some ep'" using service_connections_returns [OF P] by blast
  have parts: "books_ok M ep" "handles_ok ep" "filter_ok ep" using ok by (simp_all add: endpoint_ok_def)
  note k = service_connections_keeps [OF D it s parts(1,2)]
  have "endpoint_ok M ep'" using k(1-4) parts(3) config_filter_ok [of ep' ep] by (simp add: endpoint_ok_def)
  moreover have "advances ep ep'" using k(4,5,9) by (rule advances_pass)
  ultimately show thesis using s that by blast
qed

lemma conn_exec_returns:
  assumes "quinn_ok D iter W M"
  shows "\<exists>s'. conn_exec D s cop = Some s'"
proof (cases cop)
  case (OpRead i buf)
  have "chunks_bounded D" using assms by (simp add: quinn_ok_def)
  moreover obtain x c where x: "qc_read D i True (cs_conn s) = (x, c)" by (cases "qc_read D i True (cs_conn s)")
  ultimately obtain r where r: "read_chunks D i c buf 0 = Some r" using read_chunks_delivers [of D 0 buf i c] by blast
  obtain c1 buf1 filled finished errored where "r = (c1, buf1, filled, finished, errored)" by (cases r)
  with x r have "\<exists>r. stream_read D i buf s = Some r"
    by (cases x) (auto simp: stream_read_def Let_def split: q_readable_error.splits option.splits)
  with OpRead show ?thesis by auto
next
  case OpService
  have "events_drain D W" using assms by (simp add: quinn_ok_def pumps_drain_def)
  with OpService service_streams_returns [of D W s] show ?thesis by auto
qed auto

lemma poll_transmit_keeps:
  assumes Q: "quinn_ok D iter W M" and ok: "endpoint_ok M ep"
  shows "\<exists>t ep'. poll_transmit D iter now ep = Some (t, ep') \<and> endpoint_ok M ep' \<and> advances ep ep'"
proof -
  obtain ep1 where s: "service_connections D iter now ep = Some ep1" "endpoint_ok M ep1" "advances ep ep1"
    by (rule service_keeps [OF Q ok])
  show ?thesis
  proof (cases "ep_outbound ep")
    case Nil
    then have "poll_transmit D iter now ep = Some (pop_outbound ep1)"
      using s(1) by (simp add: poll_transmit_def pop_outbound_def [of ep])
    with s show ?thesis by (cases "pop_outbound ep1") (use pop_outbound_keeps(1) [of M ep1] advances_snd_pop [of ep ep1] in simp)
  next
    case (Cons t ts)
    then have "poll_transmit D iter now ep = Some (Some t, snd (pop_outbound ep))"
      by (simp add: poll_transmit_def pop_outbound_def)
    with ok show ?thesis by (simp add: pop_outbound_keeps)
  qed
qed

lemma poll_event_keeps: "endpoint_ok M (snd (poll_event ep)) = endpoint_ok M ep" "advances ep (snd (poll_event ep))"
  by (rule endpoint_ok_cong; simp add: poll_event_def config_def split: list.splits)+

lemma put_conn_keeps: "endpoint_ok M (put_conn ch s ep) = endpoint_ok M ep" "advances ep (put_conn ch s ep)"
  by (rule endpoint_ok_cong; simp add: put_conn_def config_def)+

lemma handle_timeout_keeps:
  assumes Q: "quinn_ok D iter W M" and ok: "endpoint_ok M ep"
  shows "\<exists>ep'. handle_timeout D iter now ep = Some ep' \<and> endpoint_ok M ep' \<and> advances ep ep'"
proof -
  let ?ep = "ep\<lparr>ep_connections := map (\<lambda>(ch, s). (ch, expire D now s)) (ep_connections ep)\<rparr>"
  have e: "endpoint_ok M ?ep = endpoint_ok M ep" "advances ep ?ep"
    by (rule endpoint_ok_cong; simp add: config_def o_def case_prod_beta)+
  obtain ep' where "service_connections D iter now ?ep = Some ep'" "endpoint_ok M ep'" "advances ?ep ep'"
    using service_keeps [OF Q, of ?ep] ok e(1) by blast
  then show ?thesis by (auto simp: handle_timeout_def advances_def live_def o_def case_prod_beta image_image)
qed

lemma ep_exec_keeps:
  assumes Q: "quinn_ok D iter W M" and ok: "endpoint_ok M ep" and ng: "ep_next_generation ep \<noteq> - 1"
  shows "\<exists>out ep'. ep_exec D iter ep op = Some (out, ep') \<and> endpoint_ok M ep' \<and> advances ep ep'"
proof (cases op)
  case (Datagram clock now "from" data)
  with handle_datagram_keeps [OF assms, of clock now "from" data] show ?thesis by auto
next
  case (PollTransmit now)
  with poll_transmit_keeps [OF Q ok, of now] show ?thesis by auto
next
  case PollEvent
  with ok poll_event_keeps(1) [of M ep] poll_event_keeps(2) [of ep] show ?thesis by simp
next
  case (HandleTimeout now)
  with handle_timeout_keeps [OF Q ok, of now] show ?thesis by auto
next
  case (StreamOp ch cop)
  show ?thesis
  proof (cases "conn_mut ep ch")
    case None
    with StreamOp ok show ?thesis by (simp add: advances_def)
  next
    case (Some s)
    obtain s' where s': "conn_exec D s cop = Some s'" using conn_exec_returns [OF Q] by blast
    with StreamOp Some ok put_conn_keeps(1) [of M ch s' ep] put_conn_keeps(2) [of ep ch s'] show ?thesis by simp
  qed
next
  case (CloseConn ch now code reason)
  have "endpoint_ok M (upd_conn ch (qc_close D now code reason) ep) = endpoint_ok M ep"
    "advances ep (upd_conn ch (qc_close D now code reason) ep)"
    by (rule endpoint_ok_cong; simp add: upd_conn_def config_def)+
  with CloseConn ok show ?thesis by simp
qed

section \<open>Runs\<close>

text \<open>What a run leaves of the handle tables: the step relation, without the bound of one per step.\<close>

definition evolves :: "('c, 'e) endpoint \<Rightarrow> ('c, 'e) endpoint \<Rightarrow> bool" where
  "evolves ep ep' \<longleftrightarrow> ep_role ep' = ep_role ep \<and> ep_clients ep' = ep_clients ep
     \<and> ep_next_generation ep \<le> ep_next_generation ep'
     \<and> (\<forall>ch\<in>live ep' - live ep. ep_next_generation ep \<le> generation ch)
     \<and> (\<forall>ch\<in>live ep \<inter> live ep'. ep_client_ids ep' ch = ep_client_ids ep ch)"

lemma advances_evolves: "advances ep ep' \<Longrightarrow> evolves ep ep'"
  by (simp add: advances_def evolves_def word_le_nat_alt)

lemma evolves_refl [simp]: "evolves ep ep"
  by (simp add: evolves_def)

lemma evolves_trans:
  assumes "evolves a b" "evolves b c" "\<And>ch. ch \<in> live a \<Longrightarrow> generation ch < ep_next_generation a"
  shows "evolves a c"
proof -
  have ng: "ep_next_generation a \<le> ep_next_generation b" "ep_next_generation b \<le> ep_next_generation c"
    and new: "\<forall>ch\<in>live b - live a. ep_next_generation a \<le> generation ch" "\<forall>ch\<in>live c - live b. ep_next_generation b \<le> generation ch"
    and ids: "\<forall>ch\<in>live a \<inter> live b. ep_client_ids b ch = ep_client_ids a ch" "\<forall>ch\<in>live b \<inter> live c. ep_client_ids c ch = ep_client_ids b ch"
    using assms(1,2) by (simp_all add: evolves_def)
  have mid: "ch \<in> live b" if "ch \<in> live a" "ch \<in> live c" for ch
  proof (rule ccontr)
    assume "ch \<notin> live b"
    with new(2) that have "ep_next_generation b \<le> generation ch" by blast
    with ng(1) assms(3) [OF that(1)] show False by (simp add: leD)
  qed
  have "ep_next_generation a \<le> generation ch" if "ch \<in> live c - live a" for ch
    using new ng that by (cases "ch \<in> live b") (auto intro: order_trans)
  moreover have "ep_client_ids c ch = ep_client_ids a ch" if "ch \<in> live a \<inter> live c" for ch
    using ids mid that by simp
  ultimately show ?thesis using assms(1,2) ng by (auto simp: evolves_def)
qed

lemma run_keeps:
  assumes Q: "quinn_ok D iter W M" and ok: "endpoint_ok M ep"
    and ng: "unat (ep_next_generation ep) + length ops < 2 ^ 64"
  shows "\<exists>outs ep'. run_opt (ep_exec D iter) ep ops = Some (outs, ep') \<and> endpoint_ok M ep' \<and> evolves ep ep'
    \<and> length outs = length ops"
  using ok ng
proof (induction ops arbitrary: ep)
  case (Cons op ops)
  have "ep_next_generation ep \<noteq> - 1"
    using Cons.prems(2) by (auto simp: unsigned_minus_1_eq_mask mask_eq_exp_minus_1)
  then obtain out ep1 where 1: "ep_exec D iter ep op = Some (out, ep1)" "endpoint_ok M ep1" "advances ep ep1"
    using ep_exec_keeps [OF Q Cons.prems(1)] by blast
  then have "unat (ep_next_generation ep1) + length ops < 2 ^ 64"
    using Cons.prems(2) by (simp add: advances_def)
  from Cons.IH [OF 1(2) this] obtain outs ep' where
    2: "run_opt (ep_exec D iter) ep1 ops = Some (outs, ep')" "endpoint_ok M ep'" "evolves ep1 ep'" "length outs = length ops"
    by blast
  have "evolves ep ep'"
    by (rule evolves_trans [OF advances_evolves [OF 1(3)] 2(3)])
      (use Cons.prems(1) in \<open>auto simp: endpoint_ok_def handles_ok_def\<close>)
  with 1 2 show ?case by simp
qed simp

lemma new_server_ok:
  assumes "new_server B inner secrets = Inr ep"
  shows "endpoint_ok M ep" "ep_role ep = RoleServer" "ep_next_generation ep = 1" "ep_inner ep = inner"
    "ep_connections ep = []" "ep_outbound ep = []" "ep_events ep = []" "issued_cids ep = {}" "ep_next_timeout ep = None"
    "build_clients B secrets = Inr (ep_clients ep)" "ep_last_service ep = None"
proof -
  obtain cls where b: "build_clients B secrets = Inr cls"
    and ep: "ep = endpoint_literal RoleServer inner cls (map (\<lambda>_. replay_new WINDOW_MINUTES) cls) None"
    using assms by (auto simp: new_server_def split: sum.splits)
  show "endpoint_ok M ep"
    by (auto simp: ep endpoint_literal_def endpoint_ok_def books_ok_def registry_ok_def owned_cids_def handles_ok_def
        filter_ok_def live_def limiter_ok_default replay_new_def)
  show "ep_role ep = RoleServer" "ep_next_generation ep = 1" "ep_inner ep = inner"
    "ep_connections ep = []" "ep_outbound ep = []" "ep_events ep = []" "issued_cids ep = {}" "ep_next_timeout ep = None"
    "build_clients B secrets = Inr (ep_clients ep)" "ep_last_service ep = None"
    using b by (simp_all add: ep endpoint_literal_def)
qed

end
