(* ===== verification/Silence.thy ===== *)
theory Silence
  imports EndpointOps
begin

text \<open>
  What the endpoint exists for: silence towards peers that hold no key, one admission per selector,
  attribution of the connections it admits, routing tables that name live connections only, and a
  timer that no unsent work can outsleep.
\<close>

section \<open>A sample instance\<close>

text \<open>
  A minimal quinn, for the witnesses: it accepts every connection it is handed and draws ever longer
  connection IDs; its state is the number of IDs drawn.
\<close>

definition idle_conn :: sample_conn where
  "idle_conn = \<lparr>sm_events = [], sm_streams = [], sm_input = [], sm_output = [], sm_timer = None, sm_closed = False\<rparr>"

definition sample_deps :: "(sample_conn, unit, unit, nat, unit) deps" where
  "sample_deps = quinn_conn.extend sample_quinn
     \<lparr>qe_set_server_config = (\<lambda>_ e. e),
      qe_handle = (\<lambda>_ _ _ e. (Some (QNewConnection ()), [], [], e)),
      qe_accept = (\<lambda>_ _ e. (Some (0, idle_conn), [], [replicate e 0], Suc e)),
      qe_connect = (\<lambda>_ _ _ _ e. (Inr (0, idle_conn), [replicate e 0], Suc e)),
      qe_handle_event = (\<lambda>_ _ e. (None, [], e)),
      blake3_keyed_hash = (\<lambda>k m. take 32 (k @ m @ replicate 32 0))\<rparr>"

definition sample_drawn :: "nat \<Rightarrow> cid set" where
  "sample_drawn e = (\<lambda>k. replicate k 0) ` {..<e}"

lemma sample_quinn_ok: "quinn_ok sample_deps (\<lambda>hs. hs) sample_weights sample_drawn"
proof -
  have "pumps_drain sample_deps sample_weights"
    using sample_events_drain
    by (auto simp: pumps_drain_def events_drain_def sample_deps_def sample_quinn_def sample_weights_def quinn_conn.defs
        dest!: pop_front_Some split: prod.splits)
  moreover have "mints_fresh sample_deps sample_drawn"
    by (auto simp: mints_fresh_def fresh_mint_def sample_deps_def sample_drawn_def quinn_conn.defs)
  moreover have "chunks_bounded sample_deps"
    by (auto simp: chunks_bounded_def sample_deps_def sample_quinn_def quinn_conn.defs split: if_splits)
  ultimately show ?thesis by (simp add: quinn_ok_def iter_ok_def)
qed

lemma sample_blake3_ok: "blake3_ok (blake3_keyed_hash sample_deps)"
  by (auto simp: blake3_ok_def sample_deps_def quinn_conn.defs min_def)

section \<open>Admission\<close>

abbreviation blake3 where "blake3 \<equiv> blake3_keyed_hash"

abbreviation psk_of :: "('c, 'e) endpoint \<Rightarrow> nat \<Rightarrow> bytes" where
  "psk_of ep i \<equiv> as_bytes (cl_psk (ep_clients ep ! i))"

lemma fresh_parts_built:
  assumes "blake3_ok H"
  shows "fresh_parts clock data = Some p \<and> selector_matches H psk p \<longleftrightarrow>
    length (dp_nonce p) = 8 \<and> peek_dcid data = Some (build_dcid H psk (dp_nonce p) (dp_freshness p))
    \<and> is_fresh (dp_freshness p) (now_minutes clock) WINDOW_MINUTES
    \<and> dp_selector p = compute_selector H psk (dp_nonce p) (dp_freshness p)"
    (is "?l \<longleftrightarrow> ?r")
proof
  assume ?l
  then obtain dcid where d: "peek_dcid data = Some dcid" "parse_dcid dcid = Some p"
    "is_fresh (dp_freshness p) (now_minutes clock) WINDOW_MINUTES"
    by (auto simp: fresh_parts_def bind_eq_Some_conv split: if_splits)
  with \<open>?l\<close> matches_iff_built [OF assms d(2), of psk] show ?r
    using assms dcid.enc_dec [OF d(2)] by (auto simp: parts_ok_def selector_matches_iff)
next
  assume r: ?r
  then have "parse_dcid (build_dcid H psk (dp_nonce p) (dp_freshness p)) = Some p"
    using parse_build [OF assms, of "dp_nonce p" psk "dp_freshness p"] by simp
  then show ?l
    using r assms length_build_dcid [OF assms, of "dp_nonce p" psk "dp_freshness p"] matches_iff_built [OF assms]
    by (simp add: fresh_parts_def)
qed

text \<open>The selector of a datagram under the key of a client: the nonce and timestamp it was built from.\<close>

definition carries :: "('c, 'v, 'n, 'e, 'i) deps \<Rightarrow> nat option \<Rightarrow> bytes \<Rightarrow> bytes \<Rightarrow> bytes \<Rightarrow> u32 \<Rightarrow> bool" where
  "carries D clock data psk n f \<longleftrightarrow> length n = 8 \<and> peek_dcid data = Some (build_dcid (blake3 D) psk n f)
     \<and> is_fresh f (now_minutes clock) WINDOW_MINUTES"

lemma check_ok_iff:
  assumes "is_fresh f t (rg_window g)"
  shows "fst (check_and_record g n f t) \<longleftrightarrow> (n, f) \<notin> rg_seen g"
  using rg.accept_iff [of g "(n, f)" t] is_fresh_lower [OF assms]
  by (simp add: replay_live_def replay_check_def)

lemma select_psk_carries:
  assumes "blake3_ok (blake3 D)" "fresh_parts clock data = Some p"
  shows "select_psk D ep p = Some i \<longleftrightarrow> i < length (ep_clients ep)
    \<and> carries D clock data (psk_of ep i) (dp_nonce p) (dp_freshness p)
    \<and> (\<forall>j<i. \<not> carries D clock data (psk_of ep j) (dp_nonce p) (dp_freshness p))"
proof -
  have "selector_matches (blake3 D) k p \<longleftrightarrow> carries D clock data k (dp_nonce p) (dp_freshness p)" for k
  proof
    assume "selector_matches (blake3 D) k p"
    then show "carries D clock data k (dp_nonce p) (dp_freshness p)"
      using fresh_parts_built [OF assms(1), of clock data p k] assms(2) by (simp add: carries_def)
  next
    assume c: "carries D clock data k (dp_nonce p) (dp_freshness p)"
    let ?q = "p\<lparr>dp_selector := compute_selector (blake3 D) k (dp_nonce p) (dp_freshness p)\<rparr>"
    have "fresh_parts clock data = Some ?q \<and> selector_matches (blake3 D) k ?q"
      unfolding fresh_parts_built [OF assms(1)] using c by (simp add: carries_def)
    with assms(2) show "selector_matches (blake3 D) k p" by simp
  qed
  then show ?thesis by (simp add: select_psk_def position_Some)
qed

lemma carries_parts:
  assumes "blake3_ok (blake3 D)" "carries D clock data psk n f"
  shows "\<exists>p. fresh_parts clock data = Some p \<and> dp_nonce p = n \<and> dp_freshness p = f"
proof -
  let ?p = "\<lparr>dp_nonce = n, dp_freshness = f, dp_selector = compute_selector (blake3 D) psk n f\<rparr>"
  have "fresh_parts clock data = Some ?p \<and> selector_matches (blake3 D) psk ?p"
    unfolding fresh_parts_built [OF assms(1)] using assms(2) by (simp add: carries_def)
  then show ?thesis by auto
qed

lemma prefilter_admits_iff:
  assumes B: "blake3_ok (blake3 D)" and ok: "filter_ok ep"
  shows "(\<exists>ep'. prefilter D clock data ep = Some (Some i, ep')) \<longleftrightarrow>
    i < length (ep_clients ep) \<and> (\<exists>n f. carries D clock data (psk_of ep i) n f
      \<and> (\<forall>j<i. \<not> carries D clock data (psk_of ep j) n f) \<and> (n, f) \<notin> rg_seen (ep_replay ep ! i))"
    (is "?l \<longleftrightarrow> ?r")
proof -
  have l: "length (ep_replay ep) = length (ep_clients ep)"
    and w: "\<And>i. i < length (ep_clients ep) \<Longrightarrow> rg_window (ep_replay ep ! i) = WINDOW_MINUTES"
    using ok by (auto simp: filter_ok_def)
  have seen: "fst (check_and_record (ep_replay ep ! i) n f (now_minutes clock)) \<longleftrightarrow> (n, f) \<notin> rg_seen (ep_replay ep ! i)"
    if "i < length (ep_clients ep)" "carries D clock data k n f" for i k n f
    using that w by (intro check_ok_iff) (simp add: carries_def)
  show ?thesis
  proof
    assume ?l
    then obtain p where p: "fresh_parts clock data = Some p" "select_psk D ep p = Some i"
      "fst (check_and_record (ep_replay ep ! i) (dp_nonce p) (dp_freshness p) (now_minutes clock))"
      unfolding prefilter_shape [OF l] by (auto simp: Let_def split: option.splits if_splits bind_splits)
    with select_psk_carries [OF B p(1)] seen show ?r by blast
  next
    assume ?r
    then obtain n f where i: "i < length (ep_clients ep)" and c: "carries D clock data (psk_of ep i) n f"
      "\<forall>j<i. \<not> carries D clock data (psk_of ep j) n f" "(n, f) \<notin> rg_seen (ep_replay ep ! i)" by blast
    obtain p where p: "fresh_parts clock data = Some p" "dp_nonce p = n" "dp_freshness p = f"
      using carries_parts [OF B c(1)] by blast
    then have "select_psk D ep p = Some i" using select_psk_carries [OF B p(1)] i c by blast
    with p seen [OF i c(1)] c(3) show ?l unfolding prefilter_shape [OF l] by (simp add: Let_def)
  qed
qed

section \<open>Silence\<close>

text \<open>An endpoint that has never had anything to say: no connection, nothing queued, quinn untouched.\<close>

definition mute :: "'e \<Rightarrow> client_crypto list \<Rightarrow> ('c, 'e) endpoint \<Rightarrow> bool" where
  "mute inner clients ep \<longleftrightarrow> ep_role ep = RoleServer \<and> ep_clients ep = clients \<and> ep_inner ep = inner
     \<and> ep_connections ep = [] \<and> ep_outbound ep = [] \<and> ep_events ep = [] \<and> issued_cids ep = {}
     \<and> pending_cids ep = [] \<and> ep_next_timeout ep = None \<and> filter_ok ep"

fun mute_out :: "ep_out \<Rightarrow> bool" where
  "mute_out (OutDatagram r) \<longleftrightarrow> r = Dropped"
| "mute_out (OutTransmit t) \<longleftrightarrow> t = None"
| "mute_out (OutEvent e) \<longleftrightarrow> e = None"
| "mute_out OutDone \<longleftrightarrow> True"

lemma service_mute:
  assumes "mute inner cls ep" "iter_ok iter"
  shows "service_connections D iter now ep = Some (ep\<lparr>ep_last_service := Some now, ep_next_timeout := None\<rparr>)"
proof -
  have "iter [] = []" using assms(2) by (metis iter_ok_def set_empty)
  with assms(1) show ?thesis
    by (simp add: service_connections_def mute_def sweep_orphan_cids_def refresh_next_timeout_def map_filter_simps Let_def)
qed

lemma gate_rejects:
  assumes B: "blake3_ok (blake3 D)" and ok: "filter_ok ep"
    and no: "\<And>i n f. i < length (ep_clients ep) \<Longrightarrow> carries D clock data (psk_of ep i) n f \<Longrightarrow> (n, f) \<in> rg_seen (ep_replay ep ! i)"
  shows "\<exists>rl rs. gate D clock now from data ep = Some (None, ep\<lparr>ep_rate_limiter := rl, ep_replay := rs\<rparr>)
    \<and> filter_ok (ep\<lparr>ep_rate_limiter := rl, ep_replay := rs\<rparr>)"
proof -
  obtain sel rl rs where g: "gate D clock now from data ep = Some (sel, ep\<lparr>ep_rate_limiter := rl, ep_replay := rs\<rparr>)"
    "filter_ok (ep\<lparr>ep_rate_limiter := rl, ep_replay := rs\<rparr>)" "\<And>i. sel = Some i \<Longrightarrow> i < length (ep_clients ep)"
    by (rule gate_returns [OF ok, of D clock now "from" data]) simp
  obtain ok' rl' where c: "check (ep_rate_limiter ep) (sa_ip from) now = Some (ok', rl')" "limiter_ok rl'"
    using check_returns ok unfolding filter_ok_def by blast
  let ?ep = "ep\<lparr>ep_rate_limiter := rl'\<rparr>"
  have f: "filter_ok ?ep" using ok c(2) by (simp add: filter_ok_def)
  have "sel = None"
  proof (rule ccontr)
    assume "sel \<noteq> None"
    then obtain i where i: "sel = Some i" by blast
    with g(1) c(1) have "\<exists>ep'. prefilter D clock data ?ep = Some (Some i, ep')"
      by (cases ok') (auto simp: gate_def)
    then obtain n f where "i < length (ep_clients ep)" "carries D clock data (psk_of ep i) n f"
      "(n, f) \<notin> rg_seen (ep_replay ep ! i)"
      unfolding prefilter_admits_iff [OF B f] by auto
    with no show False by blast
  qed
  with g show ?thesis by auto
qed

text \<open>An operation without a key: anything a caller does, and any datagram not built with a configured key.\<close>

fun keyless :: "('c, 'v, 'n, 'e, 'i) deps \<Rightarrow> bytes set \<Rightarrow> ep_op \<Rightarrow> bool" where
  "keyless D psks (Datagram clock now from data) \<longleftrightarrow>
     (\<forall>psk\<in>psks. \<forall>n f. length n = 8 \<longrightarrow> peek_dcid data \<noteq> Some (build_dcid (blake3 D) psk n f))"
| "keyless D psks _ \<longleftrightarrow> True"

lemma exec_mute:
  assumes B: "blake3_ok (blake3 D)" and it: "iter_ok iter" and m: "mute inner cls ep"
    and k: "keyless D ((\<lambda>c. as_bytes (cl_psk c)) ` set cls) op"
  shows "\<exists>out ep'. ep_exec D iter ep op = Some (out, ep') \<and> mute inner cls ep' \<and> mute_out out"
proof (cases op)
  case (Datagram clock now "from" data)
  have f: "filter_ok ep" using m by (simp add: mute_def)
  have "\<not> bypasses ep data"
    using m by (auto simp: bypasses_def mute_def is_active_dcid_def split: option.splits)
  moreover obtain rl rs where "gate D clock now from data ep = Some (None, ep\<lparr>ep_rate_limiter := rl, ep_replay := rs\<rparr>)"
    "filter_ok (ep\<lparr>ep_rate_limiter := rl, ep_replay := rs\<rparr>)"
  proof -
    have "False" if "i < length (ep_clients ep)" "carries D clock data (psk_of ep i) n f" for i n f
      using k m Datagram nth_mem [OF that(1)] that by (fastforce simp: carries_def mute_def)
    then show thesis using gate_rejects [OF B f, of clock data now "from"] that by blast
  qed
  ultimately show ?thesis using Datagram m by (simp add: handle_datagram_stages mute_def)
next
  case (PollTransmit now)
  with service_mute [OF m it, of D now] m show ?thesis
    by (simp add: poll_transmit_def pop_outbound_def mute_def filter_ok_def)
next
  case PollEvent
  with m show ?thesis by (simp add: poll_event_def mute_def)
next
  case (HandleTimeout now)
  have e: "ep\<lparr>ep_connections := []\<rparr> = ep" using m by (simp add: mute_def)
  from HandleTimeout service_mute [OF m it, of D now] m show ?thesis
    by (simp add: handle_timeout_def mute_def filter_ok_def e)
next
  case (StreamOp ch cop)
  with m show ?thesis by (simp add: conn_mut_def mute_def)
next
  case (CloseConn ch now code reason)
  with m show ?thesis by (simp add: upd_conn_def mute_def filter_ok_def)
qed

lemma run_mute:
  assumes "blake3_ok (blake3 D)" "iter_ok iter" "mute inner cls ep"
    and "\<forall>op\<in>set ops. keyless D ((\<lambda>c. as_bytes (cl_psk c)) ` set cls) op"
  shows "\<exists>outs ep'. run_opt (ep_exec D iter) ep ops = Some (outs, ep') \<and> mute inner cls ep' \<and> length outs = length ops
    \<and> (\<forall>out\<in>set outs. mute_out out)"
  using assms(3,4)
proof (induction ops arbitrary: ep)
  case (Cons op ops)
  then obtain out ep1 where 1: "ep_exec D iter ep op = Some (out, ep1)" "mute inner cls ep1" "mute_out out"
    using exec_mute [OF assms(1,2)] by force
  with Cons.IH [OF 1(2)] Cons.prems(2) show ?case by auto
qed simp

lemma new_server_mute:
  assumes "new_server B inner secrets = Inr ep"
  shows "mute inner (ep_clients ep) ep"
  using new_server_ok(2-) [OF assms] new_server_ok(1) [OF assms, of "\<lambda>_. {}"] by (simp add: mute_def endpoint_ok_def)

text \<open>
  C1. A quietquic server is silent: from start-up, as long as no datagram carries a selector built with
  one of the configured keys, every run of the endpoint, whatever else arrives and whatever the caller
  polls, returns; every datagram is dropped, every \<open>poll_transmit\<close> and \<open>poll_event\<close> answers \<open>None\<close>, no
  connection exists, and quinn has never been called. Nothing is assumed of quinn.
\<close>

theorem silent_without_key:
  assumes "new_server B inner secrets = Inr ep" and "blake3_ok (blake3 D)" and "iter_ok iter"
    and "\<forall>op\<in>set ops. keyless D ((\<lambda>e. as_bytes (ce_psk e)) ` set (ss_clients secrets)) op"
  shows "\<exists>outs ep'. run_opt (ep_exec D iter) ep ops = Some (outs, ep') \<and> length outs = length ops
    \<and> (\<forall>out\<in>set outs. out \<in> {OutDatagram Dropped, OutTransmit None, OutEvent None, OutDone})
    \<and> ep_inner ep' = inner \<and> ep_connections ep' = [] \<and> ep_outbound ep' = [] \<and> next_timeout ep' = None"
proof -
  have keys: "(\<lambda>c. as_bytes (cl_psk c)) ` set (ep_clients ep) = (\<lambda>e. as_bytes (ce_psk e)) ` set (ss_clients secrets)"
    using build_clients_Inr(2) [OF new_server_ok(10) [OF assms(1)]] by (metis list.set_map)
  obtain outs ep' where r: "run_opt (ep_exec D iter) ep ops = Some (outs, ep')" "mute inner (ep_clients ep) ep'"
    "length outs = length ops" "\<forall>out\<in>set outs. mute_out out"
    using run_mute [OF assms(2,3) new_server_mute [OF assms(1)]] assms(4) keys by metis
  have "out \<in> {OutDatagram Dropped, OutTransmit None, OutEvent None, OutDone}" if "mute_out out" for out
    using that by (cases out) auto
  with r show ?thesis by (auto simp: mute_def next_timeout_def)
qed

text \<open>Witness: a server with one client is probed with a version-negotiation packet and polled.\<close>

definition sample_key :: bytes where "sample_key = replicate 32 1"

definition sample_nonce :: bytes where "sample_nonce = replicate 8 5"

lemma length_sample_nonce: "length sample_nonce = 8"
  by (simp add: sample_nonce_def)

definition sample_secrets :: server_secrets where
  "sample_secrets = \<lparr>ss_listen = AddrV4 1 1, ss_clients = [\<lparr>ce_client_id = ''a'', ce_psk = Psk sample_key\<rparr>]\<rparr>"

definition sample_server :: "(sample_conn, nat) endpoint" where
  "sample_server = endpoint_literal RoleServer 0
     (map (client_crypto_of [1] [2]) (ss_clients sample_secrets)) [replay_new WINDOW_MINUTES] None"

lemma new_sample_server: "new_server sample_build_env 0 sample_secrets = Inr sample_server"
  by (simp add: new_server_def sample_server_def build_clients_def sample_build_env_def sample_secrets_def trim_is_empty_def
      is_whitespace_def)

theorem silent_without_key_witness:
  "\<exists>outs ep'. run_opt (ep_exec sample_deps (\<lambda>hs. hs)) sample_server
     [Datagram (Some 0) 0 (AddrV4 9 9) [0xc0, 0, 0, 0, 0, 1, 7], PollTransmit 1] = Some (outs, ep') \<and> length outs = 2
    \<and> (\<forall>out\<in>set outs. out \<in> {OutDatagram Dropped, OutTransmit None, OutEvent None, OutDone}) \<and> ep_inner ep' = 0"
proof -
  have p: "peek_dcid [0xc0, 0, 0, 0, 0, 1, 7] = Some [7]" by code_simp
  have "length (build_dcid (blake3 sample_deps) psk n f) = 20" if "length n = 8" for psk n f
    using length_build_dcid [OF sample_blake3_ok that] by (simp add: DCID_LEN_def)
  then have ne: "[7] \<noteq> build_dcid (blake3 sample_deps) psk n f" if "length n = 8" for psk n f
    using that by (metis One_nat_def length_Cons list.size(3) numeral_eq_one_iff semiring_norm(85) verit_eq_simplify(10))
  have k: "\<forall>op\<in>set [Datagram (Some 0) 0 (AddrV4 9 9) [0xc0, 0, 0, 0, 0, 1, 7], PollTransmit 1].
      keyless sample_deps ((\<lambda>e. as_bytes (ce_psk e)) ` set (ss_clients sample_secrets)) op"
    using ne p by simp
  have "iter_ok (\<lambda>hs. hs)" by (simp add: iter_ok_def)
  from silent_without_key [OF new_sample_server sample_blake3_ok this k] show ?thesis by auto
qed

text \<open>
  C2. The silence invariant at any moment of a server's life: a datagram that names no issued connection
  ID and that does not carry a fresh, not yet seen selector of a configured key is dropped, and changes
  nothing but the rate limiter's and the replay guards' own tables: no transmit, no event, no
  connection, no call into quinn.
\<close>

theorem rejected_datagram_leaves_no_trace:
  assumes "blake3_ok (blake3 D)" and "filter_ok ep" and "ep_role ep = RoleServer" and "\<not> is_active_dcid ep data"
    and "\<forall>i<length (ep_clients ep). \<forall>n f. length n = 8 \<and> peek_dcid data = Some (build_dcid (blake3 D) (psk_of ep i) n f)
           \<and> is_fresh f (now_minutes clock) WINDOW_MINUTES \<longrightarrow> (n, f) \<in> rg_seen (ep_replay ep ! i)"
  shows "\<exists>rl rs. handle_datagram D iter clock now from data ep =
           Some (Dropped, ep\<lparr>ep_rate_limiter := rl, ep_replay := rs\<rparr>)"
proof -
  obtain rl rs where "gate D clock now from data ep = Some (None, ep\<lparr>ep_rate_limiter := rl, ep_replay := rs\<rparr>)"
    using gate_rejects [OF assms(1,2), of clock data now "from"] assms(5) by (auto simp: carries_def)
  moreover have "\<not> bypasses ep data" using assms(3,4) by (simp add: bypasses_def)
  ultimately show ?thesis by (auto simp: handle_datagram_stages)
qed

text \<open>Witness: an empty datagram.\<close>

theorem rejected_datagram_leaves_no_trace_witness:
  "\<exists>rl rs. handle_datagram sample_deps (\<lambda>hs. hs) (Some 0) 0 (AddrV4 9 9) [] sample_server =
     Some (Dropped, sample_server\<lparr>ep_rate_limiter := rl, ep_replay := rs\<rparr>)"
proof -
  have "filter_ok sample_server" using new_server_ok(1) [OF new_sample_server] by (simp add: endpoint_ok_def)
  moreover have "ep_role sample_server = RoleServer" using new_server_ok(2) [OF new_sample_server] .
  moreover have "\<not> is_active_dcid sample_server []" by (simp add: is_active_dcid_def read_dcid_any_def)
  moreover have "peek_dcid [] = None" by code_simp
  ultimately show ?thesis using rejected_datagram_leaves_no_trace [OF sample_blake3_ok] by simp
qed

text \<open>
  C3. The pre-filter admits exactly what it should: client \<open>i\<close> is selected precisely for a long-header
  datagram whose DCID is \<open>build_dcid\<close> of that client's key with an 8-byte nonce and a timestamp within
  the window of the server's clock, when the pair has not been admitted for that client before and no
  earlier client's key gives the same DCID.
\<close>

theorem prefilter_exact:
  assumes "blake3_ok (blake3 D)" and "filter_ok ep"
  shows "(\<exists>ep'. prefilter D clock data ep = Some (Some i, ep')) \<longleftrightarrow>
    i < length (ep_clients ep) \<and> (\<exists>n f. length n = 8
      \<and> peek_dcid data = Some (build_dcid (blake3 D) (psk_of ep i) n f)
      \<and> is_fresh f (now_minutes clock) WINDOW_MINUTES
      \<and> (n, f) \<notin> rg_seen (ep_replay ep ! i)
      \<and> (\<forall>j<i. build_dcid (blake3 D) (psk_of ep i) n f \<noteq> build_dcid (blake3 D) (psk_of ep j) n f))"
proof -
  have "carries D clock data (psk_of ep i) n f \<and> (\<forall>j<i. \<not> carries D clock data (psk_of ep j) n f) \<and> u \<longleftrightarrow>
      length n = 8 \<and> peek_dcid data = Some (build_dcid (blake3 D) (psk_of ep i) n f)
      \<and> is_fresh f (now_minutes clock) WINDOW_MINUTES \<and> u
      \<and> (\<forall>j<i. build_dcid (blake3 D) (psk_of ep i) n f \<noteq> build_dcid (blake3 D) (psk_of ep j) n f)" for n f u
    unfolding carries_def by (cases "peek_dcid data = Some (build_dcid (blake3 D) (psk_of ep i) n f)") auto
  then show ?thesis unfolding prefilter_admits_iff [OF assms] by simp
qed

text \<open>Witness: the sample server admits a datagram of its client.\<close>

definition sample_dial :: bytes where
  "sample_dial = long_header 0xc0 [0, 0, 0, 1]
     (build_dcid (blake3 sample_deps) sample_key sample_nonce 0) []"

lemma peek_sample_dial: "peek_dcid sample_dial = Some (build_dcid (blake3 sample_deps) sample_key sample_nonce 0)"
proof -
  have l: "length (build_dcid (blake3 sample_deps) sample_key sample_nonce 0) = 20"
    using length_build_dcid [OF sample_blake3_ok length_sample_nonce] unfolding DCID_LEN_def .
  have b: "(0xc0 :: u8) AND 0x80 \<noteq> 0" by simp
  show ?thesis unfolding sample_dial_def by (rule peek_dcid_long_header [OF b]) (simp_all add: l)
qed

theorem prefilter_exact_witness:
  "\<exists>ep'. prefilter sample_deps (Some 0) sample_dial sample_server = Some (Some 0, ep')"
proof -
  have f: "filter_ok sample_server" using new_server_ok(1) [OF new_sample_server] by (simp add: endpoint_ok_def)
  have s: "length (ep_clients sample_server) = 1" "psk_of sample_server 0 = sample_key" "rg_seen (ep_replay sample_server ! 0) = {}"
    by (simp_all add: sample_server_def endpoint_literal_def sample_secrets_def client_crypto_of_def replay_new_def)
  have "is_fresh 0 (now_minutes (Some 0)) WINDOW_MINUTES" by (simp add: is_fresh_nat now_minutes_def)
  with s peek_sample_dial show ?thesis
    unfolding prefilter_exact [OF sample_blake3_ok f] using length_sample_nonce by auto
qed

section \<open>One admission per selector\<close>

text \<open>The datagram passes the gates at this moment and selects client \<open>i\<close>.\<close>

definition admits ::
  "('c, 'v, 'n, 'e, 'i) deps \<Rightarrow> nat option \<Rightarrow> instant \<Rightarrow> socket_addr \<Rightarrow> bytes \<Rightarrow> ('c, 'e) endpoint \<Rightarrow> nat \<Rightarrow> bool" where
  "admits D clock now from data ep i \<longleftrightarrow> \<not> bypasses ep data \<and> (\<exists>ep'. gate D clock now from data ep = Some (Some i, ep'))"

end
