(* ===== verification/Sessions.thy ===== *)
theory Sessions
  imports Silence
begin

text \<open>
  The life of the connections an endpoint holds: a selector opens at most one, each is attributed to
  the client whose key opened it, its connection IDs route to it alone and go with it, its handle never
  names another, its loss is reported once, and unsent work on it cannot be slept through.
\<close>

section \<open>One admission per selector\<close>

text \<open>What an admission says about the datagram, and what it records.\<close>

lemma gate_admits:
  assumes B: "blake3_ok (blake3 D)" and ok: "filter_ok ep" and g: "gate D clock now from data ep = Some (Some i, ep')"
  shows "i < length (ep_clients ep)" "length (ep_replay ep') = length (ep_replay ep)"
    "\<exists>n f. carries D clock data (psk_of ep i) n f \<and> (\<forall>j<i. \<not> carries D clock data (psk_of ep j) n f)
       \<and> (n, f) \<notin> rg_seen (ep_replay ep ! i) \<and> (n, f) \<in> rg_seen (ep_replay ep' ! i)"
proof -
  obtain ok' rl' where c: "check (ep_rate_limiter ep) (sa_ip from) now = Some (ok', rl')" "limiter_ok rl'"
    using check_returns ok unfolding filter_ok_def by blast
  let ?ep = "ep\<lparr>ep_rate_limiter := rl'\<rparr>"
  have l: "length (ep_replay ?ep) = length (ep_clients ?ep)" using ok by (simp add: filter_ok_def)
  from g c(1) have p: "prefilter D clock data ?ep = Some (Some i, ep')" by (cases ok') (auto simp: gate_def)
  then obtain parts where parts: "fresh_parts clock data = Some parts" "select_psk D ?ep parts = Some i"
    "ep' = ?ep\<lparr>ep_replay := (ep_replay ep)[i := snd (check_and_record (ep_replay ep ! i) (dp_nonce parts) (dp_freshness parts) (now_minutes clock))]\<rparr>"
    and fst: "fst (check_and_record (ep_replay ep ! i) (dp_nonce parts) (dp_freshness parts) (now_minutes clock))"
    unfolding prefilter_shape [OF l] by (auto simp: Let_def split: option.splits if_splits bind_splits)
  show i: "i < length (ep_clients ep)" using select_psk_bound [OF parts(2)] by simp
  show "length (ep_replay ep') = length (ep_replay ep)" by (simp add: parts(3))
  let ?n = "dp_nonce parts" and ?f = "dp_freshness parts"
  have car: "carries D clock data (psk_of ep i) ?n ?f" "\<forall>j<i. \<not> carries D clock data (psk_of ep j) ?n ?f"
    using select_psk_carries [OF B parts(1), of ?ep i] parts(2) by simp_all
  have "rg_window (ep_replay ep ! i) = WINDOW_MINUTES" using ok i by (simp add: filter_ok_def)
  with fst car(1) have "(?n, ?f) \<notin> rg_seen (ep_replay ep ! i)"
    using check_ok_iff [of ?f "now_minutes clock" "ep_replay ep ! i" ?n] by (simp add: carries_def)
  moreover have "(?n, ?f) \<in> rg_seen (ep_replay ep' ! i)"
    using i l rg.records [where g = "ep_replay ep ! i" and k = "(?n, ?f)" and t = "now_minutes clock"] by (simp add: parts(3) replay_check_def)
  ultimately show "\<exists>n f. carries D clock data (psk_of ep i) n f \<and> (\<forall>j<i. \<not> carries D clock data (psk_of ep j) n f)
       \<and> (n, f) \<notin> rg_seen (ep_replay ep ! i) \<and> (n, f) \<in> rg_seen (ep_replay ep' ! i)" using car by blast
qed

lemma carries_same:
  assumes B: "blake3_ok (blake3 D)" and "carries D c data k n f" "carries D c' data' k' n' f'" "peek_dcid data = peek_dcid data'"
  shows "n = n' \<and> f = f'"
proof -
  have "build_dcid (blake3 D) k n f = build_dcid (blake3 D) k' n' f'" "length n = 8" "length n' = 8"
    using assms(2-4) by (auto simp: carries_def)
  then show ?thesis using parse_build [OF B, of n k f] parse_build [OF B, of n' k' f'] by simp
qed

lemma gate_replay:
  assumes "filter_ok ep" "gate D clock now from data ep = Some (sel, ep')"
  shows "ep_replay ep' = ep_replay ep \<or>
    (\<exists>k n f. k < length (ep_replay ep) \<and>
       ep_replay ep' = (ep_replay ep)[k := snd (check_and_record (ep_replay ep ! k) n f (now_minutes clock))])"
proof -
  obtain ok' rl' where c: "check (ep_rate_limiter ep) (sa_ip from) now = Some (ok', rl')"
    using check_returns assms(1) unfolding filter_ok_def by blast
  let ?ep = "ep\<lparr>ep_rate_limiter := rl'\<rparr>"
  have l: "length (ep_replay ?ep) = length (ep_clients ?ep)" using assms(1) by (simp add: filter_ok_def)
  show ?thesis
  proof (cases ok')
    case False
    then show ?thesis using assms(2) c by (simp add: gate_def) auto
  next
    case True
    then have p: "prefilter D clock data ?ep = Some (sel, ep')" using assms(2) c by (simp add: gate_def)
    let ?s = "Option.bind (fresh_parts clock data) (\<lambda>parts. map_option (Pair parts) (select_psk D ?ep parts))"
    show ?thesis
    proof (cases ?s)
      case None
      then have "ep' = ?ep" using p unfolding prefilter_shape [OF l] by simp
      then show ?thesis by simp
    next
      case (Some pi)
      obtain parts k where pi: "pi = (parts, k)" by (cases pi)
      then have "k < length (ep_replay ep)" using Some select_psk_bound [of D ?ep] l by (auto simp: bind_eq_Some_conv)
      moreover have "ep_replay ep' = (ep_replay ep)[k := snd (check_and_record (ep_replay ep ! k) (dp_nonce parts) (dp_freshness parts) (now_minutes clock))]"
        using p unfolding prefilter_shape [OF l] Some pi by (auto simp: Let_def)
      ultimately show ?thesis by blast
    qed
  qed
qed

text \<open>The minute an operation reads off the wall clock, if it does.\<close>

fun op_minute :: "ep_op \<Rightarrow> u32 option" where
  "op_minute (Datagram clock now from data) = Some (now_minutes clock)"
| "op_minute _ = None"

text \<open>An operation touches the guards only through one check at its minute.\<close>

lemma service_config:
  assumes "quinn_ok D iter W M" "books_ok M ep" "handles_ok ep" "service_connections D iter now ep = Some ep'"
  shows "config ep' = config ep"
  using assms service_connections_keeps(4) [of D M iter now ep ep'] by (simp add: quinn_ok_def)

lemma handle_datagram_replay:
  assumes Q: "quinn_ok D iter W M" and ok: "endpoint_ok M ep"
    and h: "handle_datagram D iter clock now from data ep = Some (out, ep')"
  shows "ep_replay ep' = ep_replay ep \<and> (\<forall>i. \<not> admits D clock now from data ep i) \<or>
    (\<exists>sel ep1. gate D clock now from data ep = Some (sel, ep1) \<and> ep_replay ep' = ep_replay ep1)"
proof -
  have parts: "books_ok M ep" "handles_ok ep" "filter_ok ep" using ok by (simp_all add: endpoint_ok_def)
  have fd: "ep_replay ep2 = ep_replay ep1"
    if "fed D iter now from data adm ep1 = Some (out, ep2)" "books_ok M ep1" "handles_ok ep1" for adm ep1 ep2 out
  proof -
    from that(1) obtain x where x: "feed D now from data adm ep1 = Some (out, x)" "service_connections D iter now x = Some ep2"
      by (auto simp: fed_def bind_eq_Some_conv)
    have "mints_fresh D M" using Q by (simp add: quinn_ok_def)
    from feed_keeps [OF this x(1) that(2,3)] have k: "books_ok M x" "handles_ok x" "feeds ep1 adm out x" by simp_all
    with service_config [OF Q k(1,2) x(2)] show ?thesis using feedsD(3) [OF k(3)] by (simp add: config_def)
  qed
  show ?thesis
  proof (cases "bypasses ep data")
    case True
    with h fd parts show ?thesis by (auto simp: handle_datagram_stages admits_def)
  next
    case False
    obtain sel rl rs where g: "gate D clock now from data ep = Some (sel, ep\<lparr>ep_rate_limiter := rl, ep_replay := rs\<rparr>)"
      by (rule gate_returns [OF parts(3), of D clock now "from" data]) simp
    let ?ep = "ep\<lparr>ep_rate_limiter := rl, ep_replay := rs\<rparr>"
    have b: "books_ok M ?ep" "handles_ok ?ep"
      using parts books_ok_cong [of ?ep ep M] handles_ok_cong [of ?ep ep] by (simp_all add: live_def)
    have "ep_replay ep' = rs"
    proof (cases sel)
      case None
      with h g False have "ep' = ?ep" by (simp add: handle_datagram_stages)
      then show ?thesis by simp
    next
      case (Some i)
      with h g False obtain client :: client_crypto where "fed D iter now from data (Some i)
          (?ep\<lparr>ep_inner := qe_set_server_config D (Some (cl_server_config client)) (ep_inner ?ep)\<rparr>) = Some (out, ep')"
        by (auto simp: handle_datagram_stages bind_eq_Some_conv [of "nth_opt _ _"])
      moreover have "books_ok M (?ep\<lparr>ep_inner := qe_set_server_config D (Some (cl_server_config client)) (ep_inner ?ep)\<rparr>)"
        using Q b(1) mints_freshD(4) [of D M] by (simp add: books_ok_def quinn_ok_def)
      moreover have "handles_ok (?ep\<lparr>ep_inner := qe_set_server_config D (Some (cl_server_config client)) (ep_inner ?ep)\<rparr>)"
        using b(2) by (subst handles_ok_cong [of _ ?ep]) simp_all
      ultimately show ?thesis using fd by fastforce
    qed
    with g show ?thesis by auto
  qed
qed

lemma ep_exec_step:
  assumes "quinn_ok D iter W M" "endpoint_ok M ep" "unat (ep_next_generation ep) + 1 < 2 ^ 64"
    and "ep_exec D iter ep op = Some (out, ep')"
  shows "endpoint_ok M ep'" "advances ep ep'"
proof -
  have "ep_next_generation ep \<noteq> - 1" using assms(3) by (auto simp: unsigned_minus_1_eq_mask mask_eq_exp_minus_1)
  from ep_exec_keeps [OF assms(1,2) this, of op] assms(4) show "endpoint_ok M ep'" "advances ep ep'" by auto
qed

lemma ep_exec_replay:
  assumes Q: "quinn_ok D iter W M" and ok: "endpoint_ok M ep" and e: "ep_exec D iter ep op = Some (out, ep')"
  shows "ep_replay ep' = ep_replay ep \<or> (\<exists>t k n f. op_minute op = Some t \<and> k < length (ep_replay ep)
     \<and> ep_replay ep' = (ep_replay ep)[k := snd (check_and_record (ep_replay ep ! k) n f t)])"
proof (cases op)
  case (Datagram clock now "from" data)
  with e have h: "handle_datagram D iter clock now from data ep = Some (case out of OutDatagram r \<Rightarrow> r | _ \<Rightarrow> Dropped, ep')"
    by auto
  have "filter_ok ep" using ok by (simp add: endpoint_ok_def)
  with handle_datagram_replay [OF Q ok h] gate_replay [of ep D clock now "from" data] Datagram show ?thesis by fastforce
next
  case (PollTransmit now)
  have sv: "ep_replay ep1 = ep_replay ep" if "service_connections D iter now ep = Some ep1" for ep1
    using service_config [OF Q _ _ that] ok by (simp add: endpoint_ok_def config_def)
  have po: "ep_replay (snd (pop_outbound x)) = ep_replay x" for x by (simp add: pop_outbound_def split: list.splits)
  show ?thesis
  proof (cases "ep_outbound ep")
    case Nil
    then obtain ep1 where "service_connections D iter now ep = Some ep1" "ep' = snd (pop_outbound ep1)"
      using e PollTransmit by (auto simp: poll_transmit_def pop_outbound_def [of ep] case_prod_beta)
    then show ?thesis using sv po [of ep1] by simp
  next
    case (Cons t ts)
    with e PollTransmit po [of ep] show ?thesis by (auto simp: poll_transmit_def pop_outbound_def)
  qed
next
  case PollEvent
  with e show ?thesis by (auto simp: poll_event_def split: list.splits)
next
  case (HandleTimeout now)
  let ?ep = "ep\<lparr>ep_connections := map (\<lambda>(ch, s). (ch, expire D now s)) (ep_connections ep)\<rparr>"
  have "endpoint_ok M ?ep" using ok endpoint_ok_cong(1) [of ?ep ep M] by (simp add: config_def o_def case_prod_beta)
  with e HandleTimeout service_config [OF Q, of ?ep now ep'] show ?thesis
    by (auto simp: handle_timeout_def endpoint_ok_def config_def)
next
  case (StreamOp ch cop)
  with e show ?thesis by (auto simp: put_conn_def split: option.splits)
next
  case (CloseConn ch now code reason)
  with e show ?thesis by (auto simp: upd_conn_def)
qed

text \<open>A guard keeps an entry that is still inside the window of a later minute.\<close>

lemma run_remembers:
  assumes Q: "quinn_ok D iter W M"
  shows "endpoint_ok M ep \<Longrightarrow> unat (ep_next_generation ep) + length ops < 2 ^ 64 \<Longrightarrow>
    run_opt (ep_exec D iter) ep ops = Some (outs, ep') \<Longrightarrow> i < length (ep_replay ep) \<Longrightarrow> (n, f) \<in> rg_seen (ep_replay ep ! i) \<Longrightarrow>
    is_fresh f t WINDOW_MINUTES \<Longrightarrow> \<forall>op\<in>set ops. \<forall>u. op_minute op = Some u \<longrightarrow> u \<le> t \<Longrightarrow>
    (n, f) \<in> rg_seen (ep_replay ep' ! i)"
proof (induction ops arbitrary: ep outs)
  case (Cons op ops)
  from Cons.prems(3) obtain out outs1 ep1 where
    e: "ep_exec D iter ep op = Some (out, ep1)" and r: "run_opt (ep_exec D iter) ep1 ops = Some (outs1, ep')"
    by (auto simp: bind_eq_Some_conv)
  have "unat (ep_next_generation ep) + 1 < 2 ^ 64" using Cons.prems(2) by simp
  then have k: "endpoint_ok M ep1" "advances ep ep1" using ep_exec_step [OF Q Cons.prems(1) _ e] by simp_all
  have w: "rg_window (ep_replay ep ! i) = WINDOW_MINUTES"
    using Cons.prems(1,4) by (simp add: endpoint_ok_def filter_ok_def)
  have live: "replay_live (ep_replay ep ! i) (n, f) u" if "u \<le> t" for u
    using that is_fresh_lower [OF Cons.prems(6)] rg.live_earlier [of "ep_replay ep ! i" "(n, f)" t u] w
    by (simp add: replay_live_def)
  have s1: "(n, f) \<in> rg_seen (ep_replay ep1 ! i) \<and> i < length (ep_replay ep1)"
    using ep_exec_replay [OF Q Cons.prems(1) e]
  proof
    assume "ep_replay ep1 = ep_replay ep"
    with Cons.prems(4,5) show ?thesis by simp
  next
    assume "\<exists>u k n' f'. op_minute op = Some u \<and> k < length (ep_replay ep)
     \<and> ep_replay ep1 = (ep_replay ep)[k := snd (check_and_record (ep_replay ep ! k) n' f' u)]"
    then obtain u k n' f' where u: "op_minute op = Some u" "k < length (ep_replay ep)"
      "ep_replay ep1 = (ep_replay ep)[k := snd (check_and_record (ep_replay ep ! k) n' f' u)]" by blast
    then have "u \<le> t" using Cons.prems(7) by simp
    with rg.keeps_live [OF Cons.prems(5) live, of u "(n', f')"] u Cons.prems(4,5) show ?thesis
      by (cases "k = i") (auto simp: replay_check_def)
  qed
  have "unat (ep_next_generation ep1) + length ops < 2 ^ 64" using Cons.prems(2) k(2) by (simp add: advances_def)
  with Cons.IH [OF k(1) _ r] s1 Cons.prems(6,7) show ?case by simp
qed simp

text \<open>
  C4. A selector opens at most one connection: once a datagram has been admitted, no datagram with the
  same DCID is admitted again, for any client, whatever happens in between, as long as the wall clock
  did not run ahead of the later sighting in between.
\<close>

theorem selector_admitted_once:
  assumes Q: "quinn_ok D iter W M" and B: "blake3_ok (blake3 D)" and ok: "endpoint_ok M ep"
    and a: "admits D clock now from data ep i"
    and r: "run_opt (ep_exec D iter) ep (Datagram clock now from data # ops) = Some (outs, ep')"
    and ng: "unat (ep_next_generation ep) + length ops + 1 < 2 ^ 64"
    and mono: "\<forall>op\<in>set ops. \<forall>u. op_minute op = Some u \<longrightarrow> u \<le> now_minutes clock'"
    and same: "peek_dcid data' = peek_dcid data"
  shows "\<not> admits D clock' now' from' data' ep' j"
proof
  assume a': "admits D clock' now' from' data' ep' j"
  have f: "filter_ok ep" using ok by (simp add: endpoint_ok_def)
  obtain out ep1 outs1 where 1: "handle_datagram D iter clock now from data ep = Some (out, ep1)"
    "ep_exec D iter ep (Datagram clock now from data) = Some (OutDatagram out, ep1)"
    "run_opt (ep_exec D iter) ep1 ops = Some (outs1, ep')" using r by (auto simp: bind_eq_Some_conv)
  have k1: "endpoint_ok M ep1" "advances ep ep1" using ep_exec_step [OF Q ok _ 1(2)] ng by simp_all
  then have ng1: "unat (ep_next_generation ep1) + length ops < 2 ^ 64" using ng by (simp add: advances_def)
  from run_keeps [OF Q k1(1) ng1] 1(3) have k2: "endpoint_ok M ep'" "evolves ep1 ep'" by auto
  then have f': "filter_ok ep'" by (simp add: endpoint_ok_def)
  have cls: "ep_clients ep' = ep_clients ep" using k1(2) k2(2) by (simp add: advances_def evolves_def)
  obtain g where g: "gate D clock now from data ep = Some (Some i, g)" using a by (auto simp: admits_def)
  obtain n f where nf: "carries D clock data (psk_of ep i) n f" "\<forall>k<i. \<not> carries D clock data (psk_of ep k) n f"
    "(n, f) \<in> rg_seen (ep_replay g ! i)" using gate_admits(3) [OF B f g] by blast
  obtain g' where "gate D clock' now' from' data' ep' = Some (Some j, g')" using a' by (auto simp: admits_def)
  then obtain n' f' where nf': "carries D clock' data' (psk_of ep j) n' f'"
    "\<forall>k<j. \<not> carries D clock' data' (psk_of ep k) n' f'" "(n', f') \<notin> rg_seen (ep_replay ep' ! j)"
    using gate_admits(3) [OF B f'] cls by fastforce
  have eq: "n' = n" "f' = f" using carries_same [OF B nf'(1) nf(1) same] by simp_all
  have swap: "carries D clock' data' k n f \<longleftrightarrow> carries D clock data k n f" for k
    using nf(1) nf'(1) same unfolding eq carries_def by simp
  have ij: "i = j" using nf nf' swap unfolding eq by (metis linorder_neqE_nat)
  have "ep_replay ep1 = ep_replay g" using handle_datagram_replay [OF Q ok 1(1)] a g by auto
  then have "(n, f) \<in> rg_seen (ep_replay ep1 ! i)" "i < length (ep_replay ep1)"
    using nf(3) gate_admits(1,2) [OF B f g] f by (simp_all add: filter_ok_def)
  moreover have "is_fresh f (now_minutes clock') WINDOW_MINUTES" using nf'(1) eq by (simp add: carries_def)
  ultimately have "(n, f) \<in> rg_seen (ep_replay ep' ! i)" using run_remembers [OF Q k1(1) ng1 1(3)] mono by blast
  with nf'(3) eq ij show False by simp
qed

text \<open>A fresh limiter lets a first packet through.\<close>

lemma limiter_new_grants: "\<exists>rl'. check limiter_new src now = Some (True, rl')"
proof -
  have rep: "lru_rep limiter_new []" unfolding limiter_new_def by (rule lru_rep_new)
  have g: "fst (try_take (rl_global limiter_new) now)"
    by (simp add: try_take_def refill_def limiter_new_def with_params_def bucket_new_def DEFAULT_GLOBAL_CAPACITY_def)
  have "fst (try_take (source_bucket limiter_new src) now)"
    by (simp add: source_bucket_def fresh_bucket_def buckets_def try_take_def refill_def limiter_new_def with_params_def bucket_new_def
        DEFAULT_PER_SOURCE_CAPACITY_def)
  with check_granted_globally [OF rep g, of src] show ?thesis by auto
qed

lemma sample_admits: "admits sample_deps (Some 0) now from sample_dial sample_server 0"
proof -
  let ?D = sample_deps
  have f: "filter_ok sample_server" using new_server_ok(1) [OF new_sample_server] by (simp add: endpoint_ok_def)
  obtain rl where rl: "check (ep_rate_limiter sample_server) (sa_ip from) now = Some (True, rl)" "limiter_ok rl"
    using limiter_new_grants [of "sa_ip from" now] check_returns [OF limiter_ok_default, of "sa_ip from" now]
    by (auto simp: sample_server_def endpoint_literal_def)
  let ?ep = "sample_server\<lparr>ep_rate_limiter := rl\<rparr>"
  have f1: "filter_ok ?ep" using f rl by (simp add: filter_ok_def)
  have s: "length (ep_clients sample_server) = 1" "psk_of sample_server 0 = sample_key" "rg_seen (ep_replay sample_server ! 0) = {}"
    by (simp_all add: sample_server_def endpoint_literal_def sample_secrets_def client_crypto_of_def replay_new_def)
  have "is_fresh 0 (now_minutes (Some 0)) WINDOW_MINUTES" by (simp add: is_fresh_nat now_minutes_def)
  then have "carries ?D (Some 0) sample_dial sample_key sample_nonce 0"
    using peek_sample_dial length_sample_nonce by (simp add: carries_def)
  then have "\<exists>ep'. prefilter ?D (Some 0) sample_dial ?ep = Some (Some 0, ep')"
    unfolding prefilter_admits_iff [OF sample_blake3_ok f1] using s by auto
  moreover have "\<not> bypasses sample_server sample_dial"
    by (simp add: bypasses_def is_active_dcid_def sample_server_def endpoint_literal_def split: option.splits)
  ultimately show ?thesis using rl by (simp add: admits_def gate_def)
qed

text \<open>Witness: the sample client's first datagram, replayed from another address.\<close>

theorem selector_admitted_once_witness:
  "\<exists>outs ep'. run_opt (ep_exec sample_deps (\<lambda>hs. hs)) sample_server [Datagram (Some 0) 0 (AddrV4 9 9) sample_dial] = Some (outs, ep')
     \<and> \<not> admits sample_deps (Some 0) 1 (AddrV4 8 8) sample_dial ep' 0"
proof -
  have ok: "endpoint_ok sample_drawn sample_server" "ep_next_generation sample_server = 1"
    using new_server_ok(1,3) [OF new_sample_server] by simp_all
  then obtain outs ep' where r: "run_opt (ep_exec sample_deps (\<lambda>hs. hs)) sample_server [Datagram (Some 0) 0 (AddrV4 9 9) sample_dial] = Some (outs, ep')"
    using run_keeps [OF sample_quinn_ok ok(1), of "[Datagram (Some 0) 0 (AddrV4 9 9) sample_dial]"] by auto
  have "\<not> admits sample_deps (Some 0) 1 (AddrV4 8 8) sample_dial ep' 0"
    by (rule selector_admitted_once [OF sample_quinn_ok sample_blake3_ok ok(1) sample_admits r]) (simp_all add: ok(2))
  with r show ?thesis by blast
qed

section \<open>Attribution\<close>

text \<open>
  C5. Every new connection of a server is attributed to the key that opened it: when a datagram leaves
  behind a connection that was not there before, the outcome names it, the datagram carried a fresh
  selector built with the key of one configured client, and \<open>client_id\<close> answers that client's identity.
\<close>

theorem new_connection_attributed:
  assumes Q: "quinn_ok D iter W M" and B: "blake3_ok (blake3 D)" and ok: "endpoint_ok M ep"
    and h: "handle_datagram D iter clock now from data ep = Some (out, ep')"
    and new: "conn_mut ep' ch = Some s" "conn_mut ep ch = None"
  shows "ep_role ep = RoleServer \<and> out = Accepted ch \<and> (\<exists>i n f. i < length (ep_clients ep) \<and> length n = 8
     \<and> peek_dcid data = Some (build_dcid (blake3 D) (psk_of ep i) n f)
     \<and> is_fresh f (now_minutes clock) WINDOW_MINUTES
     \<and> client_id ep' ch = Some (cl_client_id (ep_clients ep ! i)))"
proof -
  have parts: "books_ok M ep" "handles_ok ep" "filter_ok ep" using ok by (simp_all add: endpoint_ok_def)
  have lv: "ch \<in> live ep'" "ch \<notin> live ep"
    using new by (auto simp: conn_mut_def live_def map_of_eq_None_iff intro: rev_image_eqI dest: map_of_SomeD)
  have D: "mints_fresh D M" "iter_ok iter" using Q by (simp_all add: quinn_ok_def)
  have fd: "out = Accepted ch \<and> (\<exists>i<length (ep_clients x). adm = Some i \<and> ep_role x = RoleServer
      \<and> ep_client_ids ep' ch = Some (cl_client_id (ep_clients x ! i)))"
    if "fed D iter now from data adm x = Some (out, ep')" "books_ok M x" "handles_ok x" "ch \<notin> live x" for adm x
  proof -
    from that(1) obtain y where y: "feed D now from data adm x = Some (out, y)" "service_connections D iter now y = Some ep'"
      by (auto simp: fed_def bind_eq_Some_conv)
    have k: "books_ok M y" "handles_ok y" "feeds x adm out y" using feed_keeps [OF D(1) y(1) that(2,3)] by simp_all
    note sv = service_connections_keeps [OF D(1,2) y(2) k(1,2)]
    have "ch \<in> live y" using sv(5) lv(1) by blast
    with feedsD(9,10) [OF k(3) this that(4)] sv(9) [OF lv(1)] show ?thesis by simp
  qed
  show ?thesis
  proof (cases "bypasses ep data")
    case True
    with h fd [of None ep] parts lv show ?thesis by (simp add: handle_datagram_stages)
  next
    case False
    obtain sel rl rs where g: "gate D clock now from data ep = Some (sel, ep\<lparr>ep_rate_limiter := rl, ep_replay := rs\<rparr>)"
      by (rule gate_returns [OF parts(3), of D clock now "from" data]) simp
    let ?ep = "ep\<lparr>ep_rate_limiter := rl, ep_replay := rs\<rparr>"
    show ?thesis
    proof (cases sel)
      case None
      with h g False have "ep' = ?ep" by (simp add: handle_datagram_stages)
      with lv show ?thesis by (simp add: live_def)
    next
      case (Some i)
      with h g False obtain client :: client_crypto where "fed D iter now from data (Some i)
          (?ep\<lparr>ep_inner := qe_set_server_config D (Some (cl_server_config client)) (ep_inner ?ep)\<rparr>) = Some (out, ep')"
        by (auto simp: handle_datagram_stages bind_eq_Some_conv [of "nth_opt _ _"])
      moreover let ?ep2 = "?ep\<lparr>ep_inner := qe_set_server_config D (Some (cl_server_config client)) (ep_inner ?ep)\<rparr>"
      have "books_ok M ?ep2"
        using parts(1) mints_freshD(4) [OF D(1)] books_ok_cong [of ?ep ep M] by (simp add: books_ok_def live_def)
      moreover have "handles_ok ?ep2" using parts(2) by (subst handles_ok_cong [of _ ep]) simp_all
      ultimately have "out = Accepted ch \<and> ep_role ep = RoleServer \<and> ep_client_ids ep' ch = Some (cl_client_id (ep_clients ep ! i))"
        using fd [of "Some i" ?ep2] lv(2) by (auto simp: live_def)
      with gate_admits(1,3) [OF B parts(3) g [unfolded Some]] show ?thesis by (auto simp: client_id_def carries_def)
    qed
  qed
qed

text \<open>Servicing the sample's idle connection changes nothing of it.\<close>

lemma sample_service:
  assumes "ep_connections ep = [(ch, conn_new idle_conn)]"
  shows "\<exists>ep'. service_connections sample_deps (\<lambda>hs. hs) now ep = Some ep' \<and> ep_connections ep' = [(ch, conn_new idle_conn)]"
proof -
  let ?ep = "ep\<lparr>ep_last_service := Some now\<rparr>"
  have poll: "poll_ee sample_deps ch ?ep = (None, ?ep)"
    using assms by (simp add: poll_ee_def upd_conn_def sample_deps_def sample_quinn_def quinn_conn.defs idle_conn_def conn_new_def)
  have route: "route_events sample_deps ?ep ch = Some ?ep" unfolding route_events_def by (rule while_some_stop) (rule poll)
  have "poll_conn sample_deps (conn_new idle_conn, progress_default) = (None, (conn_new idle_conn, progress_default))"
    by (simp add: poll_conn_def sample_deps_def sample_quinn_def quinn_conn.defs idle_conn_def conn_new_def)
  then have streams: "service_streams sample_deps (conn_new idle_conn) = Some (progress_default, conn_new idle_conn)"
    unfolding service_streams_def by (simp add: while_some_stop)
  have drain: "drain_transmits sample_deps now idle_conn [] = Some ([], idle_conn)"
    by (subst drain_transmits.simps) (simp add: sample_deps_def sample_quinn_def quinn_conn.defs idle_conn_def)
  have nd: "\<not> is_drained sample_deps (conn_new idle_conn)"
    by (simp add: is_drained_def sample_deps_def sample_quinn_def quinn_conn.defs idle_conn_def conn_new_def)
  have cl: "clear_dirty (conn_new idle_conn) = conn_new idle_conn" by (simp add: clear_dirty_def conn_new_def)
  have conn: "cs_conn (conn_new idle_conn) = idle_conn" "(conn_new idle_conn)\<lparr>cs_conn := idle_conn\<rparr> = conn_new idle_conn"
    by (simp_all add: conn_new_def)
  have one: "service_one sample_deps now \<lparr>ps_ep = ?ep, ps_events = [], ps_transmits = [], ps_lost = []\<rparr> ch =
      Some \<lparr>ps_ep = ?ep\<lparr>ep_connections := [(ch, conn_new idle_conn)]\<rparr>, ps_events = [], ps_transmits = [], ps_lost = []\<rparr>"
    using assms streams drain nd cl by (simp add: service_one_def conn progress_events_def progress_default_def)
  show ?thesis using assms route one by (simp add: service_connections_def)
qed

lemma sample_dial_accepted:
  "\<exists>ep' s. handle_datagram sample_deps (\<lambda>hs. hs) (Some 0) now from sample_dial sample_server =
     Some (Accepted (ConnectionHandle 0 1), ep') \<and> conn_mut ep' (ConnectionHandle 0 1) = Some s"
proof -
  have f: "filter_ok sample_server" using new_server_ok(1) [OF new_sample_server] by (simp add: endpoint_ok_def)
  obtain sel rl rs where "gate sample_deps (Some 0) now from sample_dial sample_server =
      Some (sel, sample_server\<lparr>ep_rate_limiter := rl, ep_replay := rs\<rparr>)"
    by (rule gate_returns [OF f, of sample_deps "Some 0" now "from" sample_dial]) simp
  with sample_admits [of now "from"] have g: "gate sample_deps (Some 0) now from sample_dial sample_server =
      Some (Some 0, sample_server\<lparr>ep_rate_limiter := rl, ep_replay := rs\<rparr>)" and nb: "\<not> bypasses sample_server sample_dial"
    by (auto simp: admits_def)
  let ?ep = "sample_server\<lparr>ep_rate_limiter := rl, ep_replay := rs\<rparr>"
  have s: "ep_connections ?ep = []" "ep_clients ?ep = map (client_crypto_of [1] [2]) (ss_clients sample_secrets)" "ep_role ?ep = RoleServer"
    "ep_next_generation ?ep = 1" "ep_inner ?ep = 0"
    by (simp_all add: sample_server_def endpoint_literal_def)
  have c: "nth_opt (ep_clients ?ep) 0 = Some (client_crypto_of [1] [2] \<lparr>ce_client_id = ''a'', ce_psk = Psk sample_key\<rparr>)"
    by (simp add: s nth_opt_def sample_secrets_def)
  have h: "qe_handle sample_deps now from d e = (Some (QNewConnection ()), [], [], e)"
    "qe_accept sample_deps i now e = (Some (0, idle_conn), [], [replicate e 0], Suc e)"
    "qe_set_server_config sample_deps sc e = e" for d e i sc
    by (simp_all add: sample_deps_def quinn_conn.defs)
  have ca: "checked_add (1 :: u64) 1 = Some 2" by (simp add: checked_add_def)
  obtain x where x: "feed sample_deps now from sample_dial (Some 0) ?ep = Some (Accepted (ConnectionHandle 0 1), x)"
    "ep_connections x = [(ConnectionHandle 0 1, conn_new idle_conn)]"
    using s c ca by (auto simp: feed_def h mint_all_def admit_def allocate_handle_def Let_def)
  with sample_service [OF x(2), of now] g nb c s(5) show ?thesis
    by (auto simp: handle_datagram_stages fed_def h conn_mut_def)
qed

text \<open>Witness: the sample client's connection is attributed to it.\<close>

theorem new_connection_attributed_witness:
  "\<exists>out ep'. handle_datagram sample_deps (\<lambda>hs. hs) (Some 0) 0 (AddrV4 9 9) sample_dial sample_server = Some (out, ep')
     \<and> (\<exists>i<1. client_id ep' (ConnectionHandle 0 1) = Some (cl_client_id (ep_clients sample_server ! i)))"
proof -
  obtain ep' s where h: "handle_datagram sample_deps (\<lambda>hs. hs) (Some 0) 0 (AddrV4 9 9) sample_dial sample_server =
     Some (Accepted (ConnectionHandle 0 1), ep')" "conn_mut ep' (ConnectionHandle 0 1) = Some s"
    using sample_dial_accepted by blast
  have n: "conn_mut sample_server (ConnectionHandle 0 1) = None" "length (ep_clients sample_server) = 1"
    by (simp_all add: conn_mut_def sample_server_def endpoint_literal_def sample_secrets_def)
  from new_connection_attributed [OF sample_quinn_ok sample_blake3_ok new_server_ok(1) [OF new_sample_server] h n(1)] h n(2)
  show ?thesis by auto
qed

end
