(* ===== verification/Lifecycle.thy ===== *)
theory Lifecycle
  imports Sessions
begin

text \<open>
  Tables, handles, losses, timers and the client side of the endpoint, along runs and passes.
\<close>

section \<open>Tables\<close>

lemma live_conn_mut: "ch \<in> live ep \<longleftrightarrow> conn_mut ep ch \<noteq> None"
  by (simp add: live_def conn_mut_def mem_fst_iff_map_of)

text \<open>
  C6. A server never stops working and its tables never lie: from start-up every run of fewer than
  \<open>2^64 - 1\<close> operations returns (no drain hangs, no index, \<open>expect\<close> or counter panics), and afterwards no
  connection ID is unattributed, the routing set is exactly what live connections own, no ID has two
  owners, the slab table names live connections only, every live connection has an identity and no
  dead one has, and with no connection left the routing set is empty again.
\<close>

theorem server_runs_and_tables_hold:
  assumes "new_server B inner secrets = Inr ep" and Q: "quinn_ok D iter W M" and len: "length ops < 2 ^ 64 - 1"
  shows "\<exists>outs ep'. run_opt (ep_exec D iter) ep ops = Some (outs, ep') \<and> length outs = length ops
    \<and> pending_cids ep' = [] \<and> issued_cids ep' = (\<Union>(ch, s)\<in>set (ep_connections ep'). owned_cids ep' ch)
    \<and> (\<forall>ch ch'. ch \<noteq> ch' \<longrightarrow> owned_cids ep' ch \<inter> owned_cids ep' ch' = {})
    \<and> distinct (map fst (ep_connections ep'))
    \<and> (\<forall>q ch. ep_by_quinn ep' q = Some ch \<longrightarrow> quinn ch = q \<and> conn_mut ep' ch \<noteq> None)
    \<and> (\<forall>ch. client_id ep' ch \<noteq> None \<longleftrightarrow> conn_mut ep' ch \<noteq> None)
    \<and> (ep_connections ep' = [] \<longrightarrow> issued_cid_count ep' = 0)"
proof -
  have ok: "endpoint_ok M ep" "ep_next_generation ep = 1" "ep_role ep = RoleServer"
    using new_server_ok(1-3) [OF assms(1)] by simp_all
  have "unat (ep_next_generation ep) + length ops < 2 ^ 64" using len ok(2) by simp
  from run_keeps [OF Q ok(1) this] obtain outs ep' where
    r: "run_opt (ep_exec D iter) ep ops = Some (outs, ep')" "length outs = length ops"
    and k: "endpoint_ok M ep'" "evolves ep ep'" by blast
  have b: "books_ok M ep'" "handles_ok ep'" "pending_cids ep' = []" and role: "ep_role ep' = RoleServer"
    using k ok(3) by (simp_all add: endpoint_ok_def evolves_def)
  have rest: "cids.at_rest (live ep') ep'" using b by (auto simp: cids.at_rest_def books_ok_def)
  have iss: "issued_cids ep' = (\<Union>ch\<in>live ep'. owned_cids ep' ch)" by (rule cids.routes_at_rest [OF rest])
  then have "issued_cids ep' = (\<Union>(ch, s)\<in>set (ep_connections ep'). owned_cids ep' ch)"
    by (auto simp: live_def)
  moreover have "owned_cids ep' ch \<inter> owned_cids ep' ch' = {}" if "ch \<noteq> ch'" for ch ch'
    using b(1) that by (intro cids.one_owner) (simp_all add: books_ok_def)
  moreover have "distinct (map fst (ep_connections ep'))" using b(2) by (simp add: handles_ok_def strict_sorted_iff)
  moreover have "\<forall>q ch. ep_by_quinn ep' q = Some ch \<longrightarrow> quinn ch = q \<and> conn_mut ep' ch \<noteq> None"
    using b(2) unfolding live_conn_mut [symmetric] by (simp add: handles_ok_def)
  moreover have "client_id ep' ch \<noteq> None \<longleftrightarrow> conn_mut ep' ch \<noteq> None" for ch
    using b(2) role unfolding live_conn_mut [symmetric] by (auto simp: handles_ok_def client_id_def)
  moreover have "issued_cid_count ep' = 0" if "ep_connections ep' = []"
    using iss that by (simp add: issued_cid_count_def live_def)
  ultimately show ?thesis using r b(3) by blast
qed

text \<open>Witness: the sample client dials, then the server is polled.\<close>

theorem server_runs_and_tables_hold_witness:
  "\<exists>outs ep'. run_opt (ep_exec sample_deps (\<lambda>hs. hs)) sample_server
     [Datagram (Some 0) 0 (AddrV4 9 9) sample_dial, PollTransmit 1] = Some (outs, ep') \<and> length outs = 2"
  using server_runs_and_tables_hold [OF new_sample_server sample_quinn_ok, of "[Datagram (Some 0) 0 (AddrV4 9 9) sample_dial, PollTransmit 1]"]
  by auto

text \<open>
  C7. A stale handle never comes back to life: a handle that was issued before and whose connection is
  gone addresses nothing after any further run, even if quinn reuses its slab slot; and while a
  connection lives its identity does not change.
\<close>

theorem stale_handle_stays_dead:
  assumes Q: "quinn_ok D iter W M" and ok: "endpoint_ok M ep"
    and r: "run_opt (ep_exec D iter) ep ops = Some (outs, ep')" and ng: "unat (ep_next_generation ep) + length ops < 2 ^ 64"
    and issued: "generation ch < ep_next_generation ep"
  shows "(conn_mut ep ch = None \<longrightarrow> conn_mut ep' ch = None \<and> client_id ep' ch = None)
    \<and> (conn_mut ep' ch \<noteq> None \<longrightarrow> client_id ep' ch = client_id ep ch)"
proof -
  have k: "endpoint_ok M ep'" "evolves ep ep'" using run_keeps [OF Q ok ng] r by auto
  have dead: "ch \<notin> live ep'" if "ch \<notin> live ep"
    using k(2) that issued unfolding evolves_def by (metis DiffI leD)
  have "dom (ep_client_ids ep') \<subseteq> live ep'" using k(1) by (auto simp: endpoint_ok_def handles_ok_def split: if_splits)
  then have "ch \<notin> live ep \<longrightarrow> ch \<notin> live ep' \<and> ep_client_ids ep' ch = None" using dead by blast
  moreover have "ch \<in> live ep' \<longrightarrow> ep_client_ids ep' ch = ep_client_ids ep ch"
    using dead k(2) by (auto simp: evolves_def)
  ultimately show ?thesis by (auto simp: live_conn_mut client_id_def)
qed

text \<open>Witness: a handle of generation 0 on the sample server.\<close>

theorem stale_handle_stays_dead_witness:
  "\<exists>outs ep'. run_opt (ep_exec sample_deps (\<lambda>hs. hs)) sample_server [Datagram (Some 0) 0 (AddrV4 9 9) sample_dial] = Some (outs, ep')
     \<and> conn_mut ep' (ConnectionHandle 0 0) = None"
proof -
  have ok: "endpoint_ok sample_drawn sample_server" "ep_next_generation sample_server = 1" "ep_connections sample_server = []"
    using new_server_ok(1,3,5) [OF new_sample_server] by simp_all
  obtain outs ep' where r: "run_opt (ep_exec sample_deps (\<lambda>hs. hs)) sample_server [Datagram (Some 0) 0 (AddrV4 9 9) sample_dial] = Some (outs, ep')"
    using run_keeps [OF sample_quinn_ok ok(1), of "[Datagram (Some 0) 0 (AddrV4 9 9) sample_dial]"] ok(2) by auto
  with stale_handle_stays_dead [OF sample_quinn_ok ok(1) r, of "ConnectionHandle 0 0"] ok show ?thesis
    by (simp add: conn_mut_def)
qed

section \<open>Losses\<close>

lemma live_fold_reap: "live (fold reap ls ep) = live ep - fst ` set ls"
  by (induction ls arbitrary: ep) (auto simp: live_reap)

lemma fold_reap_tables:
  "distinct (map fst ls) \<Longrightarrow> fst ` set ls \<subseteq> live ep \<Longrightarrow>
     ep_client_ids (fold reap ls ep) = (\<lambda>ch. if ch \<in> fst ` set ls then None else ep_client_ids ep ch)
   \<and> ep_by_quinn (fold reap ls ep) = (\<lambda>q. if q \<in> quinn ` fst ` set ls then None else ep_by_quinn ep q)
   \<and> owned_cids (fold reap ls ep) = (\<lambda>ch. if ch \<in> fst ` set ls then {} else owned_cids ep ch)
   \<and> issued_cids (fold reap ls ep) = issued_cids ep - (\<Union>ch\<in>fst ` set ls. owned_cids ep ch)
   \<and> pending_cids (fold reap ls ep) = pending_cids ep"
proof (induction ls arbitrary: ep)
  case (Cons l ls)
  obtain ch reason where l: "l = (ch, reason)" by (cases l)
  then obtain c where c: "map_of (ep_connections ep) ch = Some c"
    using Cons.prems by (auto simp: live_def mem_fst_iff_map_of)
  have "owned_cids (reap l ep) = owned_cids (prune_connection_cids ch ep)" "issued_cids (reap l ep) = issued_cids (prune_connection_cids ch ep)"
    using l c by (auto simp: reap_def Let_def owned_cids_def prune_connection_cids_def fun_eq_iff split: option.splits)
  then have 1: "owned_cids (reap l ep) = (owned_cids ep)(ch := {})" "issued_cids (reap l ep) = issued_cids ep - owned_cids ep ch"
    by (simp_all add: owned_prune issued_prune)
  have 2: "ep_client_ids (reap l ep) = (ep_client_ids ep)(ch := None)" "ep_by_quinn (reap l ep) = (ep_by_quinn ep)(quinn ch := None)"
    using l c by (simp_all add: reap_def Let_def)
  have n: "ch \<notin> fst ` set ls" "distinct (map fst ls)" using Cons.prems(1) l by simp_all
  have "fst ` set ls \<subseteq> live (reap l ep)" using Cons.prems l n(1) by (auto simp: live_reap)
  note ih = Cons.IH [OF n(2) this]
  have "(\<Union>x\<in>fst ` set ls. owned_cids (reap l ep) x) = (\<Union>x\<in>fst ` set ls. owned_cids ep x)"
    using n(1) by (intro SUP_cong) (auto simp: 1)
  moreover have "fst l = ch" using l by simp
  ultimately show ?case using ih n(1) by (auto simp: 1 2 reap_keeps fun_eq_iff)
qed simp

text \<open>Routing a connection's endpoint events only adds connection IDs, all attributed.\<close>

lemma issued_mint_all: "issued_cids (mint_all cs ep) = issued_cids ep \<union> set cs" "owned_cids (mint_all cs ep) = owned_cids ep"
  unfolding mint_all_def by (induction cs arbitrary: ep) auto

lemma route_events_grows:
  assumes "route_events D ep ch = Some ep'"
  shows "(\<forall>c. owned_cids ep c \<subseteq> owned_cids ep' c) \<and> issued_cids ep \<subseteq> issued_cids ep' \<and> (pending_cids ep = [] \<longrightarrow> pending_cids ep' = [])"
  using assms unfolding route_events_def
proof (rule while_some_invariant [where I = "\<lambda>u. (\<forall>c. owned_cids ep c \<subseteq> owned_cids u c) \<and> issued_cids ep \<subseteq> issued_cids u
    \<and> (pending_cids ep = [] \<longrightarrow> pending_cids u = [])"])
  have poll: "owned_cids u' = owned_cids u" "issued_cids u' = issued_cids u" "pending_cids u' = pending_cids u"
    if "poll_ee D ch u = (x, u')" for u x u'
    using that by (auto simp: poll_ee_def fun_eq_iff owned_cids_def split: option.splits prod.splits)
  have up: "owned_cids (upd_conn ch f u) = owned_cids u" for f u by (simp add: fun_eq_iff owned_cids_def)
  show "(\<forall>c. owned_cids ep c \<subseteq> owned_cids u' c) \<and> issued_cids ep \<subseteq> issued_cids u' \<and> (pending_cids ep = [] \<longrightarrow> pending_cids u' = [])"
    if "(\<forall>c. owned_cids ep c \<subseteq> owned_cids u c) \<and> issued_cids ep \<subseteq> issued_cids u \<and> (pending_cids ep = [] \<longrightarrow> pending_cids u = [])"
      "poll_ee D ch u = (None, u')" for u u'
    using that poll [OF that(2)] by simp
  show "(\<forall>c. owned_cids ep c \<subseteq> owned_cids v c) \<and> issued_cids ep \<subseteq> issued_cids v \<and> (pending_cids ep = [] \<longrightarrow> pending_cids v = [])"
    if "(\<forall>c. owned_cids ep c \<subseteq> owned_cids u c) \<and> issued_cids ep \<subseteq> issued_cids u \<and> (pending_cids ep = [] \<longrightarrow> pending_cids u = [])"
      "poll_ee D ch u = (Some x, u')" "route_ee D ch x u' = Some v" for u x u' v
  proof -
    have v: "\<forall>c. owned_cids u' c \<subseteq> owned_cids v c" "issued_cids u' \<subseteq> issued_cids v" "pending_cids v = []"
      using that(3) by (auto simp: route_ee_def Let_def up owned_drain issued_mint_all split: prod.splits option.splits)
    with that(1) poll [OF that(2)] show ?thesis by simp blast
  qed
qed simp

lemma route_all_grows:
  "fold_opt (route_events D) ep hs = Some ep' \<Longrightarrow>
     (\<forall>c. owned_cids ep c \<subseteq> owned_cids ep' c) \<and> issued_cids ep \<subseteq> issued_cids ep' \<and> (pending_cids ep = [] \<longrightarrow> pending_cids ep' = [])"
proof (induction hs arbitrary: ep)
  case (Cons h hs)
  then obtain ep1 where ep1: "route_events D ep h = Some ep1" "fold_opt (route_events D) ep1 hs = Some ep'"
    by (auto simp: bind_eq_Some_conv)
  with Cons.IH [OF ep1(2)] route_events_grows [OF ep1(1)] show ?case by blast
qed simp

text \<open>The service loop: one connection is looked at once, and lost as its progress or quinn's state says.\<close>

definition loses :: "('c, 'v, 'n, 'z) quinn_conn_scheme \<Rightarrow> 'c conn_state \<Rightarrow> connection_error \<Rightarrow> bool" where
  "loses Q c r \<longleftrightarrow> (\<exists>p c1. service_streams Q c = Some (p, c1)
     \<and> (cp_lost p = Some r \<or> cp_lost p = None \<and> is_drained Q c1 \<and> r = LocallyClosed))"

lemma service_one_lost:
  assumes "service_one D now p ch = Some p'"
  shows "\<exists>l. ps_lost p' = ps_lost p @ l \<and> length l \<le> 1 \<and> fst ` set l \<subseteq> {ch}
      \<and> (\<forall>r. (ch, r) \<in> set l \<longleftrightarrow> (\<exists>c. map_of (ep_connections (ps_ep p)) ch = Some c \<and> loses D c r))"
    and "\<exists>es. ps_events p' = ps_events p @ es \<and> (\<forall>e\<in>set es. \<forall>c r. e \<noteq> ConnectionLost c r)"
    and "h \<noteq> ch \<Longrightarrow> map_of (ep_connections (ps_ep p')) h = map_of (ep_connections (ps_ep p)) h"
proof -
  have pe: "e \<noteq> ConnectionLost c r" if "e \<in> set (progress_events ch pr)" for e c r pr
    using that by (auto simp: progress_events_def split: if_splits)
  have one: "length (lost_of D ch pr s1) \<le> 1" for pr s1 by (simp add: lost_of_def split: option.splits)
  have "(\<exists>l. ps_lost p' = ps_lost p @ l \<and> length l \<le> 1 \<and> fst ` set l \<subseteq> {ch}
      \<and> (\<forall>r. (ch, r) \<in> set l \<longleftrightarrow> (\<exists>c. map_of (ep_connections (ps_ep p)) ch = Some c \<and> loses D c r)))
    \<and> (\<exists>es. ps_events p' = ps_events p @ es \<and> (\<forall>e\<in>set es. \<forall>c r. e \<noteq> ConnectionLost c r))
    \<and> (h \<noteq> ch \<longrightarrow> map_of (ep_connections (ps_ep p')) h = map_of (ep_connections (ps_ep p)) h)"
  proof (cases "map_of (ep_connections (ps_ep p)) ch")
    case None
    with assms show ?thesis by (simp add: service_one_def)
  next
    case (Some s)
    obtain pr s1 out c where s1: "service_streams D s = Some (pr, s1)" "drain_transmits D now (cs_conn s1) [] = Some (out, c)"
      and p': "p' = \<lparr>ps_ep = (ps_ep p)\<lparr>ep_connections := AList.map_entry ch (\<lambda>_. clear_dirty (s1\<lparr>cs_conn := c\<rparr>)) (ep_connections (ps_ep p))\<rparr>,
        ps_events = ps_events p @ progress_events ch pr, ps_transmits = ps_transmits p @ out,
        ps_lost = ps_lost p @ lost_of D ch pr s1\<rparr>" by (rule service_oneE [OF assms Some])
    have "(ch, r) \<in> set (lost_of D ch pr s1) \<longleftrightarrow> loses D s r" for r
      using s1(1) by (auto simp: loses_def lost_of_def split: option.splits if_splits)
    with Some one fst_lost_of [of D ch pr s1] pe show ?thesis
      by (auto simp: p' map_of_map_entry intro!: exI [of _ "lost_of D ch pr s1"] exI [of _ "progress_events ch pr"])
  qed
  then show "\<exists>l. ps_lost p' = ps_lost p @ l \<and> length l \<le> 1 \<and> fst ` set l \<subseteq> {ch}
      \<and> (\<forall>r. (ch, r) \<in> set l \<longleftrightarrow> (\<exists>c. map_of (ep_connections (ps_ep p)) ch = Some c \<and> loses D c r))"
    and "\<exists>es. ps_events p' = ps_events p @ es \<and> (\<forall>e\<in>set es. \<forall>c r. e \<noteq> ConnectionLost c r)"
    and "h \<noteq> ch \<Longrightarrow> map_of (ep_connections (ps_ep p')) h = map_of (ep_connections (ps_ep p)) h" by blast+
qed

lemma service_all_lost:
  assumes "fold_opt (service_one D now) p hs = Some p'" "distinct (map fst (ps_lost p) @ hs)"
    "\<forall>e\<in>set (ps_events p). \<forall>c r. e \<noteq> ConnectionLost c r"
  shows "distinct (map fst (ps_lost p')) \<and> (\<forall>e\<in>set (ps_events p'). \<forall>c r. e \<noteq> ConnectionLost c r)
    \<and> (\<forall>ch r. (ch, r) \<in> set (ps_lost p') \<longleftrightarrow> (ch, r) \<in> set (ps_lost p)
         \<or> ch \<in> set hs \<and> (\<exists>c. map_of (ep_connections (ps_ep p)) ch = Some c \<and> loses D c r))"
  using assms
proof (induction hs arbitrary: p)
  case (Cons h hs)
  then obtain p1 where p1: "service_one D now p h = Some p1" "fold_opt (service_one D now) p1 hs = Some p'"
    by (auto simp: bind_eq_Some_conv)
  obtain l es where l: "ps_lost p1 = ps_lost p @ l" "length l \<le> 1" "fst ` set l \<subseteq> {h}"
    and lr: "\<forall>r. (h, r) \<in> set l \<longleftrightarrow> (\<exists>c. map_of (ep_connections (ps_ep p)) h = Some c \<and> loses D c r)"
    and es: "ps_events p1 = ps_events p @ es" "\<forall>e\<in>set es. \<forall>c r. e \<noteq> ConnectionLost c r"
    using service_one_lost(1,2) [OF p1(1)] by blast
  have "l = [] \<or> (\<exists>r. l = [(h, r)])" using l(2,3) by (cases l) auto
  then have d: "distinct (map fst (ps_lost p1) @ hs)" using Cons.prems(2) l(1) by (elim disjE exE) simp_all
  have same: "map_of (ep_connections (ps_ep p1)) ch = map_of (ep_connections (ps_ep p)) ch" if "ch \<in> set hs" for ch
    using service_one_lost(3) [OF p1(1), of ch] that Cons.prems(2) by fastforce
  have sl: "(ch, r) \<in> set l \<longleftrightarrow> ch = h \<and> (\<exists>c. map_of (ep_connections (ps_ep p)) h = Some c \<and> loses D c r)" for ch r
    using l(3) lr by force
  have "\<forall>e\<in>set (ps_events p1). \<forall>c r. e \<noteq> ConnectionLost c r" using es Cons.prems(3) by auto
  note ih = Cons.IH [OF p1(2) d this]
  have "(ch, r) \<in> set (ps_lost p') \<longleftrightarrow> (ch, r) \<in> set (ps_lost p)
      \<or> ch \<in> set (h # hs) \<and> (\<exists>c. map_of (ep_connections (ps_ep p)) ch = Some c \<and> loses D c r)" for ch r
    using ih [THEN conjunct2, THEN conjunct2, rule_format, of ch r] same [of ch]
    by (cases "ch \<in> set hs") (simp_all add: l(1) sl, blast+)
  with ih show ?case by blast
qed simp

text \<open>
  What a servicing pass adds to the event queue, which connections it takes away, and what is left of the tables;
  \<open>ep1\<close> is the endpoint after its first step, the routing of endpoint events.
\<close>

lemma service_pass:
  assumes D: "mints_fresh D M" "iter_ok iter" and parts: "books_ok M ep" "handles_ok ep"
    and s: "service_connections D iter now ep = Some ep'"
  obtains ep1 evs lost where
    "fold_opt (route_events D) (ep\<lparr>ep_last_service := Some now\<rparr>) (iter (map fst (ep_connections ep))) = Some ep1"
    "live ep1 = live ep" "\<forall>ch. owned_cids ep ch \<subseteq> owned_cids ep1 ch" "issued_cids ep \<subseteq> issued_cids ep1"
    "ep_events ep' = ep_events ep @ evs @ map (\<lambda>(ch, reason). ConnectionLost ch reason) lost"
    "\<forall>e\<in>set evs. (\<forall>c r. e \<noteq> ConnectionLost c r) \<and> event_conn e \<in> live ep" "distinct (map fst lost)"
    "\<forall>ch r. (ch, r) \<in> set lost \<longleftrightarrow> (\<exists>c. conn_mut ep1 ch = Some c \<and> loses D c r)"
    "live ep' = live ep - fst ` set lost"
    "ep_client_ids ep' = (\<lambda>ch. if ch \<in> fst ` set lost then None else ep_client_ids ep ch)"
    "ep_by_quinn ep' = (\<lambda>q. if q \<in> quinn ` fst ` set lost then None else ep_by_quinn ep q)"
    "owned_cids ep' = (\<lambda>ch. if ch \<in> fst ` set lost then {} else owned_cids ep1 ch)"
    "pending_cids ep = [] \<longrightarrow> issued_cids ep' = issued_cids ep1 - (\<Union>ch\<in>fst ` set lost. owned_cids ep1 ch)"
proof -
  let ?ep0 = "ep\<lparr>ep_last_service := Some now\<rparr>" and ?hs = "iter (map fst (ep_connections ep))"
  obtain ep1 p where
    1: "fold_opt (route_events D) ?ep0 ?hs = Some ep1" and
    2: "fold_opt (service_one D now) \<lparr>ps_ep = ep1, ps_events = [], ps_transmits = [], ps_lost = []\<rparr> ?hs = Some p" and
    3: "ep' = refresh_next_timeout D (sweep_orphan_cids (fold reap (ps_lost p)
       ((ps_ep p)\<lparr>ep_events := ep_events (ps_ep p) @ ps_events p, ep_outbound := ep_outbound (ps_ep p) @ ps_transmits p\<rparr>)))"
    by (rule service_connectionsE [OF s])
  let ?ep2 = "(ps_ep p)\<lparr>ep_events := ep_events (ps_ep p) @ ps_events p, ep_outbound := ep_outbound (ps_ep p) @ ps_transmits p\<rparr>"
  have l0: "live ?ep0 = live ep" and b0: "books_ok M ?ep0" and o0: "owned_cids ?ep0 = owned_cids ep"
    using parts(1) books_ok_cong [of ?ep0 ep M] by (simp_all add: live_def fun_eq_iff owned_cids_def)
  have hs: "set ?hs = live ep" "distinct ?hs"
    using D(2) parts(2) by (simp_all add: iter_ok_def live_def handles_ok_def strict_sorted_iff)
  have grows: "\<forall>ch. owned_cids ep ch \<subseteq> owned_cids ep1 ch" "issued_cids ep \<subseteq> issued_cids ep1"
    "pending_cids ep = [] \<Longrightarrow> pending_cids ep1 = []"
    using route_all_grows [OF 1] by (simp_all add: o0)
  have fr1: "frame ep1 = frame ?ep0" using route_all_keeps [OF D(1) 1 b0] hs l0 by simp
  have st: "staged ep1 p" by (rule service_all_staged [OF 2]) (simp add: staged_def)
  have fr: "frame (ps_ep p) = frame ?ep0" "live ep1 = live ep" using st fr1 frame_live [OF fr1] l0 by (simp_all add: staged_def)
  have lost: "distinct (map fst (ps_lost p))" "\<forall>e\<in>set (ps_events p). \<forall>c r. e \<noteq> ConnectionLost c r"
    "\<forall>ch r. (ch, r) \<in> set (ps_lost p) \<longleftrightarrow> ch \<in> live ep \<and> (\<exists>c. conn_mut ep1 ch = Some c \<and> loses D c r)"
    using service_all_lost [OF 2] hs by (simp_all add: conn_mut_def)
  have in_live: "conn_mut ep1 ch = Some c \<Longrightarrow> ch \<in> live ep" for ch c using live_conn_mut [of ch ep1] fr(2) by simp
  have l2: "live ?ep2 = live ep" using frame_live [OF fr(1)] l0 by (simp add: live_def)
  have sub: "fst ` set (ps_lost p) \<subseteq> live ?ep2" "event_conn ` set (ps_events p) \<subseteq> live ep"
    using st fr(2) l2 by (simp_all add: staged_def)
  have eq2: "owned_cids ?ep2 = owned_cids ep1" "issued_cids ?ep2 = issued_cids ep1" "pending_cids ?ep2 = pending_cids ep1"
    "ep_client_ids ?ep2 = ep_client_ids ep" "ep_by_quinn ?ep2 = ep_by_quinn ep"
    using st fr(1) by (simp_all add: staged_def frame_def fun_eq_iff owned_cids_def)
  note tables = fold_reap_tables [OF lost(1) sub(1), unfolded eq2]
  have r: "owned_cids (refresh_next_timeout D x) = owned_cids x" "issued_cids (refresh_next_timeout D x) = issued_cids x"
    "ep_by_quinn (refresh_next_timeout D x) = ep_by_quinn x" for x
    by (simp_all add: refresh_next_timeout_def fun_eq_iff owned_cids_def)
  have ev: "ep_events ep' = ep_events ep @ ps_events p @ map (\<lambda>(ch, reason). ConnectionLost ch reason) (ps_lost p)"
    using fold_reap_events [OF lost(1) sub(1)] fr(1) by (simp add: 3 frame_def)
  have lv: "live ep' = live ep - fst ` set (ps_lost p)"
    using l2 by (simp add: 3 live_fold_reap)
  show thesis
    by (rule that [OF 1 fr(2) grows(1,2) ev _ lost(1) _ lv]) (use lost(2,3) sub l2 in_live tables grows(3) in \<open>auto simp: 3 r\<close>)
qed

lemma service_pass_events:
  assumes D: "mints_fresh D M" "iter_ok iter" and parts: "books_ok M ep" "handles_ok ep"
    and s: "service_connections D iter now ep = Some ep'"
  obtains evs lost where
    "ep_events ep' = ep_events ep @ evs @ map (\<lambda>(ch, reason). ConnectionLost ch reason) lost"
    "\<forall>e\<in>set evs. (\<forall>c r. e \<noteq> ConnectionLost c r) \<and> event_conn e \<in> live ep" "distinct (map fst lost)"
    "fst ` set lost \<subseteq> live ep" "live ep' = live ep - fst ` set lost"
proof (rule service_pass [OF assms])
  fix ep1 evs lost
  assume a: "live ep1 = live ep" "ep_events ep' = ep_events ep @ evs @ map (\<lambda>(ch, reason). ConnectionLost ch reason) lost"
    "\<forall>e\<in>set evs. (\<forall>c r. e \<noteq> ConnectionLost c r) \<and> event_conn e \<in> live ep" "distinct (map fst lost)"
    "\<forall>ch r. (ch, r) \<in> set lost \<longleftrightarrow> (\<exists>c. conn_mut ep1 ch = Some c \<and> loses D c r)" "live ep' = live ep - fst ` set lost"
  have "fst ` set lost \<subseteq> live ep" using a(1,5) live_conn_mut [of _ ep1] by fastforce
  with that a show thesis by blast
qed

text \<open>
  C8. Every loss is reported exactly once and cleans up after itself, and nothing else is touched. A servicing pass
  first routes the connections' endpoint events to quinn, which may give connections new IDs and takes none; then
  exactly those connections are lost whose progress reports a loss, with its reason, or which quinn says are
  drained, as closed locally. The event queue gets what the connections reported and then one \<open>ConnectionLost\<close> for
  each of them; they disappear, and with them their identities, the entries of their slab slots and their connection
  IDs, all three exactly: every other connection keeps its identity and all its IDs.
\<close>

theorem losses_reported_once:
  assumes Q: "quinn_ok D iter W M" and ok: "endpoint_ok M ep" and s: "service_connections D iter now ep = Some ep'"
  shows "\<exists>ep1 evs lost.
      fold_opt (route_events D) (ep\<lparr>ep_last_service := Some now\<rparr>) (iter (map fst (ep_connections ep))) = Some ep1
    \<and> (\<forall>ch. conn_mut ep1 ch \<noteq> None \<longleftrightarrow> conn_mut ep ch \<noteq> None)
    \<and> (\<forall>ch. owned_cids ep ch \<subseteq> owned_cids ep1 ch) \<and> issued_cids ep \<subseteq> issued_cids ep1
    \<and> (\<forall>ch r. (ch, r) \<in> set lost \<longleftrightarrow> (\<exists>c p c1. conn_mut ep1 ch = Some c \<and> service_streams D c = Some (p, c1)
         \<and> (cp_lost p = Some r \<or> cp_lost p = None \<and> is_drained D c1 \<and> r = LocallyClosed)))
    \<and> distinct (map fst lost)
    \<and> ep_events ep' = ep_events ep @ evs @ map (\<lambda>(ch, reason). ConnectionLost ch reason) lost
    \<and> (\<forall>e\<in>set evs. (\<forall>c r. e \<noteq> ConnectionLost c r) \<and> conn_mut ep (event_conn e) \<noteq> None)
    \<and> (\<forall>ch. conn_mut ep' ch \<noteq> None \<longleftrightarrow> conn_mut ep ch \<noteq> None \<and> ch \<notin> fst ` set lost)
    \<and> (\<forall>ch. client_id ep' ch = (if ch \<in> fst ` set lost then None else client_id ep ch))
    \<and> (\<forall>q. ep_by_quinn ep' q = (if q \<in> quinn ` fst ` set lost then None else ep_by_quinn ep q))
    \<and> (\<forall>ch. owned_cids ep' ch = (if ch \<in> fst ` set lost then {} else owned_cids ep1 ch))
    \<and> issued_cids ep' = issued_cids ep1 - (\<Union>ch\<in>fst ` set lost. owned_cids ep1 ch)"
proof -
  have D: "mints_fresh D M" "iter_ok iter" using Q by (simp_all add: quinn_ok_def)
  have parts: "books_ok M ep" "handles_ok ep" and pend: "pending_cids ep = []" using ok by (simp_all add: endpoint_ok_def)
  show ?thesis
    by (rule service_pass [OF D parts s])
      (unfold live_conn_mut [symmetric] client_id_def, intro exI conjI, assumption, auto simp: loses_def pend)
qed

text \<open>
  Witness: a server with two connections, of which quinn has drained the first. It is lost, as closed locally, with
  its identity, its slab entry and its ID; the second keeps its own.
\<close>

definition two_connections :: "(sample_conn, nat) endpoint" where
  "two_connections = sample_server\<lparr>ep_inner := 2, ep_next_generation := 3,
     ep_connections := [(ConnectionHandle 0 1, conn_new (idle_conn\<lparr>sm_closed := True\<rparr>)), (ConnectionHandle 1 2, conn_new idle_conn)],
     ep_by_quinn := [0 \<mapsto> ConnectionHandle 0 1, 1 \<mapsto> ConnectionHandle 1 2],
     ep_client_ids := [ConnectionHandle 0 1 \<mapsto> ''a'', ConnectionHandle 1 2 \<mapsto> ''a''],
     issued_cids := {[], [0]}, cids_by_conn := [ConnectionHandle 0 1 \<mapsto> [[]], ConnectionHandle 1 2 \<mapsto> [[0]]]\<rparr>"

lemma two_connections_ok: "endpoint_ok sample_drawn two_connections"
proof -
  have c: "ep_role sample_server = RoleServer" "map cl_client_id (ep_clients sample_server) = [''a'']" "pending_cids sample_server = []"
    by (simp_all add: sample_server_def endpoint_literal_def sample_secrets_def client_crypto_of_def)
  have o: "owned_cids two_connections ch = (if ch = ConnectionHandle 0 1 then {[]} else if ch = ConnectionHandle 1 2 then {[0]} else {})" for ch
    by (simp add: owned_cids_def two_connections_def)
  have f: "issued_cids two_connections = {[], [0]}" "pending_cids two_connections = []" "ep_inner two_connections = 2"
    "live two_connections = {ConnectionHandle 0 1, ConnectionHandle 1 2}"
    using c(3) by (simp_all add: two_connections_def live_def)
  have "sample_drawn 2 = {[], [0]}" by (auto simp: sample_drawn_def lessThan_Suc numeral_2_eq_2)
  then have "books_ok sample_drawn two_connections"
    unfolding books_ok_def registry_ok_def f o by (auto split: if_splits)
  moreover have "''a'' \<in> cl_client_id ` set (ep_clients sample_server)" using c(2) by (metis image_set list.set_intros(1))
  then have "handles_ok two_connections"
    using c(1) by (auto simp: handles_ok_def two_connections_def live_def less_connection_handle_def ran_def)
  moreover have "filter_ok two_connections"
    using new_server_ok(1) [OF new_sample_server, of sample_drawn] by (simp add: endpoint_ok_def filter_ok_def two_connections_def)
  ultimately show ?thesis using c(3) by (simp add: endpoint_ok_def two_connections_def)
qed

lemma sample_quiet_streams:
  assumes "sm_events c = []"
  shows "service_streams sample_deps (conn_new c) = Some (progress_default, conn_new c)"
proof -
  have "c\<lparr>sm_events := []\<rparr> = c" using assms by (cases c) simp
  then have "poll_conn sample_deps (conn_new c, progress_default) = (None, (conn_new c, progress_default))"
    using assms by (simp add: poll_conn_def sample_deps_def sample_quinn_def quinn_conn.defs conn_new_def)
  then show ?thesis unfolding service_streams_def by (simp add: while_some_stop)
qed

lemma map_entry_same: "(\<And>s. map_of al k = Some s \<Longrightarrow> f s = s) \<Longrightarrow> AList.map_entry k f al = al"
  by (induction al) auto

lemma sample_route: "route_events sample_deps ep ch = Some ep"
proof -
  have "poll_ee sample_deps ch ep = (None, ep)"
  proof (cases "map_of (ep_connections ep) ch")
    case (Some s)
    then have "AList.map_entry ch (\<lambda>t. t\<lparr>cs_conn := cs_conn s\<rparr>) (ep_connections ep) = ep_connections ep"
      by (intro map_entry_same) simp
    with Some show ?thesis by (simp add: poll_ee_def upd_conn_def sample_deps_def sample_quinn_def quinn_conn.defs)
  qed (simp add: poll_ee_def)
  then show ?thesis unfolding route_events_def by (rule while_some_stop)
qed

theorem losses_reported_once_witness:
  "\<exists>ep' evs. service_connections sample_deps (\<lambda>hs. hs) 7 two_connections = Some ep'
     \<and> ep_events ep' = evs @ [ConnectionLost (ConnectionHandle 0 1) LocallyClosed]
     \<and> conn_mut ep' (ConnectionHandle 0 1) = None \<and> client_id ep' (ConnectionHandle 0 1) = None \<and> ep_by_quinn ep' 0 = None
     \<and> conn_mut ep' (ConnectionHandle 1 2) \<noteq> None \<and> client_id ep' (ConnectionHandle 1 2) = Some ''a''
     \<and> ep_by_quinn ep' 1 = Some (ConnectionHandle 1 2) \<and> issued_cids ep' = {[0]}"
proof -
  let ?a = "ConnectionHandle 0 1" and ?b = "ConnectionHandle 1 2" and ?ep = "two_connections\<lparr>ep_last_service := Some 7\<rparr>"
  obtain ep' where s: "service_connections sample_deps (\<lambda>hs. hs) 7 two_connections = Some ep'"
    by (rule service_keeps [OF sample_quinn_ok two_connections_ok])
  have keys: "map fst (ep_connections two_connections) = [?a, ?b]" by (simp add: two_connections_def)
  have r: "fold_opt (route_events sample_deps) ?ep [?a, ?b] = Some ?ep"
    by (simp add: sample_route)
  obtain ep1 evs lost where e: "Some ?ep = Some ep1" and
    lost: "\<forall>ch r. (ch, r) \<in> set lost \<longleftrightarrow> (\<exists>c p c1. conn_mut ep1 ch = Some c \<and> service_streams sample_deps c = Some (p, c1)
         \<and> (cp_lost p = Some r \<or> cp_lost p = None \<and> is_drained sample_deps c1 \<and> r = LocallyClosed))" "distinct (map fst lost)"
    and ev: "ep_events ep' = ep_events two_connections @ evs @ map (\<lambda>(ch, reason). ConnectionLost ch reason) lost"
    and cm: "\<forall>ch. conn_mut ep' ch \<noteq> None \<longleftrightarrow> conn_mut two_connections ch \<noteq> None \<and> ch \<notin> fst ` set lost"
    and ids: "\<forall>ch. client_id ep' ch = (if ch \<in> fst ` set lost then None else client_id two_connections ch)"
    and slab: "\<forall>q. ep_by_quinn ep' q = (if q \<in> quinn ` fst ` set lost then None else ep_by_quinn two_connections q)"
    and iss: "issued_cids ep' = issued_cids ep1 - (\<Union>ch\<in>fst ` set lost. owned_cids ep1 ch)"
    using losses_reported_once [OF sample_quinn_ok two_connections_ok s, unfolded keys r] by (elim exE conjE) (rule that; assumption)
  have e: "ep1 = ?ep" using e by simp
  have q: "service_streams sample_deps (conn_new (idle_conn\<lparr>sm_closed := x\<rparr>)) = Some (progress_default, conn_new (idle_conn\<lparr>sm_closed := x\<rparr>))" for x
    by (rule sample_quiet_streams) (simp add: idle_conn_def)
  have q': "service_streams sample_deps (conn_new idle_conn) = Some (progress_default, conn_new idle_conn)"
    by (rule sample_quiet_streams) (simp add: idle_conn_def)
  have dr: "is_drained sample_deps (conn_new c) = sm_closed c" for c
    by (simp add: is_drained_def sample_deps_def sample_quinn_def quinn_conn.defs conn_new_def)
  have no_loss: "cp_lost progress_default = None" "\<not> sm_closed idle_conn" by (simp_all add: progress_default_def idle_conn_def)
  have "set lost = {(?a, LocallyClosed)}"
  proof -
    have "(ch, r) \<in> set lost \<longleftrightarrow> ch = ?a \<and> r = LocallyClosed" for ch r
      unfolding lost(1) [rule_format] e conn_mut_def two_connections_def
      by (auto simp: q q' dr no_loss)
    then show ?thesis by auto
  qed
  with lost(2) have l: "lost = [(?a, LocallyClosed)]" by (cases lost; cases "tl lost") auto
  have "owned_cids ep1 ?a = {[]}" unfolding e by (simp add: owned_cids_def two_connections_def)
  with s ev cm ids slab iss show ?thesis
    by (intro exI [of _ ep'] exI [of _ "ep_events two_connections @ evs"])
      (auto simp: l e conn_mut_def client_id_def two_connections_def)
qed

section \<open>Timers\<close>




section \<open>The client side\<close>

lemma new_client_returns:
  fixes D :: "('c, 'v, 'n, 'e, 'i) deps"
  shows "\<exists>r. new_client D inner crypto_err nonce now minute cfg = Some r"
proof (cases crypto_err)
  case None
  obtain r minted e where c: "qe_connect D now (dial_config D nonce minute cfg) (cf_server cfg) SERVER_NAME inner = (r, minted, e)"
    by (metis surj_pair)
  show ?thesis
  proof (cases r)
    case (Inl x)
    with None c show ?thesis by (simp add: new_client_def)
  next
    case (Inr x)
    obtain q conn where x: "x = (q, conn)" by (cases x)
    let ?ep = "mint_all minted (endpoint_literal RoleClient e [] [] (Some now)) :: ('c, 'e) endpoint"
    have "checked_add (1 :: u64) 1 = Some 2" by (simp add: checked_add_def)
    then have "\<exists>ch ep1. allocate_handle q ?ep = Some (ch, ep1)" by (simp add: allocate_handle_Some endpoint_literal_def)
    with None c Inr x show ?thesis by (auto simp: new_client_def)
  qed
qed (simp add: new_client_def)

lemma new_client_ok:
  assumes Q: "quinn_ok D iter W M"
    and n: "new_client D inner None nonce now minute cfg = Some (Inr (ep, ch))"
  shows "endpoint_ok M ep \<and> map fst (ep_connections ep) = [ch] \<and> ep_outbound ep = [] \<and> ep_events ep = []
    \<and> client_id ep ch = None \<and> ep_role ep = RoleClient \<and> ep_next_generation ep = 2"
proof -
  have D: "mints_fresh D M" using Q by (simp add: quinn_ok_def)
  obtain q conn cs e where c: "qe_connect D now (dial_config D nonce minute cfg) (cf_server cfg) SERVER_NAME inner = (Inr (q, conn), cs, e)"
    using n by (auto simp: new_client_def split: prod.splits sum.splits)
  let ?lit = "endpoint_literal RoleClient inner [] [] (Some now) :: ('a, 'd) endpoint"
  have e0: "endpoint_literal RoleClient e [] [] (Some now) = ?lit\<lparr>ep_inner := e\<rparr>" by (simp add: endpoint_literal_def)
  define ep0 where "ep0 = mint_all cs (?lit\<lparr>ep_inner := e\<rparr>)"
  have lit: "books_ok M ?lit" "handles_ok ?lit" "filter_ok ?lit"
    by (auto simp: endpoint_literal_def books_ok_def registry_ok_def owned_cids_def handles_ok_def filter_ok_def live_def limiter_ok_default)
  have fm: "fresh_mint M (ep_inner ?lit) cs e"
    using mints_freshD(3) [OF D c] by (simp add: endpoint_literal_def)
  have b0: "books_ok M ep0" "handles_ok ep0" using books_mint(1) [OF lit(1) fm] lit(2) by (simp_all add: ep0_def)
  have f0: "ep_connections ep0 = []" "ep_client_ids ep0 = Map.empty" "ep_role ep0 = RoleClient" "ep_outbound ep0 = []" "ep_events ep0 = []"
    "filter_ok ep0" using lit(3) by (simp_all add: ep0_def endpoint_literal_def filter_ok_def)
  obtain g' where g: "checked_add (ep_next_generation ep0) 1 = Some g'" "ch = ConnectionHandle q (ep_next_generation ep0)"
    and ep: "ep = refresh_next_timeout D ((drain_pending_cids ch (ep0\<lparr>ep_next_generation := g', ep_by_quinn := (ep_by_quinn ep0)(q \<mapsto> ch)\<rparr>))
        \<lparr>ep_connections := AList.update ch (conn_new conn) (ep_connections ep0)\<rparr>)"
    using n c by (auto simp: new_client_def e0 ep0_def [symmetric] bind_eq_Some_conv allocate_handle_Some Let_def)
  define x where "x = (drain_pending_cids ch (ep0\<lparr>ep_next_generation := g', ep_by_quinn := (ep_by_quinn ep0)(q \<mapsto> ch)\<rparr>))
        \<lparr>ep_connections := AList.update ch (conn_new conn) (ep_connections ep0)\<rparr>"
  have "registered ep0 ch (conn_new conn) x"
    unfolding registered_def x_def using g by (simp add: drain_cids_by_conn)
  then have x: "ep = refresh_next_timeout D x" "registered ep0 ch (conn_new conn) x" "ep_client_ids x = Map.empty"
      "ep_outbound x = []" "ep_events x = []"
    using ep f0 by (simp_all add: x_def)
  have h: "handles_ok x" by (rule registered_handles_ok [OF x(2) b0(2), of undefined]) (simp_all add: f0 x(3))
  have b: "books_ok M x" "pending_cids x = []" using registered_books [OF x(2) b0] by simp_all
  have "filter_ok x" "ep_role x = RoleClient" using x(2) f0(3,6) by (simp_all add: registered_def filter_ok_def)
  moreover have "ep_role ep = ep_role x" by (simp add: x(1) refresh_next_timeout_def)
  ultimately have ok: "endpoint_ok M ep" "ep_role ep = RoleClient"
    using config_filter_ok [of ep x] h b x(1) by (simp_all add: endpoint_ok_def)
  have g2: "ep_next_generation ep = 2"
    using g(1) by (simp add: x(1) refresh_next_timeout_def x_def ep0_def endpoint_literal_def checked_add_def)
  have "map fst (ep_connections ep) = [ch]" using registered_handle(6) [OF x(2) b0(2)] f0(1) by (simp add: x(1))
  with ok x g2 show ?thesis by (simp add: client_id_def)
qed

text \<open>
  C10. A dialing client starts in order and says nothing of its own: \<open>new_client\<close> either reports an error
  or returns an endpoint that satisfies every invariant, owns exactly the connection whose handle it
  returns and has queued nothing; and from then on feeding it any datagram whatsoever queues no
  endpoint-level response (no stateless reset, no version negotiation), it only hands the datagram to
  quinn.
\<close>

theorem client_never_answers_by_itself:
  assumes Q: "quinn_ok D iter W M"
    and n: "new_client D inner None nonce now minute cfg = Some (Inr (ep, ch))"
  shows "endpoint_ok M ep \<and> map fst (ep_connections ep) = [ch] \<and> ep_outbound ep = [] \<and> ep_events ep = []
    \<and> client_id ep ch = None \<and> ep_role ep = RoleClient
    \<and> (\<forall>ep1 now from data adm out ep2. endpoint_ok M ep1 \<and> ep_role ep1 = RoleClient \<and> feed D now from data adm ep1 = Some (out, ep2)
          \<longrightarrow> ep_outbound ep2 = ep_outbound ep1 \<and> live ep2 = live ep1)"
proof -
  have D: "mints_fresh D M" using Q by (simp add: quinn_ok_def)
  have "ep_outbound ep2 = ep_outbound ep1 \<and> live ep2 = live ep1"
    if "endpoint_ok M ep1" "ep_role ep1 = RoleClient" "feed D now from data adm ep1 = Some (out, ep2)" for ep1 now "from" data adm out ep2
  proof -
    have fd: "feeds ep1 adm out ep2" using feed_keeps [OF D that(3)] that(1) by (simp add: endpoint_ok_def)
    have "ch \<in> live ep1" if "ch \<in> live ep2" for ch using feedsD(10) [OF fd that] \<open>ep_role ep1 = RoleClient\<close> by auto
    with feedsD(5,13) [OF fd] that(2) show ?thesis by blast
  qed
  with new_client_ok [OF Q n] show ?thesis by auto
qed

text \<open>Witness: the sample client dials.\<close>

definition sample_client :: client_config_file where
  "sample_client = \<lparr>cf_client_id = ''a'', cf_psk = Psk sample_key, cf_server = AddrV4 1 1, cf_bind = None\<rparr>"

lemma sample_dials: "\<exists>ep ch. new_client sample_deps 0 None sample_nonce 0 0 sample_client = Some (Inr (ep, ch))"
proof -
  have c: "qe_connect sample_deps now cfg a n e = (Inr (0, idle_conn), [replicate e 0], Suc e)" for now cfg a n e
    by (simp add: sample_deps_def quinn_conn.defs)
  show ?thesis
    using new_client_returns [of sample_deps 0 None sample_nonce 0 0 sample_client] by (auto simp: new_client_def c bind_eq_Some_conv)
qed

theorem client_never_answers_by_itself_witness:
  "\<exists>ep ch. new_client sample_deps 0 None sample_nonce 0 0 sample_client = Some (Inr (ep, ch))
     \<and> endpoint_ok sample_drawn ep \<and> map fst (ep_connections ep) = [ch]"
proof -
  obtain ep ch where n: "new_client sample_deps 0 None sample_nonce 0 0 sample_client = Some (Inr (ep, ch))" using sample_dials by blast
  note t = client_never_answers_by_itself [OF sample_quinn_ok n]
  have "endpoint_ok sample_drawn ep" by (rule conjunct1 [OF t])
  moreover have "map fst (ep_connections ep) = [ch]" by (rule conjunct1 [OF conjunct2 [OF t]])
  ultimately show ?thesis using n by (intro exI conjI)
qed

end
