(* ===== verification/Server.thy ===== *)
theory Server
  imports Parked Lifecycle
begin

text \<open>
  \<open>src/server.rs\<close>: the tokio driver of a server around the sans-IO endpoint, and the connection handle it
  hands out. The driver's state is the endpoint, the parked operations of the connections it has
  surfaced, the connections not yet delivered to \<open>Server::accept\<close>, the two channels it shares with the
  application, and a log of everything it has done to the outside: datagrams sent, replies fired or
  dropped, close reasons published, connections delivered. Clocks and the socket are arguments.
\<close>

section \<open>Handles and channels\<close>

text \<open>
  A \<open>Connection\<close>: its command sender is tagged with \<open>cn_handle\<close>, and its close receiver watches the
  parked state of \<open>cn_handle\<close>.
\<close>

record connection =
  cn_remote :: socket_addr
  cn_handle :: connection_handle
  cn_client_id :: "string option"

record tagged =
  tg_handle :: connection_handle
  tg_cmd :: cmd

datatype effect =
    SendTo socket_addr bytes
  | Answer answer
  | CloseReason connection_handle connection_error
  | Delivered connection

definition MAX_DATAGRAM :: nat where "MAX_DATAGRAM = 65535"
definition ACCEPT_CHANNEL_CAP :: nat where "ACCEPT_CHANNEL_CAP = 32"
definition CMD_CHANNEL_CAP :: nat where "CMD_CHANNEL_CAP = 256"

text \<open>One hour, in nanoseconds.\<close>

definition IDLE_SLEEP :: instant where "IDLE_SLEEP = 3600 * 1000000000"

section \<open>The driver\<close>

record ('c, 'e) driver =
  dv_core :: "('c, 'e) endpoint"
  dv_parked :: "(connection_handle \<times> parked) list"
  dv_surfaced :: "connection_handle set"
  dv_accepted :: "connection list"
  dv_accept_cap :: nat
  dv_pending_accept :: "connection list"
  dv_cmds :: "tagged list"
  dv_log :: "effect list"

definition driver_new :: "('c, 'e) endpoint \<Rightarrow> nat \<Rightarrow> ('c, 'e) driver" where
  "driver_new core cap = \<lparr>dv_core = core, dv_parked = [], dv_surfaced = {}, dv_accepted = [], dv_accept_cap = cap,
     dv_pending_accept = [], dv_cmds = [], dv_log = []\<rparr>"

definition emit :: "effect list \<Rightarrow> ('c, 'e) driver \<Rightarrow> ('c, 'e) driver" where
  "emit es d = d\<lparr>dv_log := dv_log d @ es\<rparr>"

text \<open>Both the parked operations and the connection of a handle, if both exist; else nothing happens.\<close>

definition with_conn ::
  "connection_handle \<Rightarrow> (parked \<Rightarrow> 'c conn_state \<Rightarrow> (answer list \<times> parked \<times> 'c conn_state) option)
     \<Rightarrow> answer list \<Rightarrow> ('c, 'e) driver \<Rightarrow> ('c, 'e) driver option" where
  "with_conn ch f otherwise d =
     (case (map_of (dv_parked d) ch, conn_mut (dv_core d) ch) of
        (Some pk, Some s) \<Rightarrow>
          do {
            (outs, pk', s') \<leftarrow> f pk s;
            Some (emit (map Answer outs) (d\<lparr>dv_parked := AList.update ch pk' (dv_parked d),
                    dv_core := put_conn ch s' (dv_core d)\<rparr>))
          }
      | _ \<Rightarrow> Some (emit (map Answer otherwise) d))"

definition surface :: "('c, 'v, 'n, 'e, 'i) deps \<Rightarrow> connection_handle \<Rightarrow> ('c, 'e) driver \<Rightarrow> ('c, 'e) driver" where
  "surface D ch d =
     (if ch \<in> dv_surfaced d then d
      else case conn_mut (dv_core d) ch of
             None \<Rightarrow> d
           | Some s \<Rightarrow>
               d\<lparr>dv_surfaced := insert ch (dv_surfaced d),
                 dv_parked := AList.update ch parked_new (dv_parked d),
                 dv_pending_accept := dv_pending_accept d @
                   [\<lparr>cn_remote = qc_remote_address D (cs_conn s), cn_handle = ch, cn_client_id = client_id (dv_core d) ch\<rparr>]\<rparr>)"

definition on_lost :: "connection_handle \<Rightarrow> connection_error \<Rightarrow> ('c, 'e) driver \<Rightarrow> ('c, 'e) driver" where
  "on_lost ch reason d =
     (let d1 = (case map_of (dv_parked d) ch of
                  None \<Rightarrow> d
                | Some pk \<Rightarrow>
                    let (outs, pk1) = fail_all (mark_closed reason pk)
                    in emit (CloseReason ch reason # map Answer outs) (d\<lparr>dv_parked := AList.delete ch (dv_parked d)\<rparr>))
      in d1\<lparr>dv_surfaced := dv_surfaced d1 - {ch},
            dv_pending_accept := filter (\<lambda>c. cn_handle c \<noteq> ch) (dv_pending_accept d1)\<rparr>)"

fun on_event :: "('c, 'v, 'n, 'e, 'i) deps \<Rightarrow> event \<Rightarrow> ('c, 'e) driver \<Rightarrow> ('c, 'e) driver option" where
  "on_event D (Connected ch) d = Some (surface D ch d)"
| "on_event D (StreamOpened ch i dir) d = with_conn ch (\<lambda>pk s. Some (on_stream_opened D pk s)) [] d"
| "on_event D (StreamReadable ch i) d = with_conn ch (on_readable D i) [] d"
| "on_event D (StreamWritable ch i) d = with_conn ch (on_writable D i) [] d"
| "on_event D (StreamFinAcked ch i) d =
     (case map_of (dv_parked d) ch of
        None \<Rightarrow> Some d
      | Some pk \<Rightarrow>
          let (outs, pk') = on_fin_acked i pk
          in Some (emit (map Answer outs) (d\<lparr>dv_parked := AList.update ch pk' (dv_parked d)\<rparr>)))"
| "on_event D (StreamStopped ch i code) d = with_conn ch (on_stopped D i code) [] d"
| "on_event D (ConnectionLost ch reason) d = Some (on_lost ch reason d)"

text \<open>A command for a connection that is gone is dropped, and its sender with it.\<close>

fun dropped_replies :: "cmd \<Rightarrow> answer list" where
  "dropped_replies (OpenBi r) = [SenderDropped r]"
| "dropped_replies (AcceptBi r) = [SenderDropped r]"
| "dropped_replies (Write i bs r) = [SenderDropped r]"
| "dropped_replies (Finish i r) = [SenderDropped r]"
| "dropped_replies (WaitFinished i r) = [SenderDropped r]"
| "dropped_replies (ResetCmd i code r) = [SenderDropped r]"
| "dropped_replies (StopCmd i code r) = [SenderDropped r]"
| "dropped_replies (ReleaseSend i) = []"
| "dropped_replies (ReadToEnd i limit r) = [SenderDropped r]"
| "dropped_replies (ReadCmd i m r) = [SenderDropped r]"
| "dropped_replies (CloseCmd code reason) = []"

definition on_command ::
  "('c, 'v, 'n, 'e, 'i) deps \<Rightarrow> instant \<Rightarrow> tagged \<Rightarrow> ('c, 'e) driver \<Rightarrow> ('c, 'e) driver option" where
  "on_command D now t d =
     with_conn (tg_handle t) (apply_cmd D now (tg_cmd t)) (dropped_replies (tg_cmd t)) d"

section \<open>The pump\<close>

text \<open>The two inner loops carry the flag \<open>progressed\<close>.\<close>

definition next_event :: "bool \<times> ('c, 'e) driver \<Rightarrow> event option \<times> bool \<times> ('c, 'e) driver" where
  "next_event = (\<lambda>(progressed, d). let (e, core) = poll_event (dv_core d) in (e, progressed, d\<lparr>dv_core := core\<rparr>))"

definition react ::
  "('c, 'v, 'n, 'e, 'i) deps \<Rightarrow> event \<Rightarrow> bool \<times> ('c, 'e) driver \<Rightarrow> (bool \<times> ('c, 'e) driver) option" where
  "react D e = (\<lambda>(progressed, d). map_option (Pair True) (on_event D e d))"

definition drain_events ::
  "('c, 'v, 'n, 'e, 'i) deps \<Rightarrow> bool \<times> ('c, 'e) driver \<Rightarrow> (bool \<times> ('c, 'e) driver) option" where
  "drain_events D = while_some next_event (react D)"

partial_function (option) flush ::
  "('c, 'v, 'n, 'e, 'i) deps \<Rightarrow> order \<Rightarrow> instant \<Rightarrow> ('c, 'e) endpoint \<Rightarrow> transmit list \<Rightarrow> (transmit list \<times> ('c, 'e) endpoint) option" where
  "flush D iter now core sent =
     Option.bind (poll_transmit D iter now core) (\<lambda>(t, core').
       case t of None \<Rightarrow> Some (sent, core') | Some tr \<Rightarrow> flush D iter now core' (sent @ [tr]))"

definition send_to :: "transmit \<Rightarrow> effect" where
  "send_to t = SendTo (destination t) (contents t)"

definition flush_transmits ::
  "('c, 'v, 'n, 'e, 'i) deps \<Rightarrow> order \<Rightarrow> instant \<Rightarrow> bool \<times> ('c, 'e) driver \<Rightarrow> (bool \<times> ('c, 'e) driver) option" where
  "flush_transmits D iter now = (\<lambda>(progressed, d).
     do {
       (sent, core) \<leftarrow> flush D iter now (dv_core d) [];
       Some (progressed \<or> sent \<noteq> [], emit (map send_to sent) (d\<lparr>dv_core := core\<rparr>))
     })"

text \<open>\<open>clk n\<close> is what the clock reads at the start of the \<open>n\<close>-th round.\<close>

partial_function (option) pump ::
  "('c, 'v, 'n, 'e, 'i) deps \<Rightarrow> order \<Rightarrow> (nat \<Rightarrow> instant) \<Rightarrow> ('c, 'e) driver \<Rightarrow> ('c, 'e) driver option" where
  "pump D iter clk d =
     Option.bind (drain_events D (False, d)) (\<lambda>pd.
       Option.bind (flush_transmits D iter (clk 0) pd) (\<lambda>(progressed, d2).
         if progressed then pump D iter (\<lambda>n. clk (Suc n)) d2 else Some d2))"

section \<open>The event loop\<close>

definition sleep_deadline :: "instant \<Rightarrow> ('c, 'e) driver \<Rightarrow> instant" where
  "sleep_deadline now d = (case next_timeout (dv_core d) of Some t \<Rightarrow> t | None \<Rightarrow> now + IDLE_SLEEP)"

text \<open>
  What can happen to a driver: the arms of its \<open>select!\<close>, each followed by a pump (an arm that is not
  enabled does not happen), and what the application does at the other end of the channels: take a
  connection, enqueue a command.
\<close>

datatype driver_op =
    Recv "nat option" instant socket_addr bytes "nat \<Rightarrow> instant"
  | RecvFails "nat \<Rightarrow> instant"
  | NextCommand instant "nat \<Rightarrow> instant"
  | Timer instant instant "nat \<Rightarrow> instant"
  | Deliver "nat \<Rightarrow> instant"
  | AppAccept
  | AppSend tagged

definition deliver :: "('c, 'e) driver \<Rightarrow> ('c, 'e) driver" where
  "deliver d =
     (case dv_pending_accept d of
        [] \<Rightarrow> d
      | conn # rest \<Rightarrow>
          if length (dv_accepted d) < dv_accept_cap d
          then emit [Delivered conn] (d\<lparr>dv_pending_accept := rest, dv_accepted := dv_accepted d @ [conn]\<rparr>)
          else d)"

fun driver_exec ::
  "('c, 'v, 'n, 'e, 'i) deps \<Rightarrow> order \<Rightarrow> ('c, 'e) driver \<Rightarrow> driver_op \<Rightarrow> ('c, 'e) driver option" where
  "driver_exec D iter d (Recv clock now from data clk) =
     do {
       (outcome, core) \<leftarrow> handle_datagram D iter clock now from (take MAX_DATAGRAM data) (dv_core d);
       pump D iter clk (d\<lparr>dv_core := core\<rparr>)
     }"
| "driver_exec D iter d (RecvFails clk) = pump D iter clk d"
| "driver_exec D iter d (NextCommand now clk) =
     (case dv_cmds d of
        [] \<Rightarrow> Some d
      | t # ts \<Rightarrow> do { d1 \<leftarrow> on_command D now t (d\<lparr>dv_cmds := ts\<rparr>); pump D iter clk d1 })"
| "driver_exec D iter d (Timer armed now clk) =
     (if sleep_deadline armed d \<le> now
      then do { core \<leftarrow> handle_timeout D iter now (dv_core d); pump D iter clk (d\<lparr>dv_core := core\<rparr>) }
      else Some d)"
| "driver_exec D iter d (Deliver clk) =
     (if dv_pending_accept d \<noteq> [] \<and> length (dv_accepted d) < dv_accept_cap d then pump D iter clk (deliver d) else Some d)"
| "driver_exec D iter d AppAccept = Some (d\<lparr>dv_accepted := tl (dv_accepted d)\<rparr>)"
| "driver_exec D iter d (AppSend t) =
     (if length (dv_cmds d) < CMD_CHANNEL_CAP then Some (d\<lparr>dv_cmds := dv_cmds d @ [t]\<rparr>) else Some d)"

text \<open>
  When the \<open>Server\<close> is dropped the task returns: every sender it still holds is dropped, and with it the
  connections that were never delivered.
\<close>

definition parked_senders :: "parked \<Rightarrow> reply list" where
  "parked_senders pk = pk_pending_accepts pk @ map (\<lambda>(i, p). pw_reply p) (pk_blocked_writes pk)
     @ map (\<lambda>(i, p). pr_reply p) (pk_pending_reads pk) @ concat (map snd (pk_fin_waiters pk))"

definition driver_drop :: "('c, 'e) driver \<Rightarrow> ('c, 'e) driver" where
  "driver_drop d =
     emit (map Answer (map SenderDropped (concat (map (\<lambda>(ch, pk). parked_senders pk) (dv_parked d)))
         @ concat (map (\<lambda>t. dropped_replies (tg_cmd t)) (dv_cmds d))))
       (d\<lparr>dv_parked := [], dv_surfaced := {}, dv_pending_accept := [], dv_cmds := []\<rparr>)"

section \<open>Binding\<close>

text \<open>
  An \<open>io::Error\<close> by its kind and message. \<open>bound\<close> is what binding the socket answers: the error, or the
  local address.
\<close>

datatype io_error = IoOther string | IoInvalidInput string

fun config_error_display :: "config_error \<Rightarrow> string" where
  "config_error_display (Io m) = ''io: '' @ m"
| "config_error_display (Parse m) = ''parse: '' @ m"
| "config_error_display (Invalid m) = ''invalid configuration: '' @ m"

definition bind_with_capacity ::
  "(socket_addr \<Rightarrow> io_error + socket_addr) \<Rightarrow> build_env \<Rightarrow> 'e \<Rightarrow> server_secrets \<Rightarrow> nat \<Rightarrow> io_error + socket_addr \<times> ('c, 'e) driver" where
  "bind_with_capacity bound B inner secrets accept_capacity =
     (case bound (ss_listen secrets) of
        Inl e \<Rightarrow> Inl e
      | Inr local_addr \<Rightarrow>
          case new_server B inner secrets of
            Inl e \<Rightarrow> Inl (IoOther (config_error_display e))
          | Inr core \<Rightarrow> Inr (local_addr, driver_new core accept_capacity))"

definition server_bind ::
  "(socket_addr \<Rightarrow> io_error + socket_addr) \<Rightarrow> build_env \<Rightarrow> 'e \<Rightarrow> server_secrets \<Rightarrow> io_error + socket_addr \<times> ('c, 'e) driver" where
  "server_bind bound B inner secrets = bind_with_capacity bound B inner secrets ACCEPT_CHANNEL_CAP"

section \<open>The server's handle\<close>

text \<open>
  A \<open>Server\<close> is its local address and the receiving end of the driver's accept channel. \<open>accept\<close> gives the
  connection that has waited longest, even when the driver has stopped (\<open>running\<close> is false); without one it
  waits, or ends with \<open>None\<close> when nobody can send any more.
\<close>

datatype accept_result = AcceptYields connection | AcceptWaits | AcceptStopped

definition server_local_addr :: "socket_addr \<times> ('c, 'e) driver \<Rightarrow> socket_addr" where
  "server_local_addr s = fst s"

definition server_accept :: "bool \<Rightarrow> ('c, 'e) driver \<Rightarrow> accept_result \<times> ('c, 'e) driver" where
  "server_accept running d =
     (case dv_accepted d of
        conn # rest \<Rightarrow> (AcceptYields conn, d\<lparr>dv_accepted := rest\<rparr>)
      | [] \<Rightarrow> (if running then AcceptWaits else AcceptStopped, d))"

text \<open>What \<open>accept\<close> does to the channel is the driver's \<open>AppAccept\<close>.\<close>

lemma server_accept_exec: "driver_exec D iter d AppAccept = Some (snd (server_accept running d))"
  by (simp add: server_accept_def split: list.split)

end
