(* ===== verification/Handles.thy ===== *)
theory Handles
  imports Server
begin

text \<open>
  \<open>src/conn.rs\<close>, the application's side: \<open>Connection\<close>, \<open>QuinnHandle\<close>, \<open>SendStream\<close> and \<open>RecvStream\<close>. Their
  asynchronous methods are futures: programs that create a oneshot channel, send a command to the driver
  and wait for the reply. A future is data here; the \<open>World\<close> theory runs futures against the drivers.
\<close>

section \<open>Futures\<close>

text \<open>
  \<open>Channel\<close> creates a oneshot channel, \<open>Send\<close> waits until the command channel takes a command (\<open>False\<close>: the
  driver is gone), \<open>Await\<close> waits for what arrives on a oneshot channel. A channel carries one type of
  value; what a future makes of an answer of another type, which the types of the code rule out, is
  \<open>None\<close>.
\<close>

datatype 'a future =
    Ready 'a
  | Channel "reply \<Rightarrow> 'a future"
  | Send tagged "bool \<Rightarrow> 'a future"
  | Await reply "answer \<Rightarrow> 'a future option"

primrec and_then :: "'a future \<Rightarrow> ('a \<Rightarrow> 'b future) \<Rightarrow> 'b future" where
  "and_then (Ready a) g = g a"
| "and_then (Channel f) g = Channel (\<lambda>r. and_then (f r) g)"
| "and_then (Send t f) g = Send t (\<lambda>b. and_then (f b) g)"
| "and_then (Await r f) g = Await r (\<lambda>a. map_option (\<lambda>m. and_then m g) (f a))"

text \<open>\<open>m?\<close> followed by the rest of the method.\<close>

definition try_then :: "('e + 'a) future \<Rightarrow> ('a \<Rightarrow> ('e + 'b) future) \<Rightarrow> ('e + 'b) future" where
  "try_then m g = and_then m (\<lambda>x. case x of Inl e \<Rightarrow> Ready (Inl e) | Inr a \<Rightarrow> g a)"

abbreviation oneshot_channel :: "reply future" where
  "oneshot_channel \<equiv> Channel Ready"

text \<open>\<open>rx.await.map_err(|_| ConnError::Closed)?\<close> at the three types a channel is used at.\<close>

definition await_stream :: "reply \<Rightarrow> (conn_error + stream_id) future" where
  "await_stream r = Await r (\<lambda>a. case a of StreamReply _ x \<Rightarrow> Some (Ready x) | SenderDropped _ \<Rightarrow> Some (Ready (Inl Closed)) | _ \<Rightarrow> None)"

definition await_unit :: "reply \<Rightarrow> (conn_error + unit) future" where
  "await_unit r = Await r (\<lambda>a. case a of UnitReply _ x \<Rightarrow> Some (Ready x) | SenderDropped _ \<Rightarrow> Some (Ready (Inl Closed)) | _ \<Rightarrow> None)"

definition await_bytes :: "reply \<Rightarrow> (conn_error + bytes) future" where
  "await_bytes r = Await r (\<lambda>a. case a of BytesReply _ x \<Rightarrow> Some (Ready x) | SenderDropped _ \<Rightarrow> Some (Ready (Inl Closed)) | _ \<Rightarrow> None)"

section \<open>Command senders\<close>

text \<open>The channel of a \<open>CmdSender\<close> is that of the driver that made it.\<close>

record cmd_sender =
  cmd_handle :: connection_handle

definition cmd_sender_new :: "connection_handle \<Rightarrow> cmd_sender" where
  "cmd_sender_new ch = \<lparr>cmd_handle = ch\<rparr>"

definition cmd_tagged :: "cmd_sender \<Rightarrow> cmd \<Rightarrow> tagged" where
  "cmd_tagged cmds c = \<lparr>tg_handle = cmd_handle cmds, tg_cmd = c\<rparr>"

definition cmd_send :: "cmd_sender \<Rightarrow> cmd \<Rightarrow> (conn_error + unit) future" where
  "cmd_send cmds c = Send (cmd_tagged cmds c) (\<lambda>sent. Ready (if sent then Inr () else Inl Closed))"

text \<open>\<open>try_send\<close> fails, and the command is lost, when the channel is full or the driver gone.\<close>

definition cmd_try_send :: "cmd_sender \<Rightarrow> cmd \<Rightarrow> tagged list \<Rightarrow> bool \<Rightarrow> bool \<times> tagged list" where
  "cmd_try_send cmds c queue running =
     (if running \<and> length queue < CMD_CHANNEL_CAP then (True, queue @ [cmd_tagged cmds c]) else (False, queue))"

section \<open>Streams\<close>

record send_stream =
  tx_id :: stream_id
  tx_cmds :: cmd_sender

record recv_stream =
  rx_id :: stream_id
  rx_cmds :: cmd_sender

definition recv_id :: "recv_stream \<Rightarrow> stream_id" where
  "recv_id rs = rx_id rs"

definition send_id :: "send_stream \<Rightarrow> stream_id" where
  "send_id ss = tx_id ss"

definition bi_stream :: "stream_id \<Rightarrow> cmd_sender \<Rightarrow> send_stream \<times> recv_stream" where
  "bi_stream i cmds = (\<lparr>tx_id = i, tx_cmds = cmds\<rparr>, \<lparr>rx_id = i, rx_cmds = cmds\<rparr>)"

definition read_chunk :: "cmd_sender \<Rightarrow> stream_id \<Rightarrow> usize \<Rightarrow> (conn_error + bytes) future" where
  "read_chunk cmds i m =
     (if m = 0 then Ready (Inr [])
      else and_then oneshot_channel (\<lambda>tx. try_then (cmd_send cmds (ReadCmd i m tx)) (\<lambda>_. await_bytes tx)))"

definition handle_wait_finished :: "cmd_sender \<Rightarrow> stream_id \<Rightarrow> (conn_error + unit) future" where
  "handle_wait_finished cmds i =
     and_then oneshot_channel (\<lambda>tx. try_then (cmd_send cmds (WaitFinished i tx)) (\<lambda>_. await_unit tx))"

definition recv_read :: "recv_stream \<Rightarrow> usize \<Rightarrow> (conn_error + bytes) future" where
  "recv_read rs m = read_chunk (rx_cmds rs) (rx_id rs) m"

definition recv_read_to_end :: "recv_stream \<Rightarrow> usize \<Rightarrow> (conn_error + bytes) future" where
  "recv_read_to_end rs limit =
     and_then oneshot_channel (\<lambda>tx. try_then (cmd_send (rx_cmds rs) (ReadToEnd (rx_id rs) limit tx)) (\<lambda>_. await_bytes tx))"

definition recv_stop :: "('c, 'v, 'n, 'z) quinn_conn_scheme \<Rightarrow> recv_stream \<Rightarrow> u64 \<Rightarrow> (conn_error + unit) future" where
  "recv_stop Q rs code =
     try_then (Ready (varint Q code)) (\<lambda>v.
       and_then oneshot_channel (\<lambda>tx. try_then (cmd_send (rx_cmds rs) (StopCmd (rx_id rs) v tx)) (\<lambda>_. await_unit tx)))"

definition send_write_all :: "send_stream \<Rightarrow> bytes \<Rightarrow> (conn_error + unit) future" where
  "send_write_all ss buf =
     and_then oneshot_channel (\<lambda>tx. try_then (cmd_send (tx_cmds ss) (Write (tx_id ss) buf tx)) (\<lambda>_. await_unit tx))"

definition send_finish :: "send_stream \<Rightarrow> (conn_error + unit) future" where
  "send_finish ss =
     and_then oneshot_channel (\<lambda>tx. try_then (cmd_send (tx_cmds ss) (Finish (tx_id ss) tx)) (\<lambda>_. await_unit tx))"

definition send_wait_finished :: "send_stream \<Rightarrow> (conn_error + unit) future" where
  "send_wait_finished ss = handle_wait_finished (tx_cmds ss) (tx_id ss)"

definition send_finish_and_wait :: "send_stream \<Rightarrow> (conn_error + unit) future" where
  "send_finish_and_wait ss = try_then (send_finish ss) (\<lambda>_. send_wait_finished ss)"

definition send_reset :: "('c, 'v, 'n, 'z) quinn_conn_scheme \<Rightarrow> send_stream \<Rightarrow> u64 \<Rightarrow> (conn_error + unit) future" where
  "send_reset Q ss code =
     try_then (Ready (varint Q code)) (\<lambda>v.
       and_then oneshot_channel (\<lambda>tx. try_then (cmd_send (tx_cmds ss) (ResetCmd (tx_id ss) v tx)) (\<lambda>_. await_unit tx)))"

text \<open>Dropping a \<open>SendStream\<close>.\<close>

definition send_stream_drop :: "send_stream \<Rightarrow> tagged list \<Rightarrow> bool \<Rightarrow> tagged list" where
  "send_stream_drop ss queue running = snd (cmd_try_send (tx_cmds ss) (ReleaseSend (tx_id ss)) queue running)"

section \<open>Connections\<close>

definition connection_remote_address :: "connection \<Rightarrow> socket_addr" where
  "connection_remote_address c = cn_remote c"

definition connection_handle_of :: "connection \<Rightarrow> connection_handle" where
  "connection_handle_of c = cn_handle c"

definition connection_client_id :: "connection \<Rightarrow> string option" where
  "connection_client_id c = cn_client_id c"

definition connection_cmds :: "connection \<Rightarrow> cmd_sender" where
  "connection_cmds c = cmd_sender_new (cn_handle c)"

definition connection_open_bi :: "connection \<Rightarrow> (conn_error + send_stream \<times> recv_stream) future" where
  "connection_open_bi c =
     and_then oneshot_channel (\<lambda>tx. try_then (cmd_send (connection_cmds c) (OpenBi tx)) (\<lambda>_.
       try_then (await_stream tx) (\<lambda>i. Ready (Inr (bi_stream i (connection_cmds c))))))"

definition connection_accept_bi :: "connection \<Rightarrow> (conn_error + send_stream \<times> recv_stream) future" where
  "connection_accept_bi c =
     and_then oneshot_channel (\<lambda>tx. try_then (cmd_send (connection_cmds c) (AcceptBi tx)) (\<lambda>_.
       try_then (await_stream tx) (\<lambda>i. Ready (Inr (bi_stream i (connection_cmds c))))))"

definition connection_close :: "('c, 'v, 'n, 'z) quinn_conn_scheme \<Rightarrow> connection \<Rightarrow> u64 \<Rightarrow> bytes \<Rightarrow> (conn_error + unit) future" where
  "connection_close Q c code reason =
     try_then (Ready (varint Q code)) (\<lambda>v.
       and_then (cmd_send (connection_cmds c) (CloseCmd v reason)) (\<lambda>_. Ready (Inr ())))"

text \<open>
  \<open>closed\<close> over what the watch channel holds and whether its sender still lives: \<open>None\<close> while it waits.
\<close>

definition connection_closed :: "connection_error option \<Rightarrow> bool \<Rightarrow> connection_error option" where
  "connection_closed watched sender_lives =
     (case watched of
        Some reason \<Rightarrow> Some reason
      | None \<Rightarrow> if sender_lives then None else Some LocallyClosed)"

record quinn_handle =
  qh_handle :: connection_handle
  qh_cmds :: cmd_sender

definition quinn_connection :: "connection \<Rightarrow> quinn_handle" where
  "quinn_connection c = \<lparr>qh_handle = cn_handle c, qh_cmds = connection_cmds c\<rparr>"

definition quinn_handle_of :: "quinn_handle \<Rightarrow> connection_handle" where
  "quinn_handle_of h = qh_handle h"

definition quinn_open_bi :: "quinn_handle \<Rightarrow> (conn_error + send_stream \<times> recv_stream) future" where
  "quinn_open_bi h =
     and_then oneshot_channel (\<lambda>tx. try_then (cmd_send (qh_cmds h) (OpenBi tx)) (\<lambda>_.
       try_then (await_stream tx) (\<lambda>i. Ready (Inr (bi_stream i (qh_cmds h))))))"

definition quinn_accept_bi :: "quinn_handle \<Rightarrow> (conn_error + send_stream \<times> recv_stream) future" where
  "quinn_accept_bi h =
     and_then oneshot_channel (\<lambda>tx. try_then (cmd_send (qh_cmds h) (AcceptBi tx)) (\<lambda>_.
       try_then (await_stream tx) (\<lambda>i. Ready (Inr (bi_stream i (qh_cmds h))))))"

definition quinn_finish :: "quinn_handle \<Rightarrow> stream_id \<Rightarrow> (conn_error + unit) future" where
  "quinn_finish h i =
     and_then oneshot_channel (\<lambda>tx. try_then (cmd_send (qh_cmds h) (Finish i tx)) (\<lambda>_. await_unit tx))"

definition quinn_wait_finished :: "quinn_handle \<Rightarrow> stream_id \<Rightarrow> (conn_error + unit) future" where
  "quinn_wait_finished h i = handle_wait_finished (qh_cmds h) i"

definition quinn_finish_and_wait :: "quinn_handle \<Rightarrow> stream_id \<Rightarrow> (conn_error + unit) future" where
  "quinn_finish_and_wait h i = try_then (quinn_finish h i) (\<lambda>_. quinn_wait_finished h i)"

definition quinn_forget_send :: "quinn_handle \<Rightarrow> stream_id \<Rightarrow> unit future" where
  "quinn_forget_send h i = and_then (cmd_send (qh_cmds h) (ReleaseSend i)) (\<lambda>_. Ready ())"

section \<open>Every call an application can make\<close>

text \<open>What a task ends with: the result of a handle method, or of a program made of several.\<close>

datatype app_error = AppConn conn_error | AppMessage string

datatype handle_value =
    VStreams "conn_error + send_stream \<times> recv_stream"
  | VUnit "conn_error + unit"
  | VBytes "conn_error + bytes"
  | VDone
  | VMain "app_error + unit"

datatype handle_call =
    ConnOpenBi connection
  | ConnAcceptBi connection
  | ConnClose connection u64 bytes
  | QuinnOpenBi quinn_handle
  | QuinnAcceptBi quinn_handle
  | QuinnFinish quinn_handle stream_id
  | QuinnWaitFinished quinn_handle stream_id
  | QuinnFinishAndWait quinn_handle stream_id
  | QuinnForgetSend quinn_handle stream_id
  | RecvRead recv_stream usize
  | RecvReadToEnd recv_stream usize
  | RecvStop recv_stream u64
  | SendWriteAll send_stream bytes
  | SendFinish send_stream
  | SendWaitFinished send_stream
  | SendFinishAndWait send_stream
  | SendReset send_stream u64

abbreviation gives :: "('a \<Rightarrow> 'b) \<Rightarrow> 'a future \<Rightarrow> 'b future" where
  "gives v m \<equiv> and_then m (\<lambda>a. Ready (v a))"

fun call_future :: "('c, 'v, 'n, 'z) quinn_conn_scheme \<Rightarrow> handle_call \<Rightarrow> handle_value future" where
  "call_future Q (ConnOpenBi c) = gives VStreams (connection_open_bi c)"
| "call_future Q (ConnAcceptBi c) = gives VStreams (connection_accept_bi c)"
| "call_future Q (ConnClose c code reason) = gives VUnit (connection_close Q c code reason)"
| "call_future Q (QuinnOpenBi h) = gives VStreams (quinn_open_bi h)"
| "call_future Q (QuinnAcceptBi h) = gives VStreams (quinn_accept_bi h)"
| "call_future Q (QuinnFinish h i) = gives VUnit (quinn_finish h i)"
| "call_future Q (QuinnWaitFinished h i) = gives VUnit (quinn_wait_finished h i)"
| "call_future Q (QuinnFinishAndWait h i) = gives VUnit (quinn_finish_and_wait h i)"
| "call_future Q (QuinnForgetSend h i) = gives (\<lambda>_. VDone) (quinn_forget_send h i)"
| "call_future Q (RecvRead rs m) = gives VBytes (recv_read rs m)"
| "call_future Q (RecvReadToEnd rs limit) = gives VBytes (recv_read_to_end rs limit)"
| "call_future Q (RecvStop rs code) = gives VUnit (recv_stop Q rs code)"
| "call_future Q (SendWriteAll ss buf) = gives VUnit (send_write_all ss buf)"
| "call_future Q (SendFinish ss) = gives VUnit (send_finish ss)"
| "call_future Q (SendWaitFinished ss) = gives VUnit (send_wait_finished ss)"
| "call_future Q (SendFinishAndWait ss) = gives VUnit (send_finish_and_wait ss)"
| "call_future Q (SendReset ss code) = gives VUnit (send_reset Q ss code)"

end
