(* ===== verification/Examples.thy ===== *)
theory Examples
  imports Handles
begin

text \<open>
  The programs of \<open>examples/\<close> that use the tokio wrapper: \<open>echo_server.rs\<close>, \<open>echo_client.rs\<close> and the
  full-duplex pattern of \<open>full_duplex.rs\<close>. Their sessions are futures made of the handle methods; \<open>?\<close> on a
  result of another error type is \<open>or_fail\<close>. The arguments of the process, the TOML decoder and what binding,
  connecting and accepting give are arguments. What is printed is left out; the streams that go out of scope at
  the end are dropped by the \<open>DropStream\<close> of the theory \<open>World\<close>, which may happen at any time.
\<close>

section \<open>Arguments and configuration texts\<close>

definition quoted :: "string \<Rightarrow> string" where
  "quoted s = CHR 0x22 # s @ [CHR 0x22]"

definition toml_line :: "string \<Rightarrow> string \<Rightarrow> string" where
  "toml_line key v = key @ '' = '' @ quoted v @ [CHR 0x0A]"

datatype startup_error = Usage string | BadConfig string | BindFailed io_error

fun echo_server_args :: "string list \<Rightarrow> startup_error + string \<times> string \<times> string" where
  "echo_server_args [] = Inl (Usage ''usage: echo_server <listen_addr> <psk_hex> [client_id]'')"
| "echo_server_args [listen] = Inl (Usage ''missing <psk_hex> (64 hex chars)'')"
| "echo_server_args [listen, psk] = Inr (listen, psk, ''peer'')"
| "echo_server_args (listen # psk # ident # _) = Inr (listen, psk, ident)"

definition echo_server_toml :: "string \<Rightarrow> string \<Rightarrow> string \<Rightarrow> string" where
  "echo_server_toml listen psk ident =
     toml_line ''listen'' listen @ ''[[clients]]'' @ [CHR 0x0A] @ toml_line ''client_id'' ident @ toml_line ''psk'' psk"

text \<open>Up to a bound server; \<open>args\<close> comes after the program's name, \<open>parse\<close> is the TOML decoder.\<close>

definition echo_server_listen ::
  "(string \<Rightarrow> string + server_secrets) \<Rightarrow> (socket_addr \<Rightarrow> io_error + socket_addr) \<Rightarrow> build_env \<Rightarrow> 'e \<Rightarrow> string list
     \<Rightarrow> startup_error + socket_addr \<times> ('c, 'e) driver" where
  "echo_server_listen parse bound B inner args =
     (case echo_server_args args of
        Inl e \<Rightarrow> Inl e
      | Inr (listen, psk, ident) \<Rightarrow>
          case parse (echo_server_toml listen psk ident) of
            Inl e \<Rightarrow> Inl (BadConfig e)
          | Inr secrets \<Rightarrow> (case server_bind bound B inner secrets of Inl e \<Rightarrow> Inl (BindFailed e) | Inr s \<Rightarrow> Inr s))"

text \<open>What \<open>accept\<close> gave within two minutes: \<open>None\<close> nothing, \<open>Some None\<close> that the driver has stopped.\<close>

fun echo_server_accepted :: "connection option option \<Rightarrow> app_error + connection" where
  "echo_server_accepted None = Inl (AppMessage ''timed out waiting for a connection'')"
| "echo_server_accepted (Some None) = Inl (AppMessage ''server driver stopped'')"
| "echo_server_accepted (Some (Some c)) = Inr c"

text \<open>Server address, key, message, client identity and the local address to pin.\<close>

fun echo_client_args :: "string list \<Rightarrow> startup_error + string \<times> string \<times> string \<times> string \<times> string option" where
  "echo_client_args [] = Inl (Usage ''usage: echo_client <server_addr> <psk_hex> [message] [client_id] [bind_addr]'')"
| "echo_client_args [server] = Inl (Usage ''missing <psk_hex> (64 hex chars)'')"
| "echo_client_args [server, psk] = Inr (server, psk, ''hello from quietquic'', ''peer'', None)"
| "echo_client_args [server, psk, message] = Inr (server, psk, message, ''peer'', None)"
| "echo_client_args [server, psk, message, ident] = Inr (server, psk, message, ident, None)"
| "echo_client_args (server # psk # message # ident # addr # _) = Inr (server, psk, message, ident, Some addr)"

definition echo_client_toml :: "string \<Rightarrow> string \<Rightarrow> string \<Rightarrow> string option \<Rightarrow> string" where
  "echo_client_toml server psk ident pinned =
     toml_line ''client_id'' ident @ toml_line ''psk'' psk @ toml_line ''server'' server
       @ (case pinned of None \<Rightarrow> [] | Some b \<Rightarrow> toml_line ''bind'' b)"

text \<open>The configuration to dial with, and the message.\<close>

definition echo_client_config ::
  "(string \<Rightarrow> string + client_config_file) \<Rightarrow> string list \<Rightarrow> startup_error + client_config_file \<times> string" where
  "echo_client_config parse args =
     (case echo_client_args args of
        Inl e \<Rightarrow> Inl e
      | Inr (server, psk, message, ident, pinned) \<Rightarrow>
          case parse (echo_client_toml server psk ident pinned) of Inl e \<Rightarrow> Inl (BadConfig e) | Inr cfg \<Rightarrow> Inr (cfg, message))"

section \<open>The echo sessions\<close>

definition or_fail :: "(conn_error + 'a) future \<Rightarrow> (app_error + 'a) future" where
  "or_fail m = and_then m (\<lambda>x. Ready (case x of Inl e \<Rightarrow> Inl (AppConn e) | Inr a \<Rightarrow> Inr a))"

definition ECHO_LIMIT :: usize where "ECHO_LIMIT = 1024 * 1024"

text \<open>
  \<open>as_bytes\<close> of a string slice is its UTF-8 encoding. A \<open>string\<close> is a sequence of code points up to 255; those from
  128 on take two bytes.
\<close>

definition utf8_char :: "char \<Rightarrow> bytes" where
  "utf8_char c =
     (let n = of_char c :: nat
      in if n < 0x80 then [of_nat n] else [of_nat (0xC0 + n div 64), of_nat (0x80 + n mod 64)])"

definition utf8 :: "string \<Rightarrow> bytes" where
  "utf8 s = concat (map utf8_char s)"

definition echo_server_session :: "('c, 'v, 'n, 'z) quinn_conn_scheme \<Rightarrow> connection \<Rightarrow> (app_error + unit) future" where
  "echo_server_session Q conn =
     try_then (or_fail (connection_accept_bi conn)) (\<lambda>(send, recv).
     try_then (or_fail (recv_read_to_end recv ECHO_LIMIT)) (\<lambda>got.
     try_then (or_fail (send_write_all send got)) (\<lambda>_.
     try_then (or_fail (send_finish send)) (\<lambda>_.
       or_fail (connection_close Q conn 0 [])))))"

definition echo_client_session :: "('c, 'v, 'n, 'z) quinn_conn_scheme \<Rightarrow> connection \<Rightarrow> string \<Rightarrow> (app_error + unit) future" where
  "echo_client_session Q conn message =
     try_then (or_fail (connection_open_bi conn)) (\<lambda>(send, recv).
     try_then (or_fail (send_write_all send (utf8 message))) (\<lambda>_.
     try_then (or_fail (send_finish send)) (\<lambda>_.
     try_then (or_fail (recv_read_to_end recv ECHO_LIMIT)) (\<lambda>echo.
       if echo = utf8 message then or_fail (connection_close Q conn 0 [])
       else Ready (Inl (AppMessage ''echo did not match what was sent''))))))"

section \<open>Full duplex\<close>

definition EXCHANGE_LIMIT :: nat where "EXCHANGE_LIMIT = 1024 * 1024"

function receive_from :: "recv_stream \<Rightarrow> bytes \<Rightarrow> (conn_error + bytes) future" where
  "receive_from recv response =
     try_then (recv_read recv (16 * 1024)) (\<lambda>chunk.
       if chunk = [] then Ready (Inr response)
       else if EXCHANGE_LIMIT < length (response @ chunk) then Ready (Inl (ReadLimitExceeded EXCHANGE_LIMIT))
       else receive_from recv (response @ chunk))"
  by pat_completeness auto

text \<open>Every turn that is not the last adds at least a byte, and there is room for only so many.\<close>

termination
  by (relation "measure (\<lambda>(recv, response). EXCHANGE_LIMIT - length response)") (auto simp flip: length_greater_0_conv)

declare receive_from.simps [simp del]

definition exchange_receive :: "recv_stream \<Rightarrow> (conn_error + bytes) future" where
  "exchange_receive recv = receive_from recv []"

definition exchange_send_request :: "send_stream \<Rightarrow> (conn_error + unit) future" where
  "exchange_send_request send = try_then (send_write_all send (utf8 ''request'')) (\<lambda>_. send_finish send)"

section \<open>What a task may run\<close>

datatype program =
    Call handle_call
  | EchoServer connection
  | EchoClient connection string
  | ExchangeReceive recv_stream
  | ExchangeSend send_stream

fun program_future :: "('c, 'v, 'n, 'z) quinn_conn_scheme \<Rightarrow> program \<Rightarrow> handle_value future" where
  "program_future Q (Call c) = call_future Q c"
| "program_future Q (EchoServer conn) = gives VMain (echo_server_session Q conn)"
| "program_future Q (EchoClient conn message) = gives VMain (echo_client_session Q conn message)"
| "program_future Q (ExchangeReceive recv) = gives VBytes (exchange_receive recv)"
| "program_future Q (ExchangeSend send) = gives VUnit (exchange_send_request send)"

section \<open>Paths\<close>

text \<open>
  What a future does on its way: the channels it creates, the commands it sends, taken or not, and the
  answers it hears.
\<close>

datatype deed = Created_channel reply | Took tagged | Refused tagged | Heard answer

inductive path :: "'a future \<Rightarrow> deed list \<Rightarrow> 'a future \<Rightarrow> bool" where
  stay: "path m [] m"
| channel: "path (f r) ds m \<Longrightarrow> path (Channel f) (Created_channel r # ds) m"
| took: "path (f True) ds m \<Longrightarrow> path (Send t f) (Took t # ds) m"
| refused: "path (f False) ds m \<Longrightarrow> path (Send t f) (Refused t # ds) m"
| heard: "answer_to a = r \<Longrightarrow> f a = Some m' \<Longrightarrow> path m' ds m \<Longrightarrow> path (Await r f) (Heard a # ds) m"

inductive_cases path_ReadyE: "path (Ready v) ds m"

text \<open>The paths to a value.\<close>

abbreviation ends :: "'a future \<Rightarrow> deed list \<Rightarrow> 'a \<Rightarrow> bool" where
  "ends m ds v \<equiv> path m ds (Ready v)"

inductive_simps path_simps: "ends (Ready w) ds v" "ends (Channel f) ds v" "ends (Send t f) ds v" "ends (Await r f) ds v"

lemma path_and_then:
  assumes "path m es m'" "path (and_then m' g) fs n"
  shows "path (and_then m g) (es @ fs) n"
  using assms by (induction rule: path.induct) (auto intro: path.intros)

lemma ends_and_then_split:
  assumes "ends (and_then m g) ds v"
  shows "\<exists>es fs w. ds = es @ fs \<and> ends m es w \<and> ends (g w) fs v"
  using assms
proof (induction m arbitrary: ds)
  case (Ready x)
  then show ?case by (intro exI [of _ "[]"] exI [of _ ds] exI [of _ x]) (auto intro: path.stay)
next
  case (Channel f)
  from Channel.prems obtain r ds' where d: "ds = Created_channel r # ds'" "ends (and_then (f r) g) ds' v" by (auto simp: path_simps)
  from Channel.IH [OF rangeI d(2)] obtain es fs w where "ds' = es @ fs" "ends (f r) es w" "ends (g w) fs v" by blast
  then show ?case using d(1) by (intro exI [of _ "Created_channel r # es"] exI [of _ fs] exI [of _ w]) (auto intro: path.channel)
next
  case (Send t f)
  from Send.prems obtain b ds' where d: "ds = (if b then Took t else Refused t) # ds'" "ends (and_then (f b) g) ds' v"
    by (auto simp: path_simps) (metis (full_types))
  from Send.IH [OF rangeI d(2)] obtain es fs w where "ds' = es @ fs" "ends (f b) es w" "ends (g w) fs v" by blast
  then show ?case using d(1) by (intro exI [of _ "(if b then Took t else Refused t) # es"] exI [of _ fs] exI [of _ w])
      (cases b, auto intro: path.took path.refused)
next
  case (Await r f)
  from Await.prems obtain a m' ds' where d: "ds = Heard a # ds'" "answer_to a = r" "f a = Some m'" "ends (and_then m' g) ds' v"
    by (auto simp: path_simps)
  have "f a \<in> range f" "m' \<in> set_option (f a)" using d(3) by (auto simp: image_iff intro: exI [of _ a])
  from Await.IH [OF this d(4)] obtain es fs w where "ds' = es @ fs" "ends m' es w" "ends (g w) fs v" by blast
  then show ?case using d by (intro exI [of _ "Heard a # es"] exI [of _ fs] exI [of _ w]) (auto intro: path.heard)
qed

lemma ends_and_then: "ends (and_then m g) ds v \<longleftrightarrow> (\<exists>es fs w. ds = es @ fs \<and> ends m es w \<and> ends (g w) fs v)"
  using ends_and_then_split [of m g ds v] by (auto intro: path_and_then)

lemma ends_try_then:
  "ends (try_then m g) ds v \<longleftrightarrow>
     (\<exists>e. ends m ds (Inl e) \<and> v = Inl e) \<or> (\<exists>es fs a. ds = es @ fs \<and> ends m es (Inr a) \<and> ends (g a) fs v)"
proof -
  have "ends (try_then m g) ds v \<longleftrightarrow>
      (\<exists>es fs w. ds = es @ fs \<and> ends m es w \<and> ends (case w of Inl e \<Rightarrow> Ready (Inl e) | Inr a \<Rightarrow> g a) fs v)"
    by (simp add: try_then_def ends_and_then)
  also have "\<dots> \<longleftrightarrow> (\<exists>es fs e. ds = es @ fs \<and> ends m es (Inl e) \<and> ends (Ready (Inl e)) fs v)
      \<or> (\<exists>es fs a. ds = es @ fs \<and> ends m es (Inr a) \<and> ends (g a) fs v)"
    unfolding split_sum_ex sum.case by blast
  finally show ?thesis by (auto simp: path_simps)
qed

lemma path_trans: "path m es m' \<Longrightarrow> path m' fs n \<Longrightarrow> path m (es @ fs) n"
  by (induction rule: path.induct) (auto intro: path.intros)

text \<open>One request and its answer.\<close>

definition exchange_of :: "reply \<Rightarrow> tagged \<Rightarrow> answer \<Rightarrow> deed list" where
  "exchange_of r t a = [Created_channel r, Took t, Heard a]"

lemma ends_request:
  "ends (and_then oneshot_channel (\<lambda>tx. try_then (cmd_send cmds (c tx)) (\<lambda>_. w tx))) ds v \<longleftrightarrow>
     (\<exists>r. ds = [Created_channel r, Refused (cmd_tagged cmds (c r))] \<and> v = Inl Closed
        \<or> (\<exists>es. ds = Created_channel r # Took (cmd_tagged cmds (c r)) # es \<and> ends (w r) es v))"
  by (auto simp: ends_try_then cmd_send_def path_simps)

lemma ex_answer:
  "(\<exists>a. P a) \<longleftrightarrow> (\<exists>r x. P (StreamReply r x)) \<or> (\<exists>r x. P (UnitReply r x)) \<or> (\<exists>r x. P (BytesReply r x)) \<or> (\<exists>r. P (SenderDropped r))"
  by (metis answer.exhaust)

lemma ends_await:
  "ends (await_stream r) ds x \<longleftrightarrow> ds = [Heard (StreamReply r x)] \<or> ds = [Heard (SenderDropped r)] \<and> x = Inl Closed"
  "ends (await_unit r) ds y \<longleftrightarrow> ds = [Heard (UnitReply r y)] \<or> ds = [Heard (SenderDropped r)] \<and> y = Inl Closed"
  "ends (await_bytes r) ds z \<longleftrightarrow> ds = [Heard (BytesReply r z)] \<or> ds = [Heard (SenderDropped r)] \<and> z = Inl Closed"
  by (auto simp: await_stream_def await_unit_def await_bytes_def path_simps ex_answer)

lemma ends_then_Inr:
  "ends (try_then m g) ds (Inr v) \<longleftrightarrow> (\<exists>es fs a. ds = es @ fs \<and> ends m es (Inr a) \<and> ends (g a) fs (Inr v))"
  by (auto simp: ends_try_then)

lemma ends_then_Ready: "ends (try_then m (\<lambda>a. Ready (k a))) ds (Inr v) \<longleftrightarrow> (\<exists>a. ends m ds (Inr a) \<and> k a = Inr v)"
  unfolding ends_then_Inr by (simp add: path_simps) (metis append_Nil2)

text \<open>How the handle methods succeed.\<close>

lemma ends_streams:
  "ends (and_then oneshot_channel (\<lambda>tx. try_then (cmd_send cmds (c tx)) (\<lambda>_. try_then (await_stream tx) (\<lambda>i. Ready (Inr (h i)))))) ds (Inr v) \<longleftrightarrow>
     (\<exists>r i. ds = exchange_of r (cmd_tagged cmds (c r)) (StreamReply r (Inr i)) \<and> v = h i)"
  unfolding ends_request by (auto simp: ends_then_Ready ends_await exchange_of_def)

lemma ends_unit:
  "ends (and_then oneshot_channel (\<lambda>tx. try_then (cmd_send cmds (c tx)) (\<lambda>_. await_unit tx))) ds (Inr v) \<longleftrightarrow>
     (\<exists>r. ds = exchange_of r (cmd_tagged cmds (c r)) (UnitReply r (Inr v)))"
  unfolding ends_request by (auto simp: ends_await exchange_of_def)

lemma ends_bytes:
  "ends (and_then oneshot_channel (\<lambda>tx. try_then (cmd_send cmds (c tx)) (\<lambda>_. await_bytes tx))) ds (Inr v) \<longleftrightarrow>
     (\<exists>r. ds = exchange_of r (cmd_tagged cmds (c r)) (BytesReply r (Inr v)))"
  unfolding ends_request by (auto simp: ends_await exchange_of_def)

lemma ends_or_fail: "ends (or_fail m) ds (Inr v) \<longleftrightarrow> ends m ds (Inr v)"
proof -
  have "ends (or_fail m) ds (Inr v) \<longleftrightarrow> (\<exists>es fs. ds = es @ fs \<and> ends m es (Inr v) \<and> fs = [])"
    unfolding or_fail_def ends_and_then split_sum_ex by (auto simp: path_simps)
  then show ?thesis by simp
qed

lemma ends_close:
  "ends (connection_close Q c code reason) ds (Inr v) \<longleftrightarrow>
     (\<exists>x t. varint Q code = Inr x \<and> t = cmd_tagged (connection_cmds c) (CloseCmd x reason) \<and> (ds = [Took t] \<or> ds = [Refused t]))"
  by (cases "varint Q code") (auto simp: connection_close_def ends_try_then ends_and_then cmd_send_def path_simps)

text \<open>A program that ends well has had every request on its way answered well.\<close>

lemma ends_steps:
  "ends (try_then (or_fail (connection_open_bi c)) g) ds (Inr v) \<longleftrightarrow>
     (\<exists>r i fs. ds = exchange_of r (cmd_tagged (connection_cmds c) (OpenBi r)) (StreamReply r (Inr i)) @ fs
        \<and> ends (g (bi_stream i (connection_cmds c))) fs (Inr v))"
  "ends (try_then (or_fail (connection_accept_bi c)) g) ds (Inr v) \<longleftrightarrow>
     (\<exists>r i fs. ds = exchange_of r (cmd_tagged (connection_cmds c) (AcceptBi r)) (StreamReply r (Inr i)) @ fs
        \<and> ends (g (bi_stream i (connection_cmds c))) fs (Inr v))"
  "ends (try_then (or_fail (send_write_all ss bs)) k) ds (Inr v) \<longleftrightarrow>
     (\<exists>r fs. ds = exchange_of r (cmd_tagged (tx_cmds ss) (Write (tx_id ss) bs r)) (UnitReply r (Inr ())) @ fs \<and> ends (k ()) fs (Inr v))"
  "ends (try_then (or_fail (send_finish ss)) k) ds (Inr v) \<longleftrightarrow>
     (\<exists>r fs. ds = exchange_of r (cmd_tagged (tx_cmds ss) (Finish (tx_id ss) r)) (UnitReply r (Inr ())) @ fs \<and> ends (k ()) fs (Inr v))"
  "ends (try_then (or_fail (recv_read_to_end rs limit)) h) ds (Inr v) \<longleftrightarrow>
     (\<exists>r got fs. ds = exchange_of r (cmd_tagged (rx_cmds rs) (ReadToEnd (rx_id rs) limit r)) (BytesReply r (Inr got)) @ fs
        \<and> ends (h got) fs (Inr v))"
  unfolding ends_then_Inr ends_or_fail connection_open_bi_def connection_accept_bi_def send_write_all_def send_finish_def
    recv_read_to_end_def ends_streams ends_unit ends_bytes
  by (blast, blast) auto

section \<open>The echo sessions end well exactly when the bytes come back\<close>

abbreviation asks :: "connection \<Rightarrow> cmd \<Rightarrow> reply \<Rightarrow> answer \<Rightarrow> deed list" where
  "asks conn c r a \<equiv> exchange_of r (cmd_tagged (connection_cmds conn) c) a"

definition closing :: "('c, 'v, 'n, 'z) quinn_conn_scheme \<Rightarrow> connection \<Rightarrow> deed \<Rightarrow> bool" where
  "closing Q conn d \<longleftrightarrow> (\<exists>x t. varint Q 0 = Inr x \<and> t = cmd_tagged (connection_cmds conn) (CloseCmd x []) \<and> (d = Took t \<or> d = Refused t))"

lemma echo_server_ends:
  "ends (echo_server_session Q conn) ds (Inr ()) \<longleftrightarrow>
     (\<exists>i got r1 r2 r3 r4 d. closing Q conn d \<and>
        ds = asks conn (AcceptBi r1) r1 (StreamReply r1 (Inr i)) @ asks conn (ReadToEnd i ECHO_LIMIT r2) r2 (BytesReply r2 (Inr got))
           @ asks conn (Write i got r3) r3 (UnitReply r3 (Inr ())) @ asks conn (Finish i r4) r4 (UnitReply r4 (Inr ())) @ [d])"
  unfolding echo_server_session_def by (simp add: ends_steps bi_stream_def ends_or_fail closing_def ends_close) blast

lemma echo_client_ends:
  "ends (echo_client_session Q conn message) ds (Inr ()) \<longleftrightarrow>
     (\<exists>i r1 r2 r3 r4 d. closing Q conn d \<and>
        ds = asks conn (OpenBi r1) r1 (StreamReply r1 (Inr i)) @ asks conn (Write i (utf8 message) r2) r2 (UnitReply r2 (Inr ()))
           @ asks conn (Finish i r3) r3 (UnitReply r3 (Inr ())) @ asks conn (ReadToEnd i ECHO_LIMIT r4) r4 (BytesReply r4 (Inr (utf8 message)))
           @ [d])"
  unfolding echo_client_session_def by (simp add: ends_steps bi_stream_def ends_or_fail closing_def ends_close path_simps) blast

section \<open>What the full-duplex pattern receives\<close>

text \<open>The rounds of the receive loop: the channel and the chunk of each read.\<close>

definition reads :: "recv_stream \<Rightarrow> (reply \<times> bytes) list \<Rightarrow> deed list" where
  "reads rs xs = concat (map (\<lambda>(r, c). exchange_of r (cmd_tagged (rx_cmds rs) (ReadCmd (rx_id rs) (16 * 1024) r)) (BytesReply r (Inr c))) xs)"

lemma reads_simps [simp]:
  "reads rs [] = []"
  "reads rs ((r, c) # xs) = exchange_of r (cmd_tagged (rx_cmds rs) (ReadCmd (rx_id rs) (16 * 1024) r)) (BytesReply r (Inr c)) @ reads rs xs"
  by (simp_all add: reads_def)

lemma ends_read:
  "ends (recv_read rs (16 * 1024)) ds (Inr c) \<longleftrightarrow> (\<exists>r. ds = reads rs [(r, c)])"
  "ends (recv_read rs (16 * 1024)) ds v \<Longrightarrow> length ds \<le> 3"
  by (auto simp: recv_read_def read_chunk_def ends_request ends_await exchange_of_def simp del: and_then.simps)

lemma receive_from_turn:
  "ends (receive_from rs response) ds v \<longleftrightarrow>
     (\<exists>e. ends (recv_read rs (16 * 1024)) ds (Inl e) \<and> v = Inl e)
   \<or> (\<exists>r. ds = reads rs [(r, [])] \<and> v = Inr response)
   \<or> (\<exists>r c. ds = reads rs [(r, c)] \<and> EXCHANGE_LIMIT < length (response @ c) \<and> c \<noteq> [] \<and> v = Inl (ReadLimitExceeded EXCHANGE_LIMIT))
   \<or> (\<exists>r c fs. ds = reads rs [(r, c)] @ fs \<and> length (response @ c) \<le> EXCHANGE_LIMIT \<and> c \<noteq> [] \<and> ends (receive_from rs (response @ c)) fs v)"
  (is "_ \<longleftrightarrow> ?e \<or> ?rest")
proof -
  let ?g = "\<lambda>chunk. if chunk = [] then Ready (Inr response)
       else if EXCHANGE_LIMIT < length (response @ chunk) then Ready (Inl (ReadLimitExceeded EXCHANGE_LIMIT))
       else receive_from rs (response @ chunk)"
  have "ends (receive_from rs response) ds v \<longleftrightarrow> ?e \<or> (\<exists>c r fs. ds = reads rs [(r, c)] @ fs \<and> ends (?g c) fs v)"
    by (subst receive_from.simps) (unfold ends_try_then ends_read, blast)
  also have "(\<exists>c r fs. ds = reads rs [(r, c)] @ fs \<and> ends (?g c) fs v) \<longleftrightarrow> ?rest"
  proof -
    have "ends (?g c) fs v \<longleftrightarrow> fs = [] \<and> c = [] \<and> v = Inr response
        \<or> fs = [] \<and> c \<noteq> [] \<and> EXCHANGE_LIMIT < length (response @ c) \<and> v = Inl (ReadLimitExceeded EXCHANGE_LIMIT)
        \<or> c \<noteq> [] \<and> length (response @ c) \<le> EXCHANGE_LIMIT \<and> ends (receive_from rs (response @ c)) fs v" for c fs
      by (auto simp: path_simps)
    then show ?thesis
      by (simp add: conj_disj_distribL ex_disj_distrib del: reads_simps length_append) blast
  qed
  finally show ?thesis .
qed

lemma receive_from_ends:
  "ends (receive_from rs response) ds (Inr out) \<Longrightarrow> length response \<le> EXCHANGE_LIMIT \<Longrightarrow>
     \<exists>xs r. ds = reads rs (xs @ [(r, [])]) \<and> [] \<notin> snd ` set xs \<and> out = response @ concat (map snd xs) \<and> length out \<le> EXCHANGE_LIMIT"
proof (induction rs response arbitrary: ds rule: receive_from.induct)
  case (1 rs response)
  consider r where "ds = reads rs [(r, [])]" "out = response"
    | r c fs where "ds = reads rs [(r, c)] @ fs" "length (response @ c) \<le> EXCHANGE_LIMIT" "c \<noteq> []" "ends (receive_from rs (response @ c)) fs (Inr out)"
    using 1(2) unfolding receive_from_turn [of rs response] by auto
  then show ?case
  proof cases
    case (1 r)
    with \<open>length response \<le> EXCHANGE_LIMIT\<close> show ?thesis by (intro exI [of _ "[]"] exI [of _ r]) simp
  next
    case (2 r c fs)
    with "1.IH" [of c fs] obtain xs r' where "fs = reads rs (xs @ [(r', [])])" "[] \<notin> snd ` set xs"
      "out = (response @ c) @ concat (map snd xs)" "length out \<le> EXCHANGE_LIMIT" by auto
    with 2 show ?thesis by (intro exI [of _ "(r, c) # xs"] exI [of _ r']) auto
  qed
qed

lemma one_step_less: "0 < c \<Longrightarrow> a + c \<le> l \<Longrightarrow> l - (a + c) + 1 \<le> l - a" for a c l :: nat
  by arith

lemma receive_from_bounded: "ends (receive_from rs response) ds v \<Longrightarrow> length ds \<le> 3 * (EXCHANGE_LIMIT - length response + 1)"
proof (induction rs response arbitrary: ds rule: receive_from.induct)
  case (1 rs response)
  have three: "length (reads rs [(r, c)]) = 3" for r c by (simp add: exchange_of_def)
  show ?case
  proof (cases "\<exists>r c fs. ds = reads rs [(r, c)] @ fs \<and> length (response @ c) \<le> EXCHANGE_LIMIT \<and> c \<noteq> [] \<and> ends (receive_from rs (response @ c)) fs v")
    case True
    then obtain r c fs where d: "ds = reads rs [(r, c)] @ fs" "length (response @ c) \<le> EXCHANGE_LIMIT" "c \<noteq> []"
      "ends (receive_from rs (response @ c)) fs v" by blast
    then have "length fs \<le> 3 * (EXCHANGE_LIMIT - (length response + length c) + 1)" using "1.IH" [of c fs] by simp
    also have "\<dots> \<le> 3 * (EXCHANGE_LIMIT - length response)" using d(2,3) by (intro mult_le_mono2 one_step_less) simp_all
    finally show ?thesis using d(1) by (simp add: exchange_of_def)
  next
    case False
    with "1.prems" ends_read(2) [of rs ds v] three show ?thesis
      unfolding receive_from_turn [of rs response] by fastforce
  qed
qed

end
