(* ===== verification/Work.thy ===== *)
theory Work
  imports Server
begin

text \<open>
  How much is left to do: a bound on what quinn, the endpoint and the parked operations can still
  produce without new input. Every event or datagram that the driver's pump takes out uses up a unit of
  it, and nothing the driver does in reaction adds to it; so the pump comes to rest.
\<close>

section \<open>What is assumed of quinn\<close>

text \<open>
  \<open>w c\<close> bounds what connection \<open>c\<close> can still yield by itself: application events, peer-opened streams and
  datagrams. Polling uses it up, answering an endpoint event and reading add nothing to it, and writing
  \<open>n\<close> bytes adds at most \<open>k * n\<close>.
\<close>

definition some1 :: "'a option \<Rightarrow> nat" where
  "some1 x = (if x = None then 0 else 1)"

lemma some1_simps [simp]: "some1 None = 0" "some1 (Some x) = 1"
  by (simp_all add: some1_def)

definition settles :: "('c, 'v, 'n, 'e, 'i) deps \<Rightarrow> ('c \<Rightarrow> nat) \<Rightarrow> nat \<Rightarrow> bool" where
  "settles D w k \<longleftrightarrow>
     (\<forall>c. w (snd (qc_poll D c)) + some1 (fst (qc_poll D c)) \<le> w c)
     \<and> (\<forall>c d. w (snd (qc_accept D d c)) + some1 (fst (qc_accept D d c)) \<le> w c)
     \<and> (\<forall>c. w (snd (qc_poll_endpoint_events D c)) \<le> w c)
     \<and> (\<forall>c n c' h e v cs e'. qc_poll_endpoint_events D c = (Some n, c') \<longrightarrow> qe_handle_event D h n e = (Some v, cs, e')
          \<longrightarrow> w (qc_handle_event D v c') \<le> w c)
     \<and> (\<forall>c now m. w (snd (qc_poll_transmit D now m c)) \<le> w c)
     \<and> (\<forall>c now m t b c'. qc_poll_transmit D now m c = (Some (t, b), c') \<longrightarrow> b \<noteq> [] \<longrightarrow> w c' < w c)
     \<and> (\<forall>c i b. w (snd (qc_read D i b c)) \<le> w c)
     \<and> (\<forall>c i n. w (snd (qc_chunks_next D i n c)) \<le> w c)
     \<and> (\<forall>c i. w (qc_chunks_finalize D i c) \<le> w c)
     \<and> (\<forall>c i bs. w (snd (qc_write D i bs c)) \<le> w c + (case fst (qc_write D i bs c) of Inl e \<Rightarrow> 0 | Inr n \<Rightarrow> k * n))"

lemma settlesD:
  assumes "settles D w k"
  shows "w (snd (qc_poll D c)) + some1 (fst (qc_poll D c)) \<le> w c"
    and "w (snd (qc_accept D d c)) + some1 (fst (qc_accept D d c)) \<le> w c"
    and "w (snd (qc_poll_endpoint_events D c)) \<le> w c"
    and "qc_poll_endpoint_events D c = (Some n, c') \<Longrightarrow> qe_handle_event D h n e = (Some v, cs, e') \<Longrightarrow> w (qc_handle_event D v c') \<le> w c"
    and "w (snd (qc_poll_transmit D now m c)) \<le> w c"
    and "qc_poll_transmit D now m c = (Some (t, b), c') \<Longrightarrow> b \<noteq> [] \<Longrightarrow> w c' < w c"
    and "w (snd (qc_read D i o' c)) \<le> w c"
    and "w (snd (qc_chunks_next D i j c)) \<le> w c"
    and "w (qc_chunks_finalize D i c) \<le> w c"
    and "w (snd (qc_write D i bs c)) \<le> w c + (case fst (qc_write D i bs c) of Inl e \<Rightarrow> 0 | Inr n \<Rightarrow> k * n)"
proof -
  note a = assms [unfolded settles_def]
  show "w (snd (qc_poll D c)) + some1 (fst (qc_poll D c)) \<le> w c" "w (snd (qc_accept D d c)) + some1 (fst (qc_accept D d c)) \<le> w c"
    "w (snd (qc_poll_endpoint_events D c)) \<le> w c" "w (snd (qc_poll_transmit D now m c)) \<le> w c" "w (snd (qc_read D i o' c)) \<le> w c"
    "w (snd (qc_chunks_next D i j c)) \<le> w c" "w (qc_chunks_finalize D i c) \<le> w c"
    "w (snd (qc_write D i bs c)) \<le> w c + (case fst (qc_write D i bs c) of Inl e \<Rightarrow> 0 | Inr n \<Rightarrow> k * n)"
    using a by simp_all
  show "w (qc_handle_event D v c') \<le> w c"
    if "qc_poll_endpoint_events D c = (Some n, c')" "qe_handle_event D h n e = (Some v, cs, e')"
  proof -
    have "\<forall>c n c' h e v cs e'. qc_poll_endpoint_events D c = (Some n, c') \<longrightarrow> qe_handle_event D h n e = (Some v, cs, e')
          \<longrightarrow> w (qc_handle_event D v c') \<le> w c" using a by (elim conjE)
    with that show ?thesis by blast
  qed
  show "w c' < w c" if "qc_poll_transmit D now m c = (Some (t, b), c')" "b \<noteq> []"
  proof -
    have "\<forall>c now m t b c'. qc_poll_transmit D now m c = (Some (t, b), c') \<longrightarrow> b \<noteq> [] \<longrightarrow> w c' < w c" using a by (elim conjE)
    with that show ?thesis by blast
  qed
qed

section \<open>One connection\<close>

definition reported :: "conn_progress \<Rightarrow> nat" where
  "reported p = (if cp_connected p then 1 else 0) + length (cp_opened p) + length (cp_readable p) + length (cp_writable p)
     + length (cp_fin_acked p) + length (cp_stopped p)"

lemma length_progress_events: "length (progress_events ch p) = reported p"
  by (simp add: progress_events_def reported_def)

definition load :: "('c \<Rightarrow> nat) \<Rightarrow> 'c conn_state \<times> conn_progress \<Rightarrow> nat" where
  "load w = (\<lambda>(s, p). w (cs_conn s) + reported p)"

lemma accepts_load:
  assumes W: "settles D w k" and r: "while_some (accept_poll D) accept_one sp = Some sp'"
  shows "load w sp' \<le> load w sp"
  using r
proof (rule while_some_invariant [where I = "\<lambda>u. load w u \<le> load w sp"])
  show "load w v \<le> load w sp" if "load w u \<le> load w sp" "accept_poll D u = (Some x, u')" "accept_one x u' = Some v" for u x u' v
    using that settlesD(2) [OF W, of Bi "cs_conn (fst u)"]
    by (cases u) (auto simp: accept_poll_def accept_one_def load_def reported_def split: prod.splits)
  show "load w u' \<le> load w sp" if "load w u \<le> load w sp" "accept_poll D u = (None, u')" for u u'
    using that settlesD(2) [OF W, of Bi "cs_conn (fst u)"] by (cases u) (auto simp: accept_poll_def load_def split: prod.splits)
qed simp

lemma service_event_load:
  assumes W: "settles D w k" and e: "service_event D ev sp = Some sp'"
  shows "load w sp' \<le> load w sp + 1"
proof -
  obtain s p where sp: "sp = (s, p)" by (cases sp)
  show ?thesis
  proof (cases ev)
    case (QStream se)
    show ?thesis
    proof (cases se)
      case (QOpened d)
      with QStream e sp accepts_load [OF W, of sp sp'] show ?thesis by (cases d) auto
    qed (use QStream e sp in \<open>auto simp: load_def reported_def record_send_fin_cases split: if_splits\<close>)
  qed (use e sp in \<open>auto simp: load_def reported_def\<close>)
qed

lemma service_streams_load:
  assumes W: "settles D w k" and r: "service_streams D s = Some (p, s')"
  shows "w (cs_conn s') + reported p \<le> w (cs_conn s)"
proof -
  have "while_some (poll_conn D) (service_event D) (s, progress_default) = Some (s', p)"
    using r by (auto simp: service_streams_def)
  then have "load w (s', p) \<le> load w (s, progress_default)"
  proof (rule while_some_invariant [where I = "\<lambda>u. load w u \<le> load w (s, progress_default)"])
    show "load w v \<le> load w (s, progress_default)"
      if "load w u \<le> load w (s, progress_default)" "poll_conn D u = (Some x, u')" "service_event D x u' = Some v" for u x u' v
      using that settlesD(1) [OF W, of "cs_conn (fst u)"] service_event_load [OF W that(3)]
      by (cases u) (auto simp: poll_conn_def load_def split: prod.splits)
    show "load w u' \<le> load w (s, progress_default)" if "load w u \<le> load w (s, progress_default)" "poll_conn D u = (None, u')" for u u'
      using that settlesD(1) [OF W, of "cs_conn (fst u)"] by (cases u) (auto simp: poll_conn_def load_def split: prod.splits)
  qed simp
  then show ?thesis by (simp add: load_def reported_def progress_default_def)
qed

lemma drain_transmits_load:
  assumes W: "settles D w k"
  shows "drain_transmits D now c acc = Some (out, c') \<Longrightarrow> w c' + length out \<le> w c + length acc"
proof (induction "w c" arbitrary: c acc rule: less_induct)
  case less
  obtain r c1 where r: "qc_poll_transmit D now 1 c = (r, c1)" by fastforce
  have le: "w c1 \<le> w c" using settlesD(5) [OF W, of now 1 c] r by simp
  consider "r = None" | d where "r = Some (d, [])" | d b where "r = Some (d, b)" "b \<noteq> []" by (cases r) auto
  then show ?case
  proof cases
    case (3 d b)
    then have lt: "w c1 < w c" using settlesD(6) [OF W, of now 1 c] r by simp
    have "drain_transmits D now c1 (acc @ [Transmit d b]) = Some (out, c')"
      using less.prems r 3 by (subst (asm) drain_transmits.simps) simp
    from less.hyps [OF lt this] lt show ?thesis by simp
  qed (use less.prems r le in \<open>subst (asm) drain_transmits.simps, simp\<close>)+
qed

subsection \<open>Reading and writing\<close>

lemma delivered_load:
  assumes "settles D w k"
  shows "delivered D i cap c bs c' \<Longrightarrow> w c' \<le> w c"
proof (induction rule: delivered.induct)
  case (chunk cap c bs c1 rest c2)
  with settlesD(8) [OF assms, of i cap c] show ?case by simp
qed simp

lemma stream_read_load:
  assumes W: "settles D w k" and C: "chunks_bounded D" and r: "stream_read D i buf s = Some (o1, b, s')"
  shows "w (cs_conn s') \<le> w (cs_conn s)"
proof -
  obtain x c where x: "qc_read D i True (cs_conn s) = (x, c)" by fastforce
  then have c: "w c \<le> w (cs_conn s)" using settlesD(7) [OF W, of i True "cs_conn s"] by simp
  obtain bs c0 e where rc: "read_chunks D i c buf 0 = Some (fst e, copy_at buf 0 bs, length bs, snd e)"
    and d: "delivered D i (length buf) c bs c0" and e: "read_end D i (length buf - length bs) c0 e"
    using read_chunks_delivers [OF C, of 0 buf i c] by auto
  obtain c1 fin err where e1: "e = (c1, fin, err)" by (cases e)
  have "w c1 \<le> w c0"
    using e settlesD(8) [OF W, of i "length buf - length bs" c0]
    by (auto simp: e1 split: if_splits option.splits conn_error.splits)
  then have "w (qc_chunks_finalize D i c1) \<le> w (cs_conn s)"
    using delivered_load [OF W d] c settlesD(9) [OF W, of i c1] by simp
  with r x c rc e1 show ?thesis
    by (cases x) (auto simp: stream_read_def Let_def split: if_splits option.splits q_readable_error.splits)
qed

lemma gathered_load:
  assumes W: "settles D w k" and C: "chunks_bounded D"
  shows "gathered D i p s bs s' \<Longrightarrow> w (cs_conn s') \<le> w (cs_conn s)"
  by (induction rule: gathered.induct) (use stream_read_load [OF W C] in \<open>force intro: order_trans\<close>)+

lemma pump_read_load:
  assumes W: "settles D w k" and C: "chunks_bounded D" and ok: "read_ok p" and r: "pump_read D i p s = Some (a, p', s')"
  shows "w (cs_conn s') \<le> w (cs_conn s)"
proof -
  obtain bs s1 where g: "gathered D i p s bs s1" and st: "read_stop D i (p\<lparr>pr_buf := pr_buf p @ bs\<rparr>) s1 (a, p', s')"
    using pump_read_exact [OF C ok, of i s] r by auto
  have "w (cs_conn s') \<le> w (cs_conn s1)"
  proof (cases "s' = s1")
    case False
    then obtain o1 tail s2 where sr: "stream_read D i (replicate (read_request (p\<lparr>pr_buf := pr_buf p @ bs\<rparr>)) 0) s1 = Some (o1, tail, s2)"
      "cs_conn s' = cs_conn s2"
      using st by (auto simp: read_stop_def forget_recv_def split: option.splits if_splits sum.splits read_outcome.splits)
    with stream_read_load [OF W C sr(1)] show ?thesis by simp
  qed simp
  with gathered_load [OF W C g] show ?thesis by simp
qed

lemma stream_write_load:
  assumes "settles D w k" "stream_write D i bs s = (r, s')"
  shows "w (cs_conn s') \<le> w (cs_conn s) + (case r of Inr (Wrote n) \<Rightarrow> k * n | _ \<Rightarrow> 0)"
  using assms(2) settlesD(10) [OF assms(1), of i bs "cs_conn s"]
  by (auto simp: stream_write_def Let_def split: if_splits prod.splits sum.splits q_write_error.splits)

lemma written_load:
  assumes "settles D w k"
  shows "written D i bs s n s' \<Longrightarrow> w (cs_conn s') \<le> w (cs_conn s) + k * n"
proof (induction rule: written.induct)
  case (more bs s n s1 m s2)
  with stream_write_load [OF assms more.hyps(2)] show ?case by (simp add: algebra_simps)
qed simp

section \<open>The endpoint\<close>

lemma sum_map_entry:
  fixes f :: "'k \<times> 'v \<Rightarrow> nat"
  shows "distinct (map fst al) \<Longrightarrow> map_of al x = Some v \<Longrightarrow>
    sum_list (map f (AList.map_entry x g al)) + f (x, v) = sum_list (map f al) + f (x, g v)"
proof (induction al)
  case (Cons a al)
  show ?case
  proof (cases "fst a = x")
    case True
    with Cons.prems have "a = (x, v)" "x \<notin> fst ` set al" by (auto simp: prod_eq_iff)
    moreover have "AList.map_entry x g al = al" using calculation(2) by (induction al) auto
    ultimately show ?thesis by simp
  next
    case False
    with Cons show ?thesis by (cases a) auto
  qed
qed simp

lemma sum_delete:
  fixes f :: "'k \<times> 'v \<Rightarrow> nat"
  assumes "distinct (map fst al)" "map_of al x = Some v"
  shows "sum_list (map f (AList.delete x al)) + f (x, v) = sum_list (map f al)"
  using arg_cong [OF mset_delete [OF assms], of "\<lambda>M. sum_mset (image_mset f M)"]
  by (simp add: sum_mset_sum_list flip: mset_map)

lemma sum_update:
  fixes f :: "'k \<times> 'v \<Rightarrow> nat"
  assumes "distinct (map fst al)"
  shows "sum_list (map f (AList.update x v al)) = f (x, v) + sum_list (map f (AList.delete x al))"
  using arg_cong [OF mset_update [OF assms, of x v], of "\<lambda>M. sum_mset (image_mset f M)"]
  by (simp add: sum_mset_sum_list flip: mset_map)

definition work :: "('c \<Rightarrow> nat) \<Rightarrow> ('c, 'e) endpoint \<Rightarrow> nat" where
  "work w ep = sum_list (map (\<lambda>(ch, s). Suc (w (cs_conn s))) (ep_connections ep))"

definition pot :: "('c \<Rightarrow> nat) \<Rightarrow> ('c, 'e) endpoint \<Rightarrow> nat" where
  "pot w ep = work w ep + length (ep_events ep) + length (ep_outbound ep)"

abbreviation handles :: "('c, 'e) endpoint \<Rightarrow> connection_handle list" where
  "handles ep \<equiv> map fst (ep_connections ep)"

lemma handles_ok_distinct: "handles_ok ep \<Longrightarrow> distinct (handles ep)"
  by (simp add: handles_ok_def strict_sorted_iff)

lemma work_entry:
  assumes "distinct (handles ep)" "map_of (ep_connections ep) ch = Some s"
  shows "work w (ep\<lparr>ep_connections := AList.map_entry ch g (ep_connections ep)\<rparr>) + w (cs_conn s) = work w ep + w (cs_conn (g s))"
  using sum_map_entry [OF assms, of "\<lambda>(ch, s). Suc (w (cs_conn s))" g] by (simp add: work_def)

lemma work_upd_conn:
  assumes "distinct (handles ep)" "map_of (ep_connections ep) ch = Some s"
  shows "work w (upd_conn ch f ep) + w (cs_conn s) = work w ep + w (f (cs_conn s))"
  using work_entry [OF assms, of w "\<lambda>s. s\<lparr>cs_conn := f (cs_conn s)\<rparr>"] by (simp add: upd_conn_def)

lemma work_frame [simp]:
  "work w (mint_all cs ep) = work w ep" "work w (drain_pending_cids ch ep) = work w ep"
  "work w (sweep_orphan_cids ep) = work w ep" "work w (refresh_next_timeout D ep) = work w ep"
  "work w (ep\<lparr>ep_inner := e\<rparr>) = work w ep" "work w (ep\<lparr>ep_last_service := t\<rparr>) = work w ep"
  "work w (ep\<lparr>ep_events := es\<rparr>) = work w ep" "work w (ep\<lparr>ep_outbound := os\<rparr>) = work w ep"
  by (simp_all add: work_def)

lemma upd_conn_handles [simp]: "handles (upd_conn ch f ep) = handles ep"
  by (simp add: upd_conn_def)

lemma map_of_upd_conn: "map_of (ep_connections (upd_conn ch f ep)) ch = map_option (\<lambda>s. s\<lparr>cs_conn := f (cs_conn s)\<rparr>) (map_of (ep_connections ep) ch)"
  by (simp add: upd_conn_def map_of_map_entry)

lemma frameD: "frame a = frame b \<Longrightarrow> handles a = handles b \<and> ep_events a = ep_events b \<and> ep_outbound a = ep_outbound b"
  by (simp add: frame_def)

lemma route_events_work:
  assumes W: "settles D w k" and r: "route_events D ep ch = Some ep'" and d: "distinct (handles ep)"
  shows "work w ep' \<le> work w ep \<and> frame ep' = frame ep"
  using r unfolding route_events_def
proof (rule while_some_invariant [where I = "\<lambda>u. work w u \<le> work w ep \<and> frame u = frame ep"])
  fix u x u' v
  assume I: "work w u \<le> work w ep \<and> frame u = frame ep" and p: "poll_ee D ch u = (Some x, u')" and v: "route_ee D ch x u' = Some v"
  obtain s c where s: "map_of (ep_connections u) ch = Some s" "qc_poll_endpoint_events D (cs_conn s) = (Some x, c)"
    "u' = upd_conn ch (\<lambda>_. c) u"
    using p by (auto simp: poll_ee_def split: option.splits prod.splits)
  obtain cev cs e where h: "qe_handle_event D (quinn ch) x (ep_inner u') = (cev, cs, e)"
    by (cases "qe_handle_event D (quinn ch) x (ep_inner u')")
  have du: "distinct (handles u)" using I d frameD [of u ep] by simp
  have "work w v \<le> work w u \<and> frame v = frame u"
  proof (cases cev)
    case None
    then have "v = drain_pending_cids ch (mint_all cs (u'\<lparr>ep_inner := e\<rparr>))" using v h by (simp add: route_ee_def)
    then show ?thesis
      using work_upd_conn [OF du s(1), of w "\<lambda>_. c"] settlesD(3) [OF W, of "cs_conn s"] s(2,3) by simp
  next
    case (Some vv)
    let ?u = "drain_pending_cids ch (mint_all cs (u'\<lparr>ep_inner := e\<rparr>))"
    have v': "v = upd_conn ch (qc_handle_event D vv) ?u" using Some v h by (simp add: route_ee_def)
    have "map_of (ep_connections ?u) ch = Some (s\<lparr>cs_conn := c\<rparr>)" using s by (simp add: map_of_upd_conn)
    then have "work w v + w c = work w u' + w (qc_handle_event D vv c)"
      using work_upd_conn [of ?u ch "s\<lparr>cs_conn := c\<rparr>" w "qc_handle_event D vv"] du s(3) v' by simp
    then show ?thesis
      using work_upd_conn [OF du s(1), of w "\<lambda>_. c"] settlesD(4) [OF W s(2) h [unfolded Some]] s(3) v' by simp
  qed
  with I show "work w v \<le> work w ep \<and> frame v = frame ep" by simp
next
  fix u u' assume I: "work w u \<le> work w ep \<and> frame u = frame ep" and p: "poll_ee D ch u = (None, u')"
  show "work w u' \<le> work w ep \<and> frame u' = frame ep"
  proof (cases "map_of (ep_connections u) ch")
    case (Some s)
    with p have "u' = upd_conn ch (\<lambda>_. snd (qc_poll_endpoint_events D (cs_conn s))) u"
      by (auto simp: poll_ee_def split: prod.splits)
    with work_upd_conn [OF _ Some, of w "\<lambda>_. snd (qc_poll_endpoint_events D (cs_conn s))"] settlesD(3) [OF W, of "cs_conn s"] I d frameD [of u ep]
    show ?thesis by simp
  qed (use p I in \<open>simp add: poll_ee_def\<close>)
qed simp

lemma route_all_work:
  assumes W: "settles D w k"
  shows "fold_opt (route_events D) ep hs = Some ep' \<Longrightarrow> distinct (handles ep) \<Longrightarrow> work w ep' \<le> work w ep \<and> frame ep' = frame ep"
proof (induction hs arbitrary: ep)
  case (Cons h hs)
  then obtain ep1 where 1: "route_events D ep h = Some ep1" "fold_opt (route_events D) ep1 hs = Some ep'"
    by (auto simp: bind_eq_Some_conv)
  with Cons.IH [OF 1(2)] route_events_work [OF W 1(1)] Cons.prems(2) frameD [of ep1 ep] show ?case by fastforce
qed simp

definition pass_pot :: "('c \<Rightarrow> nat) \<Rightarrow> ('c, 'e) pass \<Rightarrow> nat" where
  "pass_pot w p = work w (ps_ep p) + length (ps_events p) + length (ps_transmits p)"

lemma service_one_work:
  assumes W: "settles D w k" and r: "service_one D now p ch = Some p'" and d: "distinct (handles (ps_ep p))"
  shows "pass_pot w p' \<le> pass_pot w p \<and> frame (ps_ep p') = frame (ps_ep p)"
proof (cases "map_of (ep_connections (ps_ep p)) ch")
  case (Some s)
  then obtain pr s1 out c where q: "service_streams D s = Some (pr, s1)" "drain_transmits D now (cs_conn s1) [] = Some (out, c)"
    and p': "p' = \<lparr>ps_ep = (ps_ep p)\<lparr>ep_connections := AList.map_entry ch (\<lambda>_. clear_dirty (s1\<lparr>cs_conn := c\<rparr>)) (ep_connections (ps_ep p))\<rparr>,
      ps_events = ps_events p @ progress_events ch pr, ps_transmits = ps_transmits p @ out,
      ps_lost = ps_lost p @ lost_of D ch pr s1\<rparr>"
    using service_oneE [OF r Some] by metis
  have "w c + length out + reported pr \<le> w (cs_conn s)"
    using service_streams_load [OF W q(1)] drain_transmits_load [OF W q(2)] by simp
  with work_entry [OF d Some, of w "\<lambda>_. clear_dirty (s1\<lparr>cs_conn := c\<rparr>)"] show ?thesis
    by (simp add: p' pass_pot_def length_progress_events clear_dirty_def frame_def)
qed (use r in \<open>simp add: service_one_def\<close>)

lemma service_all_work:
  assumes W: "settles D w k"
  shows "fold_opt (service_one D now) p hs = Some p' \<Longrightarrow> distinct (handles (ps_ep p)) \<Longrightarrow>
    pass_pot w p' \<le> pass_pot w p \<and> frame (ps_ep p') = frame (ps_ep p)"
proof (induction hs arbitrary: p)
  case (Cons h hs)
  then obtain p1 where 1: "service_one D now p h = Some p1" "fold_opt (service_one D now) p1 hs = Some p'"
    by (auto simp: bind_eq_Some_conv)
  with Cons.IH [OF 1(2)] service_one_work [OF W 1(1)] Cons.prems(2) frameD [of "ps_ep p1" "ps_ep p"] show ?case by fastforce
qed simp

lemma reap_work:
  assumes "distinct (handles ep)"
  shows "pot w (reap l ep) \<le> pot w ep \<and> distinct (handles (reap l ep))"
proof -
  obtain ch reason where l: "l = (ch, reason)" by (cases l)
  show ?thesis
  proof (cases "map_of (ep_connections ep) ch")
    case (Some s)
    with sum_delete [OF assms Some, of "\<lambda>(ch, s). Suc (w (cs_conn s))"] assms show ?thesis
      by (simp add: l reap_def pot_def work_def Let_def)
  qed (use assms in \<open>simp add: l reap_def\<close>)
qed

lemma service_connections_work:
  assumes W: "settles D w k" and r: "service_connections D iter now ep = Some ep'" and d: "distinct (handles ep)"
  shows "pot w ep' \<le> pot w ep"
proof -
  obtain ep1 p where
    1: "fold_opt (route_events D) (ep\<lparr>ep_last_service := Some now\<rparr>) (iter (map fst (ep_connections ep))) = Some ep1" and
    2: "fold_opt (service_one D now) \<lparr>ps_ep = ep1, ps_events = [], ps_transmits = [], ps_lost = []\<rparr> (iter (map fst (ep_connections ep))) = Some p" and
    3: "ep' = refresh_next_timeout D (sweep_orphan_cids (fold reap (ps_lost p)
       ((ps_ep p)\<lparr>ep_events := ep_events (ps_ep p) @ ps_events p, ep_outbound := ep_outbound (ps_ep p) @ ps_transmits p\<rparr>)))"
    by (rule service_connectionsE [OF r])
  let ?ep2 = "(ps_ep p)\<lparr>ep_events := ep_events (ps_ep p) @ ps_events p, ep_outbound := ep_outbound (ps_ep p) @ ps_transmits p\<rparr>"
  have f1: "work w ep1 \<le> work w ep" "frame ep1 = frame (ep\<lparr>ep_last_service := Some now\<rparr>)"
    using route_all_work [OF W 1] d by simp_all
  then have e1: "handles ep1 = handles ep" "ep_events ep1 = ep_events ep" "ep_outbound ep1 = ep_outbound ep"
    using frameD by fastforce+
  have f2: "pass_pot w p \<le> work w ep1" "frame (ps_ep p) = frame ep1"
    using service_all_work [OF W 2] d e1(1) by (simp_all add: pass_pot_def)
  then have e2: "handles (ps_ep p) = handles ep" "ep_events (ps_ep p) = ep_events ep" "ep_outbound (ps_ep p) = ep_outbound ep"
    using frameD e1 by metis+
  have "pot w (fold reap ls x) \<le> pot w x" if "distinct (handles x)" for ls x
    using that
  proof (induction ls arbitrary: x)
    case (Cons l ls)
    note r = reap_work [OF Cons.prems, of w l]
    then have "pot w (fold reap ls (reap l x)) \<le> pot w (reap l x)" by (intro Cons.IH) simp
    with r show ?case by simp
  qed simp
  from this [of ?ep2 "ps_lost p"] have "pot w ep' \<le> pot w ?ep2" using e2(1) d by (simp add: 3 pot_def)
  also have "\<dots> \<le> pot w ep" using f1(1) f2(1) e2 by (simp add: pot_def pass_pot_def)
  finally show ?thesis .
qed

lemma poll_transmit_work:
  assumes W: "settles D w k" and r: "poll_transmit D iter now ep = Some (t, ep')" and d: "distinct (handles ep)"
  shows "pot w ep' + some1 t \<le> pot w ep"
proof -
  have pop: "pot w (snd (pop_outbound x)) + some1 (fst (pop_outbound x)) = pot w x" for x :: "('a, 'd) endpoint"
    by (simp add: pop_outbound_def pot_def split: list.splits)
  show ?thesis
  proof (cases "fst (pop_outbound ep)")
    case None
    then have "snd (pop_outbound ep) = ep" by (simp add: pop_outbound_def split: list.splits)
    with None r obtain ep1 where "service_connections D iter now ep = Some ep1" "(t, ep') = pop_outbound ep1"
      by (auto simp: poll_transmit_def case_prod_beta split: option.splits)
    with service_connections_work [OF W this(1) d] pop [of ep1] show ?thesis by (metis fst_conv snd_conv)
  next
    case (Some tr)
    with r have "(t, ep') = pop_outbound ep" by (auto simp: poll_transmit_def case_prod_beta split: option.splits)
    with pop [of ep] show ?thesis by (metis fst_conv order_refl snd_conv)
  qed
qed

section \<open>The parked operations\<close>

definition owed :: "parked \<Rightarrow> nat" where
  "owed pk = sum_list (map (\<lambda>(i, p). length (unsent p)) (pk_blocked_writes pk))"

text \<open>What a connection and the writes parked on it can still produce together.\<close>

definition toil :: "('c \<Rightarrow> nat) \<Rightarrow> nat \<Rightarrow> parked \<Rightarrow> 'c conn_state \<Rightarrow> nat" where
  "toil w k pk s = w (cs_conn s) + k * owed pk"

lemma owed_delete:
  assumes "parked_ok pk" "map_of (pk_blocked_writes pk) i = Some p"
  shows "owed (pk\<lparr>pk_blocked_writes := AList.delete i (pk_blocked_writes pk)\<rparr>) + length (unsent p) = owed pk"
  using sum_delete [OF _ assms(2), of "\<lambda>(i, p). length (unsent p)"] assms(1) by (simp add: owed_def parked_ok_def)

lemma owed_delete_le:
  assumes "parked_ok pk"
  shows "owed (pk\<lparr>pk_blocked_writes := AList.delete i (pk_blocked_writes pk)\<rparr>) \<le> owed pk"
proof (cases "map_of (pk_blocked_writes pk) i")
  case (Some p)
  with owed_delete [OF assms Some] show ?thesis by simp
qed (simp add: delete_absent)

lemma owed_frame [simp]:
  "owed (pk\<lparr>pk_pending_accepts := a\<rparr>) = owed pk" "owed (pk\<lparr>pk_pending_reads := b\<rparr>) = owed pk"
  "owed (pk\<lparr>pk_fin_waiters := c\<rparr>) = owed pk"
  by (simp_all add: owed_def)

lemma offer_write_toil:
  assumes W: "settles D w k" and P: "writes_progress D" and ok: "parked_ok pk" and r: "offer_write D i p pk s = Some (outs, pk', s')"
  shows "toil w k pk' s' \<le> toil w k pk s + k * length (unsent p)"
proof -
  obtain a n s1 s2 where e: "written D i (unsent p) s n s1" "n \<le> length (unsent p)"
    "pump_write D i p s = Some (a, p\<lparr>pw_offset := pw_offset p + n\<rparr>, s2)" "write_end D i (pw_reply p) (drop n (unsent p)) s1 a s2"
    using pump_write_exact [OF P] by blast
  let ?p = "p\<lparr>pw_offset := pw_offset p + n\<rparr>"
  have s2: "w (cs_conn s2) \<le> w (cs_conn s1)"
    using e(4) stream_write_load [OF W, of i "drop n (unsent p)" s1] by (auto simp: write_end_def split: if_splits)
  have s': "s' = s2" using r e(3) by (auto simp: offer_write_def split: option.splits prod.splits)
  have "owed pk' \<le> owed pk + length (unsent ?p)"
  proof (cases a)
    case None
    then have "pk' = pk\<lparr>pk_blocked_writes := AList.update i ?p (pk_blocked_writes pk)\<rparr>"
      using r e(3) by (auto simp: offer_write_def park_write_def)
    moreover have "distinct (map fst (pk_blocked_writes pk))" using ok by (simp add: parked_ok_def)
    ultimately show ?thesis
      using owed_delete_le [OF ok, of i] sum_update [of "pk_blocked_writes pk" "\<lambda>(i, p). length (unsent p)" i ?p] by (simp add: owed_def)
  next
    case (Some x)
    with r e(3) show ?thesis by (auto simp: offer_write_def)
  qed
  moreover have "length (unsent ?p) + n = length (unsent p)" using e(2) by simp
  ultimately have "owed pk' + n \<le> owed pk + length (unsent p)" by linarith
  then have "k * (owed pk' + n) \<le> k * (owed pk + length (unsent p))" by (rule mult_le_mono2)
  with written_load [OF W e(1)] s2 s' show ?thesis by (simp add: toil_def algebra_simps)
qed

lemma offer_read_toil:
  assumes W: "settles D w k" and C: "chunks_bounded D" and ok: "read_ok p" and r: "offer_read D i p pk s = Some (outs, pk', s')"
  shows "toil w k pk' s' \<le> toil w k pk s"
proof -
  obtain a p' where e: "pump_read D i p s = Some (a, p', s')" "owed pk' = owed pk"
    using r by (auto simp: offer_read_def park_read_def bind_eq_Some_conv Let_def split: option.splits)
  with pump_read_load [OF W C ok e(1)] show ?thesis by (simp add: toil_def)
qed

lemma on_readable_toil:
  assumes "settles D w k" "chunks_bounded D" "parked_ok pk" "on_readable D i pk s = Some (outs, pk', s')"
  shows "toil w k pk' s' \<le> toil w k pk s"
  using assms(4) offer_read_toil [OF assms(1,2) parked_ok_delete(4) [OF assms(3)]]
  by (auto simp: on_readable_def toil_def split: option.splits dest: offer_read_toil [OF assms(1,2) parked_ok_delete(4) [OF assms(3)]])

lemma on_writable_toil:
  assumes "settles D w k" "writes_progress D" "parked_ok pk" "on_writable D i pk s = Some (outs, pk', s')"
  shows "toil w k pk' s' \<le> toil w k pk s"
proof (cases "map_of (pk_blocked_writes pk) i")
  case (Some p)
  let ?pk = "pk\<lparr>pk_blocked_writes := AList.delete i (pk_blocked_writes pk)\<rparr>"
  have "toil w k pk' s' \<le> toil w k ?pk s + k * length (unsent p)"
    using Some assms(4) by (intro offer_write_toil [OF assms(1,2) parked_ok_delete(1) [OF assms(3)]]) (simp add: on_writable_def)
  also have "\<dots> = toil w k pk s" using owed_delete [OF assms(3) Some] by (simp add: toil_def flip: distrib_left)
  finally show ?thesis .
qed (use assms(4) in \<open>simp add: on_writable_def\<close>)

lemma serve_accepts_toil:
  assumes W: "settles D w k"
  shows "serve_accepts D rs s = (outs, rest, s') \<Longrightarrow> w (cs_conn s') \<le> w (cs_conn s)"
proof (induction rs arbitrary: s outs)
  case (Cons r rs)
  obtain x s1 where a: "accept_bi D s = (x, s1)" by fastforce
  have le: "w (cs_conn s1) \<le> w (cs_conn s)"
    using a settlesD(2) [OF W, of Bi "cs_conn s"] by (auto simp: accept_bi_def split: list.splits prod.splits)
  show ?case
  proof (cases "\<exists>i. x = Inr (Some i)")
    case True
    with a Cons obtain o1 where "serve_accepts D rs s1 = (o1, rest, s')" by (auto split: prod.splits)
    from Cons.IH [OF this] le show ?thesis by simp
  next
    case False
    with a Cons.prems le show ?thesis by (auto split: sum.splits option.splits)
  qed
qed simp

lemma on_stream_opened_toil:
  assumes "settles D w k" "on_stream_opened D pk s = (outs, pk', s')"
  shows "toil w k pk' s' \<le> toil w k pk s"
proof -
  obtain rest where "serve_accepts D (pk_pending_accepts pk) s = (outs, rest, s')" "pk' = pk\<lparr>pk_pending_accepts := rest\<rparr>"
    using assms(2) by (auto simp: on_stream_opened_def Let_def split: prod.splits)
  with serve_accepts_toil [OF assms(1) this(1)] show ?thesis by (simp add: toil_def)
qed

lemma on_stopped_toil:
  assumes W: "settles D w k" "writes_progress D" and ok: "parked_ok pk" and r: "on_stopped D i code pk s = Some (outs, pk', s')"
  shows "toil w k pk' s' \<le> toil w k pk s"
proof -
  obtain o1 pk1 where f: "fail_fin_waiters i (Stopped code) pk = (o1, pk1)" by fastforce
  obtain o2 where o2: "on_writable D i pk1 s = Some (o2, pk', s')" using r f by (auto simp: on_stopped_def bind_eq_Some_conv)
  have "owed pk1 = owed pk" using f by (auto simp: fail_fin_waiters_def split: option.splits)
  with on_writable_toil [OF W _ o2] fail_conserves(1) [OF ok f] show ?thesis by (simp add: toil_def)
qed

end
