(* ===== verification/Story.thy ===== *)
theory Story
  imports Lifecycle
begin

text \<open>
  The endpoint's event queue tells the story of each connection in order, and how every call into the
  endpoint continues it: what a driver of the endpoint rests on.
\<close>

section \<open>The event queue\<close>

text \<open>
  A queue is consistent with the live connections when a loss is the last thing it says of a connection,
  which is dead, and any other event is about a connection that is live or whose loss follows.
\<close>

fun queue_ok :: "connection_handle set \<Rightarrow> event list \<Rightarrow> bool" where
  "queue_ok L [] \<longleftrightarrow> True"
| "queue_ok L (ConnectionLost ch r # es) \<longleftrightarrow> queue_ok L es \<and> ch \<notin> L \<and> ch \<notin> event_conn ` set es"
| "queue_ok L (e # es) \<longleftrightarrow> queue_ok L es \<and> (event_conn e \<in> L \<or> (\<exists>r. ConnectionLost (event_conn e) r \<in> set es))"

definition lost_in :: "event list \<Rightarrow> connection_handle set" where
  "lost_in es = {ch. \<exists>r. ConnectionLost ch r \<in> set es}"

lemma lost_in_simps [simp]:
  "lost_in [] = {}" "lost_in (es @ fs) = lost_in es \<union> lost_in fs"
  "lost_in (ConnectionLost ch r # es) = insert ch (lost_in es)"
  by (auto simp: lost_in_def)

lemma lost_in_losses [simp]: "lost_in (map (\<lambda>(ch, reason). ConnectionLost ch reason) ls) = fst ` set ls"
  by (induction ls) (simp_all add: case_prod_beta)

lemma lost_in_other [simp]: "(\<And>c r. e \<noteq> ConnectionLost c r) \<Longrightarrow> lost_in (e # es) = lost_in es"
  by (auto simp: lost_in_def)

lemma queue_ok_other:
  "(\<And>c r. e \<noteq> ConnectionLost c r) \<Longrightarrow> queue_ok L (e # es) \<longleftrightarrow> queue_ok L es \<and> event_conn e \<in> L \<union> lost_in es"
  by (cases e) (auto simp: lost_in_def)

lemma queue_ok_tl: "queue_ok L (e # es) \<Longrightarrow> queue_ok L es"
  by (cases e) auto

lemma lost_in_mentions: "lost_in es \<subseteq> event_conn ` set es"
  by (force simp: lost_in_def)

lemma queue_ok_dead: "queue_ok L es \<Longrightarrow> lost_in es \<inter> L = {}"
proof (induction es)
  case (Cons e es)
  then show ?case by (cases e) auto
qed simp

lemma queue_ok_mentions: "queue_ok L es \<Longrightarrow> event_conn ` set es \<subseteq> L \<union> lost_in es"
proof (induction es)
  case (Cons e es)
  show ?case
  proof (cases "\<exists>c r. e = ConnectionLost c r")
    case True
    with Cons queue_ok_tl [OF Cons.prems] show ?thesis by auto
  next
    case False
    then have "lost_in (e # es) = lost_in es" by (intro lost_in_other) blast
    with Cons queue_ok_tl [OF Cons.prems] queue_ok_other [of e L es] False show ?thesis by auto
  qed
qed simp

lemma queue_ok_losses:
  "distinct (map fst ls) \<Longrightarrow> fst ` set ls \<inter> L = {} \<Longrightarrow> queue_ok L (map (\<lambda>(ch, reason). ConnectionLost ch reason) ls)"
  by (induction ls) (auto simp: image_image case_prod_beta)

lemma queue_ok_evs:
  assumes "\<forall>e\<in>set evs. (\<forall>c r. e \<noteq> ConnectionLost c r) \<and> event_conn e \<in> L \<union> lost_in es" "queue_ok L es"
  shows "queue_ok L (evs @ es)"
  using assms(1)
proof (induction evs)
  case (Cons e evs)
  then show ?case using queue_ok_other [of e L "evs @ es"] by fastforce
qed (simp add: assms(2))

text \<open>A pass appends to the queue; the live set moves from \<open>L\<close> to \<open>L'\<close>.\<close>

lemma queue_ok_append:
  assumes "queue_ok L es" "queue_ok L' fs" "L \<subseteq> L' \<union> lost_in fs" "lost_in es \<inter> (L' \<union> event_conn ` set fs) = {}"
  shows "queue_ok L' (es @ fs)"
  using assms(1,4)
proof (induction es)
  case (Cons e es)
  have "queue_ok L es" using Cons.prems(1) by (rule queue_ok_tl)
  moreover have "lost_in es \<inter> (L' \<union> event_conn ` set fs) = {}"
    using Cons.prems(2) by (auto simp: lost_in_def)
  ultimately have ih: "queue_ok L' (es @ fs)" by (rule Cons.IH)
  show ?case
  proof (cases "\<exists>c r. e = ConnectionLost c r")
    case True
    then obtain c r where "e = ConnectionLost c r" by blast
    with Cons.prems ih show ?thesis by (auto simp: lost_in_def)
  next
    case False
    then have "event_conn e \<in> L \<union> lost_in es" using Cons.prems(1) queue_ok_other [of e L es] by blast
    with ih False assms(3) queue_ok_other [of e L' "es @ fs"] show ?thesis by auto
  qed
qed (simp add: assms(2))

section \<open>How the endpoint moves under the driver\<close>

text \<open>
  One call into the endpoint: it may register connections with new handles (up to \<open>L\<close>), then appends to
  the queue what these connections report and one loss for each it takes away.
\<close>

definition moves :: "connection_handle set \<Rightarrow> ('c, 'e) endpoint \<Rightarrow> ('c, 'e) endpoint \<Rightarrow> bool" where
  "moves L ep ep' \<longleftrightarrow> (\<exists>evs lost. live ep \<subseteq> L \<and> (\<forall>ch\<in>L - live ep. ep_next_generation ep \<le> generation ch)
     \<and> (\<forall>ch\<in>L. generation ch < ep_next_generation ep')
     \<and> ep_events ep' = ep_events ep @ evs @ map (\<lambda>(ch, reason). ConnectionLost ch reason) lost
     \<and> (\<forall>e\<in>set evs. (\<forall>c r. e \<noteq> ConnectionLost c r) \<and> event_conn e \<in> L) \<and> distinct (map fst lost)
     \<and> fst ` set lost \<subseteq> L \<and> live ep' = L - fst ` set lost)"

lemma moves_still:
  assumes "live ep' = live ep" "ep_events ep' = ep_events ep" "ep_next_generation ep' = ep_next_generation ep" "handles_ok ep"
  shows "moves (live ep) ep ep'"
  unfolding moves_def using assms
  by (intro exI [of _ "[]"]) (auto simp: handles_ok_def)

lemma pass_moves:
  assumes D: "mints_fresh D M" "iter_ok iter" and parts: "books_ok M ep1" "handles_ok ep1"
    and s: "service_connections D iter now ep1 = Some ep'"
    and fed: "live ep \<subseteq> live ep1" "\<And>ch. ch \<in> live ep1 \<Longrightarrow> ch \<notin> live ep \<Longrightarrow> ep_next_generation ep \<le> generation ch"
      "ep_events ep1 = ep_events ep"
  shows "moves (live ep1) ep ep'"
proof -
  obtain evs lost where "ep_events ep' = ep_events ep1 @ evs @ map (\<lambda>(ch, reason). ConnectionLost ch reason) lost"
    "\<forall>e\<in>set evs. (\<forall>c r. e \<noteq> ConnectionLost c r) \<and> event_conn e \<in> live ep1" "distinct (map fst lost)"
    "fst ` set lost \<subseteq> live ep1" "live ep' = live ep1 - fst ` set lost"
    by (rule service_pass_events [OF D parts s])
  moreover have "ep_next_generation ep' = ep_next_generation ep1" using service_connections_keeps(4) [OF D s parts] by (simp add: config_def)
  ultimately show ?thesis
    unfolding moves_def using parts(2) fed by (intro exI [of _ evs] exI [of _ lost]) (auto simp: handles_ok_def)
qed

lemma moves_cong:
  assumes "ep_events a' = ep_events a" "live a' = live a" "ep_next_generation a' = ep_next_generation a"
  shows "moves L a b = moves L a' b" "moves L b a = moves L b a'"
  using assms by (simp_all add: moves_def)

lemma pop_outbound_same:
  "ep_events (snd (pop_outbound ep)) = ep_events ep" "live (snd (pop_outbound ep)) = live ep"
  "ep_next_generation (snd (pop_outbound ep)) = ep_next_generation ep"
  by (simp_all add: pop_outbound_def live_def split: list.splits)

lemma poll_transmit_moves:
  assumes Q: "quinn_ok D iter W M" and ok: "endpoint_ok M ep" and r: "poll_transmit D iter now ep = Some (t, ep')"
  shows "moves (live ep) ep ep'"
proof -
  have D: "mints_fresh D M" "iter_ok iter" using Q by (simp_all add: quinn_ok_def)
  have parts: "books_ok M ep" "handles_ok ep" using ok by (simp_all add: endpoint_ok_def)
  show ?thesis
  proof (cases "ep_outbound ep")
    case Nil
    then obtain ep1 where s: "service_connections D iter now ep = Some ep1" "(t, ep') = pop_outbound ep1"
      using r by (auto simp: poll_transmit_def pop_outbound_def [of ep])
    have "ep' = snd (pop_outbound ep1)" using s(2) by (metis snd_conv)
    with pass_moves [OF D parts s(1) subset_refl _ refl] moves_cong(2) [OF pop_outbound_same, of "live ep" ep ep1] show ?thesis by simp
  next
    case (Cons x xs)
    then have "ep' = snd (pop_outbound ep)" using r by (simp add: poll_transmit_def pop_outbound_def)
    with moves_still [OF pop_outbound_same(2,1,3) parts(2)] show ?thesis by simp
  qed
qed

lemma admit_events:
  assumes a: "admit D now incoming idx ep = Some (out, ep')"
  shows "ep_events ep' = ep_events ep"
proof -
  obtain r buf cs e where q: "qe_accept D incoming now (ep_inner ep) = (r, buf, cs, e)" by (metis surj_pair)
  define ep1 where "ep1 = mint_all cs (ep\<lparr>ep_inner := e\<rparr>)"
  have e1: "ep_events ep1 = ep_events ep" by (simp add: ep1_def)
  note f = a [unfolded admit_def q prod.case Let_def ep1_def [symmetric]]
  show ?thesis
  proof (cases r)
    case (Some x)
    obtain qch conn where x: "x = (qch, conn)" by (cases x)
    obtain ch ep2 where al: "allocate_handle qch ep1 = Some (ch, ep2)"
      and rest: "ep_events ep' = ep_events ep2"
      using f by (auto simp: Some x bind_eq_Some_conv push_transmit_def)
    with e1 show ?thesis by (auto simp: allocate_handle_Some)
  qed (use f e1 in simp)
qed

lemma feed_events:
  assumes "feed D now from data adm ep = Some (out, ep')"
  shows "ep_events ep' = ep_events ep"
proof -
  obtain ev resp cs e where h: "qe_handle D now from data (ep_inner ep) = (ev, resp, cs, e)"
    by (metis surj_pair)
  define ep1 where "ep1 = mint_all cs (ep\<lparr>ep_inner := e\<rparr>)"
  define ep2 where "ep2 = (if resp \<noteq> [] \<and> ep_role ep1 = RoleServer then push_transmit from resp ep1 else ep1)"
  have e2: "ep_events ep2 = ep_events ep" by (simp add: ep2_def ep1_def push_transmit_def)
  have up: "ep_events (upd_conn ch f ep2) = ep_events ep" for ch f using e2 by (simp add: upd_conn_def)
  note f = assms [unfolded feed_def h prod.case Let_def ep1_def [symmetric] ep2_def [symmetric]]
  show ?thesis
  proof (cases ev)
    case (Some x)
    then show ?thesis
    proof (cases x)
      case (QNewConnection incoming)
      with Some f e2 show ?thesis
        by (auto split: role.splits option.splits dest: admit_events)
    qed (use Some f e2 up in \<open>auto split: option.splits\<close>)
  qed (use f e2 in auto)
qed

lemma handle_datagram_moves:
  assumes Q: "quinn_ok D iter W M" and ok: "endpoint_ok M ep" and ng: "ep_next_generation ep \<noteq> - 1"
  shows "\<exists>out ep'. handle_datagram D iter clock now from data ep = Some (out, ep') \<and> endpoint_ok M ep' \<and> advances ep ep'
    \<and> (\<exists>L. moves L ep ep' \<and> (ep_role ep = RoleClient \<longrightarrow> L = live ep))"
proof -
  have D: "mints_fresh D M" "iter_ok iter" using Q by (simp_all add: quinn_ok_def)
  have parts: "books_ok M ep" "handles_ok ep" "filter_ok ep" using ok by (simp_all add: endpoint_ok_def)
  obtain out ep' where h: "handle_datagram D iter clock now from data ep = Some (out, ep')" "endpoint_ok M ep'" "advances ep ep'"
    using handle_datagram_keeps [OF assms] by blast
  have fd: "\<exists>L. moves L x y \<and> (ep_role x = RoleClient \<longrightarrow> L = live x)"
    if f: "fed D iter now from data adm x = Some (o1, y)" and x: "books_ok M x" "handles_ok x" for adm x o1 y
  proof -
    obtain x1 where 1: "feed D now from data adm x = Some (o1, x1)" "service_connections D iter now x1 = Some y"
      using f by (auto simp: fed_def bind_eq_Some_conv)
    have k: "books_ok M x1" "handles_ok x1" "feeds x adm o1 x1" using feed_keeps [OF D(1) 1(1) x] by simp_all
    have "moves (live x1) x y"
      by (rule pass_moves [OF D k(1,2) 1(2) feedsD(5) [OF k(3)] _ feed_events [OF 1(1)]]) (simp add: feedsD(8) [OF k(3)])
    moreover have "live x1 = live x" if "ep_role x = RoleClient"
      using feedsD(5,10) [OF k(3)] that by force
    ultimately show ?thesis by blast
  qed
  have "\<exists>L. moves L ep ep' \<and> (ep_role ep = RoleClient \<longrightarrow> L = live ep)"
  proof (cases "bypasses ep data")
    case True
    with h(1) fd [OF _ parts(1,2), of None out ep'] show ?thesis by (simp add: handle_datagram_stages)
  next
    case False
    obtain sel rl rs where g: "gate D clock now from data ep = Some (sel, ep\<lparr>ep_rate_limiter := rl, ep_replay := rs\<rparr>)"
      by (rule gate_returns [OF parts(3), of D clock now "from" data]) simp
    let ?ep = "ep\<lparr>ep_rate_limiter := rl, ep_replay := rs\<rparr>"
    show ?thesis
    proof (cases sel)
      case None
      with False h(1) g have "ep' = ?ep" by (simp add: handle_datagram_stages)
      then have "moves (live ep) ep ep'" by (intro moves_still) (simp_all add: live_def parts)
      then show ?thesis by blast
    next
      case (Some i)
      then obtain c where "nth_opt (ep_clients ep) i = Some c" and c: "fed D iter now from data (Some i)
          (?ep\<lparr>ep_inner := qe_set_server_config D (Some (cl_server_config c)) (ep_inner ep)\<rparr>) = Some (out, ep')" (is "fed _ _ _ _ _ _ ?x = _")
        using False h(1) g by (auto simp: handle_datagram_stages bind_eq_Some_conv)
      have "M (ep_inner ?x) = M (ep_inner ep)" using mints_freshD(4) [OF D(1)] by simp
      moreover have "books_ok M ?ep" using parts(1) books_ok_cong [of ?ep ep M] by (simp add: live_def)
      ultimately have "books_ok M ?x" by (simp add: books_ok_def)
      moreover have "handles_ok ?x" using parts(2) handles_ok_cong [of ?x ep] by simp
      ultimately obtain L where "moves L ?x ep'" "ep_role ep = RoleClient \<longrightarrow> L = live ?x"
        using fd [OF c] by auto
      then show ?thesis using moves_cong(1) [of ?x ep L ep'] by (auto simp: live_def)
    qed
  qed
  with h show ?thesis by blast
qed

lemma handle_timeout_moves:
  assumes Q: "quinn_ok D iter W M" and ok: "endpoint_ok M ep"
  shows "\<exists>ep'. handle_timeout D iter now ep = Some ep' \<and> endpoint_ok M ep' \<and> advances ep ep' \<and> moves (live ep) ep ep'"
proof -
  have D: "mints_fresh D M" "iter_ok iter" using Q by (simp_all add: quinn_ok_def)
  let ?ep = "ep\<lparr>ep_connections := map (\<lambda>(ch, s). (ch, expire D now s)) (ep_connections ep)\<rparr>"
  have e: "endpoint_ok M ?ep = endpoint_ok M ep" by (rule endpoint_ok_cong; simp add: config_def o_def case_prod_beta)
  have l: "live ?ep = live ep" by (simp add: live_def image_image case_prod_beta)
  obtain ep' where h: "handle_timeout D iter now ep = Some ep'" "endpoint_ok M ep'" "advances ep ep'"
    using handle_timeout_keeps [OF assms] by blast
  have "moves (live ?ep) ?ep ep'"
    by (rule pass_moves [OF D _ _ h(1) [unfolded handle_timeout_def] subset_refl _ refl]) (use ok e in \<open>simp_all add: endpoint_ok_def\<close>)
  with h l moves_cong(1) [of ?ep ep "live ep" ep'] show ?thesis by simp
qed

end
