(* ===== verification/Drive.thy ===== *)
theory Drive
  imports Work Story
begin

text \<open>
  What the server's and the client's driver share: the logs they keep, the contract of the reactions to
  stream events and commands, and that draining the endpoint's datagrams comes to rest.
\<close>

section \<open>Logs\<close>

definition answers :: "effect list \<Rightarrow> answer list" where
  "answers = List.map_filter (\<lambda>e. case e of Answer a \<Rightarrow> Some a | _ \<Rightarrow> None)"

definition handed :: "effect list \<Rightarrow> connection list" where
  "handed = List.map_filter (\<lambda>e. case e of Delivered c \<Rightarrow> Some c | _ \<Rightarrow> None)"

lemma log_simps [simp]:
  "answers [] = []" "answers (Answer a # es) = a # answers es" "answers (SendTo t b # es) = answers es"
  "answers (CloseReason ch r # es) = answers es" "answers (Delivered c # es) = answers es"
  "handed [] = []" "handed (Answer a # es) = handed es" "handed (SendTo t b # es) = handed es"
  "handed (CloseReason ch r # es) = handed es" "handed (Delivered c # es) = c # handed es"
  by (simp_all add: answers_def handed_def)

lemma log_append [simp]: "answers (es @ fs) = answers es @ answers fs" "handed (es @ fs) = handed es @ handed fs"
  by (simp_all add: answers_def handed_def List.map_filter_def)

lemma log_answers [simp]: "answers (map Answer as) = as" "handed (map Answer as) = []"
  by (induction as) simp_all

lemma log_sent [simp]: "answers (map send_to ts) = []" "handed (map send_to ts) = []"
  by (induction ts) (simp_all add: send_to_def)

lemma answered_dropped [simp]: "answered (dropped_replies c) = cmd_replies c"
  by (cases c) simp_all

lemma answered_dropped_senders: "answered (map SenderDropped rs) = mset rs"
  by (simp add: multiset.map_comp o_def)

lemma answered_senders: "answered (map SenderDropped (parked_senders pk)) = waiting pk"
proof -
  have c: "mset (concat (map snd al)) = (\<Sum>(i, ws)\<in>#mset al. mset ws)" for al :: "(stream_id \<times> reply list) list"
    by (induction al) auto
  show ?thesis unfolding answered_dropped_senders by (simp add: parked_senders_def waiting_def c)
qed

lemma answered_queued: "answered (concat (map (\<lambda>t. dropped_replies (tg_cmd t)) ts)) = (\<Sum>t\<in>#mset ts. cmd_replies (tg_cmd t))"
  by (induction ts) simp_all

section \<open>Connections\<close>

lemma put_conn_same [simp]:
  "live (put_conn ch s ep) = live ep" "ep_next_generation (put_conn ch s ep) = ep_next_generation ep"
  "ep_clients (put_conn ch s ep) = ep_clients ep" "ep_client_ids (put_conn ch s ep) = ep_client_ids ep"
  "ep_events (put_conn ch s ep) = ep_events ep" "ep_role (put_conn ch s ep) = ep_role ep"
  "ep_outbound (put_conn ch s ep) = ep_outbound ep" "handles (put_conn ch s ep) = handles ep"
  by (simp_all add: put_conn_def live_def flip: set_map)

lemma work_put_conn:
  assumes "distinct (handles ep)" "conn_mut ep ch = Some s"
  shows "work w (put_conn ch s' ep) + w (cs_conn s) = work w ep + w (cs_conn s')"
  using work_entry [OF assms(1), of ch s w "\<lambda>_. s'"] assms(2) by (simp add: put_conn_def conn_mut_def)

lemma waiting_new [simp]: "waiting parked_new = {#}" "parked_ok parked_new" "owed parked_new = 0"
  by (simp_all add: waiting_def parked_ok_def parked_new_def owed_def)

section \<open>Reactions\<close>

text \<open>
  A function on the parked operations and the connection of a handle behaves when it returns, keeps
  what is parked in order and takes \<open>R\<close> more senders into the ledger; it eases when it adds no work.
\<close>

definition behaves :: "reply multiset \<Rightarrow> (parked \<Rightarrow> 'c conn_state \<Rightarrow> (answer list \<times> parked \<times> 'c conn_state) option) \<Rightarrow> bool" where
  "behaves R f \<longleftrightarrow> (\<forall>pk s. parked_ok pk \<longrightarrow> (\<exists>outs pk' s'. f pk s = Some (outs, pk', s') \<and> parked_ok pk'
     \<and> answered outs + waiting pk' = waiting pk + R))"

definition eases :: "('c \<Rightarrow> nat) \<Rightarrow> nat
     \<Rightarrow> (parked \<Rightarrow> 'c conn_state \<Rightarrow> (answer list \<times> parked \<times> 'c conn_state) option) \<Rightarrow> bool" where
  "eases w k f \<longleftrightarrow> (\<forall>pk s outs pk' s'. parked_ok pk \<longrightarrow> f pk s = Some (outs, pk', s') \<longrightarrow> toil w k pk' s' \<le> toil w k pk s)"

text \<open>All that the driver relies on: quinn and the iteration order, and that quinn's work is finite.\<close>

definition driver_env ::
  "('c, 'v, 'n, 'e, 'i) deps \<Rightarrow> order \<Rightarrow> 'c conn_weights \<Rightarrow> ('e \<Rightarrow> cid set) \<Rightarrow> ('c \<Rightarrow> nat) \<Rightarrow> nat \<Rightarrow> bool" where
  "driver_env D iter W M w k \<longleftrightarrow> quinn_ok D iter W M \<and> writes_progress D \<and> settles D w k"

lemma driver_envD:
  assumes "driver_env D iter W M w k"
  shows "quinn_ok D iter W M" "writes_progress D" "settles D w k" "chunks_bounded D"
  using assms by (simp_all add: driver_env_def quinn_ok_def)

lemma stream_reactions_behave:
  assumes E: "driver_env D iter W M w k"
  shows "behaves {#} (\<lambda>pk s. Some (on_stream_opened D pk s))" "eases w k (\<lambda>pk s. Some (on_stream_opened D pk s))"
    "behaves {#} (on_readable D i)" "eases w k (on_readable D i)"
    "behaves {#} (on_writable D i)" "eases w k (on_writable D i)"
    "behaves {#} (on_stopped D i code)" "eases w k (on_stopped D i code)"
    "behaves (cmd_replies c) (apply_cmd D now c)"
proof -
  note e = driver_envD [OF E]
  show "behaves {#} (\<lambda>pk s. Some (on_stream_opened D pk s))"
    unfolding behaves_def
  proof (intro allI impI)
    fix pk and s :: "'a conn_state" assume ok: "parked_ok pk"
    obtain outs pk' s' where r: "on_stream_opened D pk s = (outs, pk', s')" by (metis surj_pair)
    with on_stream_opened_conserves [OF ok r]
    show "\<exists>outs pk' s'. Some (on_stream_opened D pk s) = Some (outs, pk', s') \<and> parked_ok pk' \<and> answered outs + waiting pk' = waiting pk + {#}"
      by simp
  qed
  show "eases w k (\<lambda>pk s. Some (on_stream_opened D pk s))"
    unfolding eases_def using on_stream_opened_toil [OF e(3)] by blast
  show "behaves {#} (on_readable D i)" "behaves {#} (on_writable D i)" "behaves {#} (on_stopped D i code)"
    "behaves (cmd_replies c) (apply_cmd D now c)"
    unfolding behaves_def empty_neutral(2)
    using on_readable_conserves [OF e(4)] on_writable_conserves [OF e(2)] on_stopped_conserves [OF e(2)] apply_cmd_conserves [OF e(4,2)]
    by blast+
  show "eases w k (on_readable D i)" "eases w k (on_writable D i)" "eases w k (on_stopped D i code)"
    unfolding eases_def using on_readable_toil [OF e(3,4)] on_writable_toil [OF e(3,2)] on_stopped_toil [OF e(3,2)] by blast+
qed

section \<open>Draining the endpoint's datagrams\<close>

definition quiescent :: "('c, 'e) endpoint \<Rightarrow> bool" where
  "quiescent ep \<longleftrightarrow> ep_outbound ep = [] \<and> (\<forall>(ch, s)\<in>set (ep_connections ep). \<not> is_dirty s)"

lemma poll_transmit_side:
  assumes Q: "quinn_ok D iter W M" and ok: "endpoint_ok M ep" and r: "poll_transmit D iter now ep = Some (t, ep')"
  shows "config ep' = config ep" "t = None \<Longrightarrow> quiescent ep'"
proof -
  have D: "mints_fresh D M" "iter_ok iter" using Q by (simp_all add: quinn_ok_def)
  have parts: "books_ok M ep" "handles_ok ep" using ok by (simp_all add: endpoint_ok_def)
  have pop: "config (snd (pop_outbound x)) = config x" for x :: "('a, 'd) endpoint"
    by (simp add: pop_outbound_def config_def split: list.splits)
  have "config ep' = config ep \<and> (t = None \<longrightarrow> quiescent ep')"
  proof (cases "ep_outbound ep")
    case Nil
    then obtain ep1 where s: "service_connections D iter now ep = Some ep1" "(t, ep') = pop_outbound ep1"
      using r by (auto simp: poll_transmit_def pop_outbound_def [of ep])
    note k = service_connections_keeps [OF D s(1) parts]
    have "ep' = snd (pop_outbound ep1)" using s(2) by (metis snd_conv)
    then have "config ep' = config ep" using pop k(4) by simp
    with s(2) k(8) show ?thesis by (auto simp: pop_outbound_def quiescent_def is_dirty_def split: list.splits)
  next
    case (Cons x xs)
    with r pop [of ep] show ?thesis by (auto simp: poll_transmit_def pop_outbound_def)
  qed
  then show "config ep' = config ep" "t = None \<Longrightarrow> quiescent ep'"
    by simp_all
qed

text \<open>Whatever each poll keeps, the drain keeps; it comes to rest, and every datagram uses up work.\<close>

lemma flush_rests:
  assumes E: "driver_env D iter W M w k" and okI: "\<And>ep. I ep \<Longrightarrow> endpoint_ok M ep"
    and stepI: "\<And>ep t ep'. I ep \<Longrightarrow> poll_transmit D iter now ep = Some (t, ep') \<Longrightarrow> I ep'"
  shows "I ep \<Longrightarrow> \<exists>ts ep'. flush D iter now ep sent = Some (sent @ ts, ep') \<and> I ep' \<and> quiescent ep' \<and> pot w ep' + length ts \<le> pot w ep"
proof (induction "pot w ep" arbitrary: ep sent rule: less_induct)
  case less
  note e = driver_envD [OF E] and ok = okI [OF less.prems]
  obtain t ep1 where t: "poll_transmit D iter now ep = Some (t, ep1)" using poll_transmit_keeps [OF e(1) ok] by blast
  have "distinct (handles ep)" using ok by (simp add: endpoint_ok_def handles_ok_distinct)
  note w = poll_transmit_work [OF e(3) t this] and I = stepI [OF less.prems t]
  show ?case
  proof (cases t)
    case None
    then have "flush D iter now ep sent = Some (sent @ [], ep1)" using t by (subst flush.simps) simp
    with I w None poll_transmit_side(2) [OF e(1) ok t] show ?thesis by (intro exI [of _ "[]"] exI [of _ ep1]) simp
  next
    case (Some tr)
    then have f: "flush D iter now ep sent = flush D iter now ep1 (sent @ [tr])" using t by (subst flush.simps) simp
    have "pot w ep1 < pot w ep" using w Some by simp
    from less.hyps [OF this I, of "sent @ [tr]"] obtain ts ep' where
      "flush D iter now ep1 (sent @ [tr]) = Some ((sent @ [tr]) @ ts, ep')" "I ep'" "quiescent ep'" "pot w ep' + length ts \<le> pot w ep1"
      by blast
    with f w Some show ?thesis by (intro exI [of _ "tr # ts"] exI [of _ ep']) simp
  qed
qed

section \<open>The sample instance\<close>

text \<open>For the witnesses: the sample quinn yields finitely much.\<close>

definition sample_load :: "sample_conn \<Rightarrow> nat" where
  "sample_load c = length (sm_events c) + length (sm_streams c) + length (sm_output c)"

lemma sample_driver_env: "driver_env sample_deps (\<lambda>hs. hs) sample_weights sample_drawn sample_load 0"
proof -
  have p: "pop_front xs = (case xs of [] \<Rightarrow> (None, []) | y # ys \<Rightarrow> (Some y, ys))" for xs :: "'x list" by (cases xs) simp_all
  have "settles sample_deps sample_load 0"
    unfolding settles_def sample_deps_def sample_quinn_def sample_load_def quinn_conn.defs
    by (simp add: p split: list.split)
  moreover have "writes_progress sample_deps" by (simp add: writes_progress_def sample_deps_def sample_quinn_def quinn_conn.defs)
  ultimately show ?thesis using sample_quinn_ok by (simp add: driver_env_def)
qed

end
