(* ===== verification/Kinds.thy ===== *)
theory Kinds
  imports Examples Drive
begin

text \<open>
  Every oneshot channel carries one type of value. A kinding assigns each channel the type it was
  created at; this theory shows that the drivers, and the parked operations inside them, answer every
  channel at its own type, and that the futures of the handles use each channel they create at most once
  and in the right order.
\<close>

section \<open>Kinds\<close>

datatype kind = StreamKind | UnitKind | BytesKind

type_synonym kinding = "reply \<rightharpoonup> kind"

fun cmd_kind :: "cmd \<Rightarrow> (reply \<times> kind) option" where
  "cmd_kind (OpenBi r) = Some (r, StreamKind)"
| "cmd_kind (AcceptBi r) = Some (r, StreamKind)"
| "cmd_kind (Write i bs r) = Some (r, UnitKind)"
| "cmd_kind (Finish i r) = Some (r, UnitKind)"
| "cmd_kind (WaitFinished i r) = Some (r, UnitKind)"
| "cmd_kind (ResetCmd i code r) = Some (r, UnitKind)"
| "cmd_kind (StopCmd i code r) = Some (r, UnitKind)"
| "cmd_kind (ReleaseSend i) = None"
| "cmd_kind (ReadToEnd i limit r) = Some (r, BytesKind)"
| "cmd_kind (ReadCmd i m r) = Some (r, BytesKind)"
| "cmd_kind (CloseCmd code reason) = None"

fun answer_fits :: "kind \<Rightarrow> answer \<Rightarrow> bool" where
  "answer_fits k (StreamReply r x) = (k = StreamKind)"
| "answer_fits k (UnitReply r x) = (k = UnitKind)"
| "answer_fits k (BytesReply r x) = (k = BytesKind)"
| "answer_fits k (SenderDropped r) = True"

definition cmd_kinded :: "kinding \<Rightarrow> cmd \<Rightarrow> bool" where
  "cmd_kinded K c \<longleftrightarrow> (\<forall>(r, k)\<in>set_option (cmd_kind c). K r = Some k)"

definition answer_kinded :: "kinding \<Rightarrow> answer \<Rightarrow> bool" where
  "answer_kinded K a \<longleftrightarrow> (\<exists>k. K (answer_to a) = Some k \<and> answer_fits k a)"

text \<open>\<open>P\<close> holds of all values of an association list.\<close>

definition all_values :: "('v \<Rightarrow> bool) \<Rightarrow> ('k \<times> 'v) list \<Rightarrow> bool" where
  "all_values P al \<longleftrightarrow> (\<forall>k v. (k, v) \<in> set al \<longrightarrow> P v)"

lemma all_values_Nil [simp]: "all_values P []"
  by (simp add: all_values_def)

lemma all_values_update: "all_values P al \<Longrightarrow> P v \<Longrightarrow> all_values P (AList.update k v al)"
  using set_update_subset [of k v al] by (auto simp: all_values_def)

lemma all_values_delete: "all_values P al \<Longrightarrow> all_values P (AList.delete k al)"
  using set_delete_subset [of k al] by (auto simp: all_values_def)

lemma all_values_get: "all_values P al \<Longrightarrow> map_of al k = Some v \<Longrightarrow> P v"
  by (auto simp: all_values_def dest: map_of_SomeD)

lemma all_values_mono: "all_values P al \<Longrightarrow> (\<And>v. P v \<Longrightarrow> Q v) \<Longrightarrow> all_values Q al"
  by (auto simp: all_values_def)

definition parked_kinded :: "kinding \<Rightarrow> parked \<Rightarrow> bool" where
  "parked_kinded K pk \<longleftrightarrow>
     (\<forall>r\<in>set (pk_pending_accepts pk). K r = Some StreamKind)
   \<and> all_values (\<lambda>p. K (pw_reply p) = Some UnitKind) (pk_blocked_writes pk)
   \<and> all_values (\<lambda>p. K (pr_reply p) = Some BytesKind) (pk_pending_reads pk)
   \<and> all_values (\<lambda>ws. \<forall>r\<in>set ws. K r = Some UnitKind) (pk_fin_waiters pk)"

lemma answer_kinded_simps [simp]:
  "answer_kinded K (StreamReply r x) \<longleftrightarrow> K r = Some StreamKind"
  "answer_kinded K (UnitReply r y) \<longleftrightarrow> K r = Some UnitKind"
  "answer_kinded K (BytesReply r z) \<longleftrightarrow> K r = Some BytesKind"
  "answer_kinded K (SenderDropped r) \<longleftrightarrow> K r \<noteq> None"
  by (auto simp: answer_kinded_def)

lemma cmd_replies_kind: "cmd_replies c = (case cmd_kind c of None \<Rightarrow> {#} | Some (r, k) \<Rightarrow> {#r#})"
  by (cases c) simp_all

lemma dropped_kinded: "cmd_kinded K c \<Longrightarrow> a \<in> set (dropped_replies c) \<Longrightarrow> answer_kinded K a"
  by (cases c) (auto simp: cmd_kinded_def)

text \<open>Creating further channels changes nothing for those there are.\<close>

lemma kinded_mono:
  assumes "K \<subseteq>\<^sub>m K'"
  shows "cmd_kinded K c \<Longrightarrow> cmd_kinded K' c" "answer_kinded K a \<Longrightarrow> answer_kinded K' a"
    "parked_kinded K pk \<Longrightarrow> parked_kinded K' pk"
proof -
  have up: "K r = Some k \<Longrightarrow> K' r = Some k" for r k using assms by (auto simp: map_le_def dom_def)
  show "cmd_kinded K c \<Longrightarrow> cmd_kinded K' c" "answer_kinded K a \<Longrightarrow> answer_kinded K' a"
    by (auto simp: cmd_kinded_def answer_kinded_def dest: up)
  show "parked_kinded K pk \<Longrightarrow> parked_kinded K' pk"
    unfolding parked_kinded_def by (blast intro: all_values_mono up)
qed

section \<open>Parked operations answer at the right type\<close>

text \<open>A reaction on a connection's parked operations that keeps them kinded and answers kindedly.\<close>

definition keeps_kinds :: "kinding \<Rightarrow> (parked \<Rightarrow> 'c conn_state \<Rightarrow> (answer list \<times> parked \<times> 'c conn_state) option) \<Rightarrow> bool" where
  "keeps_kinds K f \<longleftrightarrow> (\<forall>pk s outs pk' s'. parked_kinded K pk \<longrightarrow> f pk s = Some (outs, pk', s') \<longrightarrow>
     parked_kinded K pk' \<and> (\<forall>a\<in>set outs. answer_kinded K a))"

lemma pump_write_kind:
  assumes "pump_write Q i p s = Some y"
  shows "pw_reply (fst (snd y)) = pw_reply p \<and> (\<forall>x\<in>set_option (fst y). \<exists>v. x = UnitReply (pw_reply p) v)"
proof (rule pump_write.raw_induct
    [where P = "\<lambda>Q i p s y. pw_reply (fst (snd y)) = pw_reply p \<and> (\<forall>x\<in>set_option (fst y). \<exists>v. x = UnitReply (pw_reply p) v)", OF _ assms])
  fix pw Q i p s y
  assume IH: "\<And>Q i p s y. pw Q i p s = Some y \<Longrightarrow>
      pw_reply (fst (snd y)) = pw_reply p \<and> (\<forall>x\<in>set_option (fst y). \<exists>v. x = UnitReply (pw_reply p) v)"
    and eq: "(if length (pw_data p) \<le> pw_offset p then Some (Some (UnitReply (pw_reply p) (Inr ())), p, s)
        else case stream_write Q i (unsent p) s of
             (Inl e, s1) \<Rightarrow> Some (Some (UnitReply (pw_reply p) (Inl e)), p, s1)
           | (Inr (Wrote n), s1) \<Rightarrow> pw Q i (p\<lparr>pw_offset := pw_offset p + n\<rparr>) s1
           | (Inr WriteBlocked, s1) \<Rightarrow> Some (None, p, s1)) = Some y"
  from eq IH [of Q i "p\<lparr>pw_offset := pw_offset p + n\<rparr>" _ y for n]
  show "pw_reply (fst (snd y)) = pw_reply p \<and> (\<forall>x\<in>set_option (fst y). \<exists>v. x = UnitReply (pw_reply p) v)"
    by (fastforce split: if_splits prod.splits sum.splits write_outcome.splits)
qed

lemma pump_read_kind:
  assumes "pump_read Q i p s = Some y"
  shows "pr_reply (fst (snd y)) = pr_reply p \<and> (\<forall>x\<in>set_option (fst y). \<exists>v. x = BytesReply (pr_reply p) v)"
proof (rule pump_read.raw_induct
    [where P = "\<lambda>Q i p s y. pr_reply (fst (snd y)) = pr_reply p \<and> (\<forall>x\<in>set_option (fst y). \<exists>v. x = BytesReply (pr_reply p) v)", OF _ assms], goal_cases)
  case (1 pr Q i p s y)
  obtain r tail s1 where r: "stream_read Q i (replicate (read_request p) 0) s = Some (r, tail, s1)"
    using 1(2) by (auto simp: bind_eq_Some_conv)
  show ?case
  proof (cases "\<exists>n. r = Inr (Read n)")
    case True
    then obtain n where n: "r = Inr (Read n)" by blast
    let ?p = "p\<lparr>pr_buf := pr_buf p @ take n tail\<rparr>"
    show ?thesis
    proof (cases "over_limit ?p = None \<and> pr_max ?p = None")
      case True
      with 1(2) r n have "pr Q i ?p s1 = Some y" by (simp add: Let_def)
      from 1(1) [OF this] show ?thesis by simp
    next
      case False
      with 1(2) r n show ?thesis by (cases "over_limit ?p") (auto simp: Let_def)
    qed
  next
    case False
    with 1(2) r show ?thesis by (cases r; cases "projr r") auto
  qed
qed

abbreviation all_kinded :: "kinding \<Rightarrow> answer list \<Rightarrow> bool" where
  "all_kinded K outs \<equiv> \<forall>a\<in>set outs. answer_kinded K a"

lemma parked_kinded_entry:
  assumes "parked_kinded K pk"
  shows "map_of (pk_blocked_writes pk) i = Some p \<Longrightarrow> K (pw_reply p) = Some UnitKind"
    and "map_of (pk_pending_reads pk) i = Some q \<Longrightarrow> K (pr_reply q) = Some BytesKind"
    and "map_of (pk_fin_waiters pk) i = Some ws \<Longrightarrow> r \<in> set ws \<Longrightarrow> K r = Some UnitKind"
    and "parked_kinded K (pk\<lparr>pk_blocked_writes := AList.delete i (pk_blocked_writes pk)\<rparr>)"
    and "parked_kinded K (pk\<lparr>pk_pending_reads := AList.delete i (pk_pending_reads pk)\<rparr>)"
    and "parked_kinded K (pk\<lparr>pk_fin_waiters := AList.delete i (pk_fin_waiters pk)\<rparr>)"
  using assms by (simp_all add: parked_kinded_def all_values_delete) (blast dest: all_values_get)+

lemma offer_write_kinded:
  assumes "parked_kinded K pk" "K (pw_reply p) = Some UnitKind" "offer_write Q i p pk s = Some (outs, pk', s')"
  shows "parked_kinded K pk' \<and> all_kinded K outs"
proof -
  obtain a p1 s1 where w: "pump_write Q i p s = Some (a, p1, s1)"
    and o: "(outs, pk', s') = (case a of Some x \<Rightarrow> ([x], pk, s1) | None \<Rightarrow> let (outs, pk1) = park_write i p1 pk in (outs, pk1, s1))"
    using assms(3) by (auto simp: offer_write_def bind_eq_Some_conv)
  have k: "pw_reply p1 = pw_reply p" "\<And>x. a = Some x \<Longrightarrow> \<exists>v. x = UnitReply (pw_reply p) v" using pump_write_kind [OF w] by simp_all
  show ?thesis
  proof (cases a)
    case None
    have "parked_kinded K (pk\<lparr>pk_blocked_writes := AList.update i p1 (pk_blocked_writes pk)\<rparr>)"
      using assms(1,2) k(1) by (simp add: parked_kinded_def all_values_update)
    with None o assms(1) show ?thesis
      by (auto simp: park_write_def dest: parked_kinded_entry(1) split: option.splits)
  qed (use o k(2) assms(1,2) in auto)
qed

lemma offer_read_kinded:
  assumes "parked_kinded K pk" "K (pr_reply p) = Some BytesKind" "offer_read Q i p pk s = Some (outs, pk', s')"
  shows "parked_kinded K pk' \<and> all_kinded K outs"
proof -
  obtain a p1 s1 where w: "pump_read Q i p s = Some (a, p1, s1)"
    and o: "(outs, pk', s') = (case a of Some x \<Rightarrow> ([x], pk, s1) | None \<Rightarrow> let (outs, pk1) = park_read i p1 pk in (outs, pk1, s1))"
    using assms(3) by (auto simp: offer_read_def bind_eq_Some_conv)
  have k: "pr_reply p1 = pr_reply p" "\<And>x. a = Some x \<Longrightarrow> \<exists>v. x = BytesReply (pr_reply p) v" using pump_read_kind [OF w] by simp_all
  show ?thesis
  proof (cases a)
    case None
    have "parked_kinded K (pk\<lparr>pk_pending_reads := AList.update i p1 (pk_pending_reads pk)\<rparr>)"
      using assms(1,2) k(1) by (simp add: parked_kinded_def all_values_update)
    with None o assms(1) show ?thesis
      by (auto simp: park_read_def dest: parked_kinded_entry(2) split: option.splits)
  qed (use o k(2) assms(1,2) in auto)
qed

lemma fail_kinded:
  assumes "parked_kinded K pk"
  shows "fail_fin_waiters i e pk = (outs, pk') \<Longrightarrow> parked_kinded K pk' \<and> all_kinded K outs"
    and "fail_blocked_write i e pk = (outs, pk') \<Longrightarrow> parked_kinded K pk' \<and> all_kinded K outs"
    and "fail_pending_read i e pk = (outs, pk') \<Longrightarrow> parked_kinded K pk' \<and> all_kinded K outs"
    and "on_fin_acked i pk = (outs, pk') \<Longrightarrow> parked_kinded K pk' \<and> all_kinded K outs"
    and "fail_all pk = (outs, pk') \<Longrightarrow> all_kinded K outs"
    and "all_kinded K (map SenderDropped (parked_senders pk))"
proof -
  note e = parked_kinded_entry [OF assms]
  show "fail_fin_waiters i e pk = (outs, pk') \<Longrightarrow> parked_kinded K pk' \<and> all_kinded K outs"
    "on_fin_acked i pk = (outs, pk') \<Longrightarrow> parked_kinded K pk' \<and> all_kinded K outs"
    using assms e(3,6) [of i] by (auto simp: fail_fin_waiters_def on_fin_acked_def split: option.splits)
  show "fail_blocked_write i e pk = (outs, pk') \<Longrightarrow> parked_kinded K pk' \<and> all_kinded K outs"
    using assms e(1,4) [of i] by (auto simp: fail_blocked_write_def split: option.splits)
  show "fail_pending_read i e pk = (outs, pk') \<Longrightarrow> parked_kinded K pk' \<and> all_kinded K outs"
    using assms e(2,5) [of i] by (auto simp: fail_pending_read_def split: option.splits)
  show "fail_all pk = (outs, pk') \<Longrightarrow> all_kinded K outs" "all_kinded K (map SenderDropped (parked_senders pk))"
    using assms by (auto simp: fail_all_def parked_senders_def parked_kinded_def all_values_def)
qed

lemma serve_accepts_kinded:
  "serve_accepts Q rs s = (outs, rest, s') \<Longrightarrow> \<forall>r\<in>set rs. K r = Some StreamKind \<Longrightarrow>
    (\<forall>r\<in>set rest. K r = Some StreamKind) \<and> all_kinded K outs"
  by (induction Q rs s arbitrary: outs rest s' rule: serve_accepts.induct)
    (fastforce split: prod.splits sum.splits option.splits)+

lemma wait_finished_kinded:
  assumes "parked_kinded K pk" "K r = Some UnitKind" "wait_finished i r pk s = (outs, pk')"
  shows "parked_kinded K pk' \<and> all_kinded K outs"
proof (cases "send_fin_of i s = Some Queued")
  case True
  let ?ws = "(case map_of (pk_fin_waiters pk) i of None \<Rightarrow> [] | Some ws \<Rightarrow> ws) @ [r]"
  have "\<forall>r\<in>set ?ws. K r = Some UnitKind"
    using assms(2) parked_kinded_entry(3) [OF assms(1), of i] by (cases "map_of (pk_fin_waiters pk) i") auto
  then have "parked_kinded K (pk\<lparr>pk_fin_waiters := AList.update i ?ws (pk_fin_waiters pk)\<rparr>)"
    using assms(1) by (simp add: parked_kinded_def all_values_update)
  with True assms(3) show ?thesis by (auto simp: wait_finished_def)
next
  case False
  with assms show ?thesis by (auto simp: wait_finished_def split: option.splits send_fin.splits)
qed

lemma on_stream_opened_kinded: "keeps_kinds K (\<lambda>pk s. Some (on_stream_opened Q pk s))"
  unfolding keeps_kinds_def
proof (intro allI impI)
  fix pk s outs pk' s'
  assume k: "parked_kinded K pk" and r: "Some (on_stream_opened Q pk s) = Some (outs, pk', s')"
  obtain os rest s1 where a: "serve_accepts Q (pk_pending_accepts pk) s = (os, rest, s1)" by (metis surj_pair)
  with serve_accepts_kinded [OF a, of K] k r
  show "parked_kinded K pk' \<and> all_kinded K outs" by (auto simp: on_stream_opened_def parked_kinded_def)
qed

lemma on_readable_kinded: "keeps_kinds K (on_readable Q i)"
  unfolding keeps_kinds_def on_readable_def
  by (auto split: option.splits dest: parked_kinded_entry(2) offer_read_kinded [OF parked_kinded_entry(5)])

lemma on_writable_kinded: "keeps_kinds K (on_writable Q i)"
  unfolding keeps_kinds_def on_writable_def
  by (auto split: option.splits dest: parked_kinded_entry(1) offer_write_kinded [OF parked_kinded_entry(4)])

lemma on_stopped_kinded: "keeps_kinds K (on_stopped Q i code)"
  unfolding keeps_kinds_def
proof (intro allI impI)
  fix pk s outs pk' s'
  assume k: "parked_kinded K pk" and r: "on_stopped Q i code pk s = Some (outs, pk', s')"
  obtain log1 pk1 where f: "fail_fin_waiters i (Stopped code) pk = (log1, pk1)" by fastforce
  with r obtain log2 where w: "on_writable Q i pk1 s = Some (log2, pk', s')" "outs = log1 @ log2"
    by (auto simp: on_stopped_def bind_eq_Some_conv)
  note a = fail_kinded(1) [OF k f]
  have "parked_kinded K pk' \<and> all_kinded K log2"
    using on_writable_kinded [of K Q i] a w(1) unfolding keeps_kinds_def by blast
  with a w(2) show "parked_kinded K pk' \<and> all_kinded K outs" by auto
qed

lemma reset_kinded:
  assumes "parked_kinded K pk" "K r = Some UnitKind" "apply_cmd Q now (ResetCmd i code r) pk s = Some (outs, pk', s')"
  shows "parked_kinded K pk' \<and> all_kinded K outs"
proof -
  obtain x s1 where x: "stream_reset Q i code s = (x, s1)" by fastforce
  obtain log1 pk1 where f: "fail_fin_waiters i ClosedStream pk = (log1, pk1)" by fastforce
  obtain log2 pk2 where g: "fail_blocked_write i ClosedStream pk1 = (log2, pk2)" by fastforce
  note a = fail_kinded(1) [OF assms(1) f]
  have "parked_kinded K pk2 \<and> all_kinded K log2" using fail_kinded(2) [OF _ g] a by blast
  with a x f g assms show ?thesis by (cases "isl x") auto
qed

lemma stop_kinded:
  assumes "parked_kinded K pk" "K r = Some UnitKind" "apply_cmd Q now (StopCmd i code r) pk s = Some (outs, pk', s')"
  shows "parked_kinded K pk' \<and> all_kinded K outs"
proof -
  obtain x s1 where x: "stream_stop Q i code s = (x, s1)" by fastforce
  obtain log1 pk1 where f: "fail_pending_read i ClosedStream pk = (log1, pk1)" by fastforce
  from fail_kinded(3) [OF assms(1) f] x f assms show ?thesis by (cases "isl x") auto
qed

lemma apply_cmd_kinded:
  assumes "cmd_kinded K c"
  shows "keeps_kinds K (apply_cmd Q now c)"
  unfolding keeps_kinds_def
proof (intro allI impI)
  fix pk s outs pk' s'
  assume k: "parked_kinded K pk" and r: "apply_cmd Q now c pk s = Some (outs, pk', s')"
  have key: "K r = Some kd" if "cmd_kind c = Some (r, kd)" for r kd using assms that by (auto simp: cmd_kinded_def)
  show "parked_kinded K pk' \<and> all_kinded K outs"
  proof (cases c)
    case (AcceptBi a)
    with key have a: "K a = Some StreamKind" by simp
    then have "parked_kinded K (pk\<lparr>pk_pending_accepts := pk_pending_accepts pk @ [a]\<rparr>)" using k by (auto simp: parked_kinded_def)
    with AcceptBi a r k show ?thesis by (auto split: prod.splits sum.splits option.splits)
  next
    case (WaitFinished i a)
    obtain os pk1 where "wait_finished i a pk s = (os, pk1)" by fastforce
    with wait_finished_kinded [OF k _ this] key WaitFinished r show ?thesis by auto
  next
    case (ResetCmd i code a)
    with key r reset_kinded [OF k] show ?thesis by simp
  next
    case (StopCmd i code a)
    with key r stop_kinded [OF k] show ?thesis by simp
  next
    case (Write i bs a)
    with key r offer_write_kinded [OF k, of "\<lparr>pw_data = bs, pw_offset = 0, pw_reply = a\<rparr>"] show ?thesis by simp
  next
    case (ReadToEnd i limit a)
    with key r offer_read_kinded [OF k, of "\<lparr>pr_buf = [], pr_end_limit = Some limit, pr_max = None, pr_reply = a\<rparr>"] show ?thesis by simp
  next
    case (ReadCmd i m a)
    with key r offer_read_kinded [OF k, of "\<lparr>pr_buf = [], pr_end_limit = None, pr_max = Some (max m 1), pr_reply = a\<rparr>"] show ?thesis by simp
  qed (use key r k in \<open>auto split: prod.splits\<close>)
qed

lemmas reactions_kinded = on_stream_opened_kinded on_readable_kinded on_writable_kinded on_stopped_kinded

section \<open>Futures use their channels well\<close>

text \<open>
  Where a future is with its channels: it has none in use, it has created one of a kind and not sent it
  yet, or it has sent it away and waits.
\<close>

datatype stage = Idle | Created reply kind | Sent reply kind

inductive tidy :: "stage \<Rightarrow> 'a future \<Rightarrow> bool" where
  finished: "tidy Idle (Ready a)"
| create: "(\<And>r. tidy (Created r k) (f r)) \<Longrightarrow> tidy Idle (Channel f)"
| request: "cmd_kind (tg_cmd t) = Some (r, k) \<Longrightarrow> tidy (Sent r k) (f True) \<Longrightarrow> tidy Idle (f False) \<Longrightarrow> tidy (Created r k) (Send t f)"
| notify: "cmd_kind (tg_cmd t) = None \<Longrightarrow> (\<And>b. tidy Idle (f b)) \<Longrightarrow> tidy Idle (Send t f)"
| receive: "(\<And>a. answer_to a = r \<Longrightarrow> answer_fits k a \<Longrightarrow> \<exists>m. f a = Some m \<and> tidy Idle m) \<Longrightarrow> tidy (Sent r k) (Await r f)"

inductive_cases tidy_ReadyE: "tidy st (Ready a)"
inductive_cases tidy_ChannelE: "tidy st (Channel f)"
inductive_cases tidy_SendE: "tidy st (Send t f)"
inductive_cases tidy_AwaitE: "tidy st (Await r f)"

lemma tidy_and_then:
  assumes "tidy st m" "\<And>a. tidy Idle (g a)"
  shows "tidy st (and_then m g)"
  using assms(1)
proof (induction rule: tidy.induct)
  case (receive r k f)
  then have "\<exists>m. map_option (\<lambda>m. and_then m g) (f a) = Some m \<and> tidy Idle m" if "answer_to a = r" "answer_fits k a" for a
    using that by fastforce
  then show ?case by (simp add: tidy.receive)
qed (auto intro: tidy.intros assms(2))

lemma tidy_try_then:
  assumes "tidy st m" "\<And>a. tidy Idle (g a)"
  shows "tidy st (try_then m g)"
  unfolding try_then_def by (rule tidy_and_then [OF assms(1)]) (auto intro: tidy.finished assms(2) split: sum.split)

lemma tidy_await:
  "tidy (Sent r StreamKind) (await_stream r)" "tidy (Sent r UnitKind) (await_unit r)" "tidy (Sent r BytesKind) (await_bytes r)"
  unfolding await_stream_def await_unit_def await_bytes_def
  by (intro tidy.receive; auto split: answer.splits intro: tidy.finished)+

text \<open>The shape all requests share: create a channel, send it with a command, wait.\<close>

lemma tidy_request:
  assumes "\<And>r. cmd_kind (c r) = Some (r, k)" "\<And>r. tidy (Sent r k) (w r)"
  shows "tidy Idle (and_then oneshot_channel (\<lambda>tx. try_then (cmd_send cmds (c tx)) (\<lambda>_. w tx)))"
proof -
  have "tidy (Created r k) (try_then (cmd_send cmds (c r)) (\<lambda>_. w r))" for r
    by (auto simp: try_then_def cmd_send_def cmd_tagged_def assms intro!: tidy.request tidy.finished)
  then show ?thesis by (auto intro: tidy.create)
qed

lemma tidy_notify:
  assumes "cmd_kind c = None" "\<And>x. tidy Idle (g x)"
  shows "tidy Idle (and_then (cmd_send cmds c) g)"
  using assms by (auto simp: cmd_send_def cmd_tagged_def intro: tidy.notify)

lemma tidy_checked: "(\<And>v. tidy Idle (g v)) \<Longrightarrow> tidy Idle (try_then (Ready x) g)"
  by (rule tidy_try_then [OF tidy.finished])

lemma tidy_streams:
  "tidy Idle (and_then oneshot_channel (\<lambda>tx. try_then (cmd_send cmds (OpenBi tx)) (\<lambda>_.
      try_then (await_stream tx) (\<lambda>i. Ready (h i)))))"
  "tidy Idle (and_then oneshot_channel (\<lambda>tx. try_then (cmd_send cmds (AcceptBi tx)) (\<lambda>_.
      try_then (await_stream tx) (\<lambda>i. Ready (h i)))))"
  by (rule tidy_request [where k = StreamKind]; auto intro: tidy_try_then [OF tidy_await(1)] tidy.finished)+

lemma tidy_wait: "tidy Idle (handle_wait_finished cmds i)"
  unfolding handle_wait_finished_def by (rule tidy_request [where k = UnitKind]) (simp_all add: tidy_await)

lemma tidy_unit:
  assumes "\<And>r. cmd_kind (mk r) = Some (r, UnitKind)"
  shows "tidy Idle (and_then oneshot_channel (\<lambda>tx. try_then (cmd_send cmds (mk tx)) (\<lambda>_. await_unit tx)))"
  by (rule tidy_request [OF assms]) (simp add: tidy_await)

lemma tidy_bytes:
  assumes "\<And>r. cmd_kind (mk r) = Some (r, BytesKind)"
  shows "tidy Idle (and_then oneshot_channel (\<lambda>tx. try_then (cmd_send cmds (mk tx)) (\<lambda>_. await_bytes tx)))"
  by (rule tidy_request [OF assms]) (simp add: tidy_await)

lemma tidy_read: "tidy Idle (recv_read rs m)"
  unfolding recv_read_def read_chunk_def by (simp add: tidy.finished tidy_bytes del: and_then.simps)

lemma tidy_close: "tidy Idle (connection_close Q c code reason)"
  unfolding connection_close_def by (intro tidy_checked tidy_notify) (simp_all add: tidy.finished)

lemma tidy_methods:
  "tidy Idle (connection_open_bi c)" "tidy Idle (connection_accept_bi c)" "tidy Idle (recv_read_to_end rs limit)"
  "tidy Idle (send_write_all ss buf)" "tidy Idle (send_finish ss)"
  unfolding connection_open_bi_def connection_accept_bi_def recv_read_to_end_def send_write_all_def send_finish_def
  by (auto simp del: and_then.simps intro!: tidy_streams tidy_unit tidy_bytes)

lemma tidy_call: "tidy Idle (call_future Q c)"
  by (cases c) (auto simp: quinn_open_bi_def quinn_accept_bi_def quinn_finish_def quinn_wait_finished_def quinn_finish_and_wait_def
      quinn_forget_send_def recv_stop_def send_wait_finished_def send_finish_and_wait_def send_reset_def
      simp del: and_then.simps intro!: tidy_methods tidy_read tidy_close tidy_and_then tidy_streams tidy_wait tidy_checked tidy_unit
      tidy_notify tidy.finished tidy_try_then)

text \<open>So do the programs made of them.\<close>

lemma tidy_or_fail: "tidy Idle m \<Longrightarrow> tidy Idle (or_fail m)"
  unfolding or_fail_def by (rule tidy_and_then) (auto intro: tidy.finished)

lemma tidy_receive: "tidy Idle (receive_from rs response)"
proof (induction rs response rule: receive_from.induct)
  case (1 rs response)
  then show ?case by (subst receive_from.simps) (auto intro!: tidy_try_then [OF tidy_read] tidy.finished)
qed

lemma tidy_program: "tidy Idle (program_future Q p)"
proof (cases p)
  case (Call c)
  then show ?thesis by (simp add: tidy_call)
qed (auto simp: echo_server_session_def echo_client_session_def exchange_receive_def exchange_send_request_def
    simp del: and_then.simps split: prod.split
    intro!: tidy_and_then tidy_try_then tidy_or_fail tidy_methods tidy_close tidy_receive tidy.finished)

end
