(* ===== verification/Client.thy ===== *)
theory Client
  imports Drive
begin

text \<open>
  \<open>src/client.rs\<close>: the tokio driver of a client around the sans-IO endpoint, and \<open>connect\<close>. The driver
  owns one connection. Its state is the endpoint, the handle it dialled, that connection's parked
  operations, the command channel, whether it still holds the sender that tells \<open>connect\<close> the outcome, and
  logs of what it has done to the outside and of what that sender was used for.
\<close>

section \<open>Errors and addresses\<close>

datatype client_error =
    ClientIo io_error
  | ClientTls string
  | ClientConnect string
  | ClientConnectionLost q_connection_error
  | ClientHandshakeIncomplete
  | ClientTimedOut

definition DEFAULT_CONNECT_TIMEOUT :: instant where "DEFAULT_CONNECT_TIMEOUT = 10 * 1000000000"

fun client_error_of :: "config_error \<Rightarrow> client_error" where
  "client_error_of (Io io) = ClientIo (IoOther io)"
| "client_error_of (Parse parse) = ClientIo (IoOther parse)"
| "client_error_of (Invalid message) = ClientIo (IoInvalidInput message)"

fun is_ipv4 :: "socket_addr \<Rightarrow> bool" where
  "is_ipv4 (AddrV4 a p) = True"
| "is_ipv4 (AddrV6 a p f s) = False"

text \<open>\<open>fmt\<close> renders a socket address.\<close>

definition bind_addr :: "(socket_addr \<Rightarrow> string) \<Rightarrow> client_config_file \<Rightarrow> client_error + socket_addr" where
  "bind_addr fmt cfg =
     (case cf_bind cfg of
        Some explicit \<Rightarrow>
          if is_ipv4 explicit \<noteq> is_ipv4 (cf_server cfg)
          then Inl (ClientIo (IoInvalidInput (''bind address '' @ fmt explicit @ '' and server address '' @ fmt (cf_server cfg)
                 @ '' are different IP versions'')))
          else Inr explicit
      | None \<Rightarrow> if is_ipv4 (cf_server cfg) then Inr (AddrV4 0 0) else Inr (AddrV6 0 0 0 0))"

section \<open>The driver\<close>

datatype connect_reply = Replied "client_error + connection" | ReplyDropped

record ('c, 'e) client_driver =
  cd_core :: "('c, 'e) endpoint"
  cd_handle :: connection_handle
  cd_parked :: parked
  cd_cmds :: "tagged list"
  cd_connected :: bool
  cd_running :: bool
  cd_log :: "effect list"
  cd_replies :: "connect_reply list"

definition client_new :: "('c, 'e) endpoint \<Rightarrow> connection_handle \<Rightarrow> ('c, 'e) client_driver" where
  "client_new core handle = \<lparr>cd_core = core, cd_handle = handle, cd_parked = parked_new, cd_cmds = [], cd_connected = True,
     cd_running = True, cd_log = [], cd_replies = []\<rparr>"

definition client_emit :: "effect list \<Rightarrow> ('c, 'e) client_driver \<Rightarrow> ('c, 'e) client_driver" where
  "client_emit es d = d\<lparr>cd_log := cd_log d @ es\<rparr>"

text \<open>The sender for \<open>connect\<close>, if it is still held, is used for \<open>r\<close>.\<close>

definition take_connected :: "connect_reply \<Rightarrow> ('c, 'e) client_driver \<Rightarrow> ('c, 'e) client_driver" where
  "take_connected r d = (if cd_connected d then d\<lparr>cd_connected := False, cd_replies := cd_replies d @ [r]\<rparr> else d)"

definition with_own ::
  "(parked \<Rightarrow> 'c conn_state \<Rightarrow> (answer list \<times> parked \<times> 'c conn_state) option) \<Rightarrow> answer list
     \<Rightarrow> ('c, 'e) client_driver \<Rightarrow> ('c, 'e) client_driver option" where
  "with_own f otherwise d =
     (case conn_mut (cd_core d) (cd_handle d) of
        None \<Rightarrow> Some (client_emit (map Answer otherwise) d)
      | Some s \<Rightarrow>
          do {
            (outs, pk', s') \<leftarrow> f (cd_parked d) s;
            Some (client_emit (map Answer outs) (d\<lparr>cd_parked := pk', cd_core := put_conn (cd_handle d) s' (cd_core d)\<rparr>))
          })"

definition client_surface :: "('c, 'v, 'n, 'e, 'i) deps \<Rightarrow> ('c, 'e) client_driver \<Rightarrow> ('c, 'e) client_driver" where
  "client_surface D d =
     take_connected
       (case conn_mut (cd_core d) (cd_handle d) of
          None \<Rightarrow> ReplyDropped
        | Some s \<Rightarrow> Replied (Inr \<lparr>cn_remote = qc_remote_address D (cs_conn s), cn_handle = cd_handle d, cn_client_id = None\<rparr>)) d"

definition client_lost :: "connection_error \<Rightarrow> ('c, 'e) client_driver \<Rightarrow> ('c, 'e) client_driver" where
  "client_lost reason d =
     (let (outs, pk) = fail_all (mark_closed reason (cd_parked d))
      in take_connected (Replied (Inl ClientHandshakeIncomplete))
           (client_emit (CloseReason (cd_handle d) reason # map Answer outs) (d\<lparr>cd_parked := pk\<rparr>)))"

text \<open>The answer: was the connection lost, and the driver afterwards.\<close>

definition client_on_event ::
  "('c, 'v, 'n, 'e, 'i) deps \<Rightarrow> event \<Rightarrow> ('c, 'e) client_driver \<Rightarrow> (bool \<times> ('c, 'e) client_driver) option" where
  "client_on_event D e d =
     (if event_conn e \<noteq> cd_handle d then Some (False, d)
      else case e of
             Connected ch \<Rightarrow> Some (False, client_surface D d)
           | StreamOpened ch i dir \<Rightarrow> map_option (Pair False) (with_own (\<lambda>pk s. Some (on_stream_opened D pk s)) [] d)
           | StreamReadable ch i \<Rightarrow> map_option (Pair False) (with_own (on_readable D i) [] d)
           | StreamWritable ch i \<Rightarrow> map_option (Pair False) (with_own (on_writable D i) [] d)
           | StreamFinAcked ch i \<Rightarrow>
               (let (outs, pk') = on_fin_acked i (cd_parked d)
                in Some (False, client_emit (map Answer outs) (d\<lparr>cd_parked := pk'\<rparr>)))
           | StreamStopped ch i code \<Rightarrow> map_option (Pair False) (with_own (on_stopped D i code) [] d)
           | ConnectionLost ch reason \<Rightarrow> Some (True, client_lost reason d))"

definition client_on_command ::
  "('c, 'v, 'n, 'e, 'i) deps \<Rightarrow> instant \<Rightarrow> tagged \<Rightarrow> ('c, 'e) client_driver \<Rightarrow> ('c, 'e) client_driver option" where
  "client_on_command D now t d =
     (if tg_handle t \<noteq> cd_handle d then Some (client_emit (map Answer (dropped_replies (tg_cmd t))) d)
      else with_own (apply_cmd D now (tg_cmd t)) (dropped_replies (tg_cmd t)) d)"

section \<open>The pump and the event loop\<close>

text \<open>The inner loop carries the flags \<open>progressed\<close> and \<open>lost\<close>.\<close>

definition client_next_event ::
  "bool \<times> bool \<times> ('c, 'e) client_driver \<Rightarrow> event option \<times> bool \<times> bool \<times> ('c, 'e) client_driver" where
  "client_next_event = (\<lambda>(progressed, lost, d). let (e, core) = poll_event (cd_core d) in (e, progressed, lost, d\<lparr>cd_core := core\<rparr>))"

definition client_react ::
  "('c, 'v, 'n, 'e, 'i) deps \<Rightarrow> event \<Rightarrow> bool \<times> bool \<times> ('c, 'e) client_driver
     \<Rightarrow> (bool \<times> bool \<times> ('c, 'e) client_driver) option" where
  "client_react D e = (\<lambda>(progressed, lost, d). map_option (\<lambda>(b, d'). (True, lost \<or> b, d')) (client_on_event D e d))"

definition client_drain_events ::
  "('c, 'v, 'n, 'e, 'i) deps \<Rightarrow> bool \<times> bool \<times> ('c, 'e) client_driver \<Rightarrow> (bool \<times> bool \<times> ('c, 'e) client_driver) option" where
  "client_drain_events D = while_some client_next_event (client_react D)"

text \<open>\<open>True\<close> is \<open>Break\<close>: the connection has been lost.\<close>

partial_function (option) client_pump ::
  "('c, 'v, 'n, 'e, 'i) deps \<Rightarrow> order \<Rightarrow> (nat \<Rightarrow> instant) \<Rightarrow> ('c, 'e) client_driver \<Rightarrow> (bool \<times> ('c, 'e) client_driver) option" where
  "client_pump D iter clk d =
     Option.bind (client_drain_events D (False, False, d)) (\<lambda>(progressed, lost, d1).
       Option.bind (flush D iter (clk 0) (cd_core d1) []) (\<lambda>(sent, core).
         let d2 = client_emit (map send_to sent) (d1\<lparr>cd_core := core\<rparr>)
         in if lost then Some (True, d2)
            else if \<not> progressed \<and> sent = [] then Some (False, d2)
            else client_pump D iter (\<lambda>n. clk (Suc n)) d2))"

text \<open>The end of the driver's task drops every sender it holds.\<close>

definition client_drop :: "('c, 'e) client_driver \<Rightarrow> ('c, 'e) client_driver" where
  "client_drop d =
     take_connected ReplyDropped
       (client_emit (map Answer (map SenderDropped (parked_senders (cd_parked d)) @ concat (map (\<lambda>t. dropped_replies (tg_cmd t)) (cd_cmds d))))
         (d\<lparr>cd_parked := parked_new, cd_cmds := [], cd_running := False\<rparr>))"

definition client_turn ::
  "('c, 'v, 'n, 'e, 'i) deps \<Rightarrow> order \<Rightarrow> (nat \<Rightarrow> instant) \<Rightarrow> ('c, 'e) client_driver \<Rightarrow> ('c, 'e) client_driver option" where
  "client_turn D iter clk d = map_option (\<lambda>(brk, d'). if brk then client_drop d' else d') (client_pump D iter clk d)"

definition client_deadline :: "instant \<Rightarrow> ('c, 'e) client_driver \<Rightarrow> instant" where
  "client_deadline now d = (case next_timeout (cd_core d) of Some t \<Rightarrow> t | None \<Rightarrow> now + IDLE_SLEEP)"

text \<open>
  What can happen: a turn of the loop (the first one, or after a socket error), the arms of its
  \<open>select!\<close>, a command from a handle, and the abort of the task when \<open>connect\<close> times out.
\<close>

datatype client_op =
    ClientLoops "nat \<Rightarrow> instant"
  | ClientRecv "nat option" instant socket_addr bytes "nat \<Rightarrow> instant"
  | ClientNextCommand instant "nat \<Rightarrow> instant"
  | ClientTimer instant instant "nat \<Rightarrow> instant"
  | ClientAppSend tagged
  | ClientAbort

fun client_exec ::
  "('c, 'v, 'n, 'e, 'i) deps \<Rightarrow> order \<Rightarrow> ('c, 'e) client_driver \<Rightarrow> client_op \<Rightarrow> ('c, 'e) client_driver option" where
  "client_exec D iter d (ClientLoops clk) = (if cd_running d then client_turn D iter clk d else Some d)"
| "client_exec D iter d (ClientRecv clock now from data clk) =
     (if cd_running d
      then do {
        (outcome, core) \<leftarrow> handle_datagram D iter clock now from (take MAX_DATAGRAM data) (cd_core d);
        client_turn D iter clk (d\<lparr>cd_core := core\<rparr>)
      }
      else Some d)"
| "client_exec D iter d (ClientNextCommand now clk) =
     (case cd_cmds d of
        [] \<Rightarrow> Some d
      | t # ts \<Rightarrow> do { d1 \<leftarrow> client_on_command D now t (d\<lparr>cd_cmds := ts\<rparr>); client_turn D iter clk d1 })"
| "client_exec D iter d (ClientTimer armed now clk) =
     (if cd_running d \<and> client_deadline armed d \<le> now
      then do { core \<leftarrow> handle_timeout D iter now (cd_core d); client_turn D iter clk (d\<lparr>cd_core := core\<rparr>) }
      else Some d)"
| "client_exec D iter d (ClientAppSend t) =
     (if cd_running d \<and> length (cd_cmds d) < CMD_CHANNEL_CAP then Some (d\<lparr>cd_cmds := cd_cmds d @ [t]\<rparr>) else Some d)"
| "client_exec D iter d ClientAbort = Some (if cd_running d then client_drop d else d)"

section \<open>Connecting\<close>

text \<open>
  \<open>bound\<close> is what binding the socket answers, \<open>crypto_err\<close> and \<open>inner\<close> are what building the TLS
  configuration and the quinn endpoint give, and \<open>ops\<close> is what the driver does until it has told the
  outcome or the timeout has elapsed.
\<close>

definition connect_with_timeout ::
  "('c, 'v, 'n, 'e, 'i) deps \<Rightarrow> order \<Rightarrow> (socket_addr \<Rightarrow> string) \<Rightarrow> (socket_addr \<Rightarrow> io_error option) \<Rightarrow> 'e \<Rightarrow> string option
     \<Rightarrow> bytes \<Rightarrow> instant \<Rightarrow> u32 \<Rightarrow> client_config_file \<Rightarrow> client_op list
     \<Rightarrow> ((client_error + connection) \<times> ('c, 'e) client_driver option) option" where
  "connect_with_timeout D iter fmt bound inner crypto_err nonce now freshness_minute cfg ops =
     (case bind_addr fmt cfg of
        Inl e \<Rightarrow> Some (Inl e, None)
      | Inr addr \<Rightarrow>
          case bound addr of
            Some e \<Rightarrow> Some (Inl (ClientIo e), None)
          | None \<Rightarrow>
              do {
                r \<leftarrow> new_client D inner crypto_err nonce now freshness_minute cfg;
                case r of
                  Inl e \<Rightarrow> Some (Inl (client_error_of e), None)
                | Inr (core, handle) \<Rightarrow>
                    do {
                      (_, d) \<leftarrow> run_opt (\<lambda>d op. map_option (Pair ()) (client_exec D iter d op)) (client_new core handle) ops;
                      case cd_replies d of
                        Replied result # _ \<Rightarrow> Some (result, Some d)
                      | ReplyDropped # _ \<Rightarrow> Some (Inl ClientHandshakeIncomplete, Some d)
                      | [] \<Rightarrow> Some (Inl ClientTimedOut, Some (client_drop d))
                    }
              })"

text \<open>
  \<open>Client::connect\<close> and \<open>connect\<close>: of what would happen, only what begins within the default timeout, counted
  from \<open>start\<close>, does before \<open>connect\<close> gives up.
\<close>

fun before :: "instant \<Rightarrow> client_op \<Rightarrow> bool" where
  "before deadline (ClientLoops clk) = (clk 0 < deadline)"
| "before deadline (ClientRecv clock now from data clk) = (now < deadline)"
| "before deadline (ClientNextCommand now clk) = (now < deadline)"
| "before deadline (ClientTimer armed now clk) = (now < deadline)"
| "before deadline (ClientAppSend t) = True"
| "before deadline ClientAbort = True"

definition client_connect ::
  "('c, 'v, 'n, 'e, 'i) deps \<Rightarrow> order \<Rightarrow> (socket_addr \<Rightarrow> string) \<Rightarrow> (socket_addr \<Rightarrow> io_error option) \<Rightarrow> 'e \<Rightarrow> string option
     \<Rightarrow> bytes \<Rightarrow> instant \<Rightarrow> u32 \<Rightarrow> client_config_file \<Rightarrow> instant \<Rightarrow> client_op list
     \<Rightarrow> ((client_error + connection) \<times> ('c, 'e) client_driver option) option" where
  "client_connect D iter fmt bound inner crypto_err nonce now freshness_minute cfg start ops =
     connect_with_timeout D iter fmt bound inner crypto_err nonce now freshness_minute cfg
       (takeWhile (before (start + DEFAULT_CONNECT_TIMEOUT)) ops)"

end
