(* ===== verification/DriverKinds.thy ===== *)
theory DriverKinds
  imports Kinds Client
begin

text \<open>
  The two drivers answer every oneshot channel at the type it was created at: if every command that was
  queued is kinded, so is every answer in the log, whatever the drivers do.
\<close>

section \<open>The server's driver answers at the right type\<close>

definition driver_kinded :: "kinding \<Rightarrow> ('c, 'e) driver \<Rightarrow> bool" where
  "driver_kinded K d \<longleftrightarrow> all_values (parked_kinded K) (dv_parked d) \<and> (\<forall>t\<in>set (dv_cmds d). cmd_kinded K (tg_cmd t))
     \<and> all_kinded K (answers (dv_log d))"

lemma parked_new_kinded [simp]: "parked_kinded K parked_new"
  by (simp add: parked_kinded_def parked_new_def)

lemma with_conn_kinded:
  assumes "driver_kinded K d" "keeps_kinds K f" "all_kinded K otherwise" "with_conn ch f otherwise d = Some d'"
  shows "driver_kinded K d'"
proof (cases "\<exists>pk s. map_of (dv_parked d) ch = Some pk \<and> conn_mut (dv_core d) ch = Some s")
  case True
  then obtain pk s where c: "map_of (dv_parked d) ch = Some pk" "conn_mut (dv_core d) ch = Some s" by blast
  with assms(4) obtain outs pk' s' where f: "f pk s = Some (outs, pk', s')"
    and d': "d' = emit (map Answer outs) (d\<lparr>dv_parked := AList.update ch pk' (dv_parked d), dv_core := put_conn ch s' (dv_core d)\<rparr>)"
    by (auto simp: with_conn_def bind_eq_Some_conv)
  have "parked_kinded K pk" using assms(1) c(1) by (auto simp: driver_kinded_def dest: all_values_get)
  then have "parked_kinded K pk' \<and> all_kinded K outs" using assms(2) f unfolding keeps_kinds_def by blast
  with assms(1) show ?thesis unfolding d' by (auto simp: driver_kinded_def emit_def all_values_update)
next
  case False
  then have "d' = emit (map Answer otherwise) d" using assms(4) by (auto simp: with_conn_def split: option.splits)
  with assms(1,3) show ?thesis by (auto simp: driver_kinded_def emit_def)
qed

lemma on_lost_kinded:
  assumes "driver_kinded K d"
  shows "driver_kinded K (on_lost ch reason d)"
proof (cases "map_of (dv_parked d) ch")
  case None
  with assms show ?thesis by (simp add: on_lost_def driver_kinded_def Let_def)
next
  case (Some pk)
  then have "parked_kinded K pk" using assms by (auto simp: driver_kinded_def dest: all_values_get)
  then have "parked_kinded K (mark_closed reason pk)" by (simp add: mark_closed_def parked_kinded_def)
  moreover obtain outs pk1 where "fail_all (mark_closed reason pk) = (outs, pk1)" by fastforce
  ultimately show ?thesis
    using Some assms fail_kinded(5) by (auto simp: on_lost_def Let_def driver_kinded_def emit_def all_values_delete)
qed

lemma on_event_kinded:
  assumes "driver_kinded K d" "on_event D e d = Some d'"
  shows "driver_kinded K d'"
proof (cases e)
  case (Connected ch)
  with assms show ?thesis by (auto simp: surface_def driver_kinded_def all_values_update split: if_splits option.splits)
next
  case (StreamFinAcked ch i)
  show ?thesis
  proof (cases "map_of (dv_parked d) ch")
    case None
    with assms StreamFinAcked show ?thesis by simp
  next
    case (Some pk)
    then have "parked_kinded K pk" using assms(1) by (auto simp: driver_kinded_def dest: all_values_get)
    moreover obtain outs pk1 where f: "on_fin_acked i pk = (outs, pk1)" by fastforce
    ultimately have "parked_kinded K pk1 \<and> all_kinded K outs" using fail_kinded(4) by blast
    with Some f assms StreamFinAcked show ?thesis by (auto simp: driver_kinded_def emit_def all_values_update)
  qed
qed (use assms reactions_kinded [of K D] with_conn_kinded [OF assms(1), where otherwise = "[]"] on_lost_kinded in
    \<open>simp_all, (blast | metis)+\<close>)

lemma on_command_kinded:
  assumes "driver_kinded K d" "cmd_kinded K (tg_cmd t)" "on_command D now t d = Some d'"
  shows "driver_kinded K d'"
  using with_conn_kinded [OF assms(1) apply_cmd_kinded [OF assms(2)] _ assms(3) [unfolded on_command_def]] dropped_kinded [OF assms(2)]
  by blast

lemma pump_kinded:
  assumes "pump D iter clk d = Some d'"
  shows "driver_kinded K d \<longrightarrow> driver_kinded K d'"
proof (rule pump.raw_induct [where P = "\<lambda>D iter clk d d'. driver_kinded K d \<longrightarrow> driver_kinded K d'", OF _ assms], goal_cases)
  case (1 pump D iter clk d d')
  show ?case
  proof
    assume k: "driver_kinded K d"
    obtain pd progressed d2 where e: "drain_events D (False, d) = Some pd" and f: "flush_transmits D iter (clk 0) pd = Some (progressed, d2)"
      and p: "(if progressed then pump D iter (\<lambda>n. clk (Suc n)) d2 else Some d2) = Some d'"
      using 1(2) by (auto simp: bind_eq_Some_conv)
    have "driver_kinded K (snd pd)"
    proof (rule while_some_invariant [OF e [unfolded drain_events_def], where I = "\<lambda>pd. driver_kinded K (snd pd)"])
      fix u x u' v assume a: "driver_kinded K (snd u)" "next_event u = (Some x, u')" "react D x u' = Some v"
      have "driver_kinded K (snd u')" using a(1,2) by (auto simp: next_event_def driver_kinded_def split: prod.splits)
      with a(3) show "driver_kinded K (snd v)" by (cases u') (auto simp: react_def dest: on_event_kinded)
    qed (use k in \<open>auto simp: next_event_def driver_kinded_def split: prod.splits\<close>)
    then have "driver_kinded K d2"
      using f by (cases pd) (auto simp: flush_transmits_def bind_eq_Some_conv driver_kinded_def emit_def)
    with p 1(1) show "driver_kinded K d'" by (auto split: if_splits)
  qed
qed

lemma driver_exec_kinded:
  assumes k: "driver_kinded K d" and r: "driver_exec D iter d op = Some d'" and t: "\<forall>t. op = AppSend t \<longrightarrow> cmd_kinded K (tg_cmd t)"
  shows "driver_kinded K d'"
proof -
  have core: "driver_kinded K (d\<lparr>dv_core := core\<rparr>)" for core using k by (simp add: driver_kinded_def)
  show ?thesis
  proof (cases op)
    case (NextCommand now clk)
    show ?thesis
    proof (cases "dv_cmds d")
      case (Cons t ts)
      then obtain d1 where c: "on_command D now t (d\<lparr>dv_cmds := ts\<rparr>) = Some d1" "pump D iter clk d1 = Some d'"
        using r NextCommand by (auto simp: bind_eq_Some_conv)
      have "driver_kinded K (d\<lparr>dv_cmds := ts\<rparr>)" "cmd_kinded K (tg_cmd t)" using k Cons by (simp_all add: driver_kinded_def)
      with c show ?thesis by (metis on_command_kinded pump_kinded)
    qed (use r k NextCommand in simp)
  next
    case (Recv clock now "from" bs clk)
    then obtain core where "pump D iter clk (d\<lparr>dv_core := core\<rparr>) = Some d'" using r by (auto simp: bind_eq_Some_conv)
    from pump_kinded [OF this, of K] core show ?thesis by blast
  next
    case (Timer armed now clk)
    show ?thesis
    proof (cases "sleep_deadline armed d \<le> now")
      case True
      then obtain core where "pump D iter clk (d\<lparr>dv_core := core\<rparr>) = Some d'" using r Timer by (auto simp: bind_eq_Some_conv)
      from pump_kinded [OF this, of K] core show ?thesis by blast
    qed (use r k Timer in simp)
  next
    case (Deliver clk)
    have "driver_kinded K (deliver d)" using k by (auto simp: deliver_def driver_kinded_def emit_def split: list.splits)
    with r k Deliver pump_kinded [of D iter clk "deliver d" d' K] show ?thesis by (auto split: if_splits)
  qed (use r k t pump_kinded [of D iter _ d d' K] in \<open>auto simp: driver_kinded_def split: if_splits\<close>)
qed

lemma driver_drop_kinded:
  assumes "driver_kinded K d"
  shows "driver_kinded K (driver_drop d)"
proof -
  have "answer_kinded K (SenderDropped r)" if "(ch, pk) \<in> set (dv_parked d)" "r \<in> set (parked_senders pk)" for ch pk r
    using assms that fail_kinded(6) [of K pk] by (auto simp: driver_kinded_def all_values_def)
  moreover have "answer_kinded K a" if "t \<in> set (dv_cmds d)" "a \<in> set (dropped_replies (tg_cmd t))" for t a
    using assms that dropped_kinded by (auto simp: driver_kinded_def)
  ultimately show ?thesis using assms by (auto simp: driver_drop_def driver_kinded_def emit_def simp del: map_map answer_kinded_simps)
qed

section \<open>The client's driver\<close>

definition client_kinded :: "kinding \<Rightarrow> ('c, 'e) client_driver \<Rightarrow> bool" where
  "client_kinded K d \<longleftrightarrow> parked_kinded K (cd_parked d) \<and> (\<forall>t\<in>set (cd_cmds d). cmd_kinded K (tg_cmd t))
     \<and> all_kinded K (answers (cd_log d))"

lemma take_connected_kinded [simp]: "client_kinded K (take_connected r d) = client_kinded K d"
  by (simp add: take_connected_def client_kinded_def)

lemma with_own_kinded:
  assumes "client_kinded K d" "keeps_kinds K f" "all_kinded K otherwise" "with_own f otherwise d = Some d'"
  shows "client_kinded K d'"
proof (cases "conn_mut (cd_core d) (cd_handle d)")
  case None
  with assms show ?thesis by (auto simp: with_own_def client_kinded_def client_emit_def)
next
  case (Some s)
  with assms(4) obtain outs pk' s' where f: "f (cd_parked d) s = Some (outs, pk', s')"
    and d': "d' = client_emit (map Answer outs) (d\<lparr>cd_parked := pk', cd_core := put_conn (cd_handle d) s' (cd_core d)\<rparr>)"
    by (auto simp: with_own_def bind_eq_Some_conv)
  have "parked_kinded K pk' \<and> all_kinded K outs" using assms(1,2) f unfolding keeps_kinds_def client_kinded_def by blast
  with assms(1) show ?thesis unfolding d' by (auto simp: client_kinded_def client_emit_def)
qed

lemma client_lost_kinded:
  assumes "client_kinded K d"
  shows "client_kinded K (client_lost reason d)"
proof -
  have "parked_kinded K (mark_closed reason (cd_parked d))" using assms by (simp add: client_kinded_def mark_closed_def parked_kinded_def)
  moreover obtain outs pk1 where f: "fail_all (mark_closed reason (cd_parked d)) = (outs, pk1)" by fastforce
  moreover have "parked_kinded K pk1" using f by (auto simp: fail_all_def parked_kinded_def)
  ultimately have "client_kinded K (client_emit (CloseReason (cd_handle d) reason # map Answer outs) (d\<lparr>cd_parked := pk1\<rparr>))"
    using assms fail_kinded(5) by (auto simp: client_kinded_def client_emit_def)
  with f show ?thesis by (simp add: client_lost_def)
qed

lemma client_on_event_kinded:
  assumes "client_kinded K d" "client_on_event D e d = Some (b, d')"
  shows "client_kinded K d'"
proof (cases "event_conn e = cd_handle d")
  case same: True
  show ?thesis
  proof (cases e)
    case (StreamFinAcked ch i)
    have "parked_kinded K (cd_parked d)" using assms(1) by (simp add: client_kinded_def)
    moreover obtain outs pk1 where f: "on_fin_acked i (cd_parked d) = (outs, pk1)" by fastforce
    ultimately have "parked_kinded K pk1 \<and> all_kinded K outs" using fail_kinded(4) by blast
    with f same assms StreamFinAcked show ?thesis by (auto simp: client_on_event_def client_kinded_def client_emit_def)
  next
    case (Connected ch)
    with same assms show ?thesis by (auto simp: client_on_event_def client_surface_def)
  qed (use assms same reactions_kinded [of K D] with_own_kinded [OF assms(1), where otherwise = "[]"] client_lost_kinded in
    \<open>simp_all add: client_on_event_def, (blast | metis)+\<close>)
qed (use assms in \<open>simp add: client_on_event_def\<close>)

lemma client_pump_kinded:
  assumes "client_pump D iter clk d = Some y"
  shows "client_kinded K d \<longrightarrow> client_kinded K (snd y)"
proof (rule client_pump.raw_induct [where P = "\<lambda>D iter clk d y. client_kinded K d \<longrightarrow> client_kinded K (snd y)", OF _ assms], goal_cases)
  case (1 pump D iter clk d y)
  show ?case
  proof
    assume k: "client_kinded K d"
    obtain progressed lost d1 sent core where e: "client_drain_events D (False, False, d) = Some (progressed, lost, d1)"
      and f: "flush D iter (clk 0) (cd_core d1) [] = Some (sent, core)"
      using 1(2) by (auto simp: bind_eq_Some_conv)
    have "client_kinded K (snd (snd (progressed, lost, d1)))"
    proof (rule while_some_invariant [OF e [unfolded client_drain_events_def], where I = "\<lambda>pd. client_kinded K (snd (snd pd))"])
      fix u x u' v assume a: "client_kinded K (snd (snd u))" "client_next_event u = (Some x, u')" "client_react D x u' = Some v"
      have "client_kinded K (snd (snd u'))" using a(1,2) by (auto simp: client_next_event_def client_kinded_def split: prod.splits)
      with a(3) show "client_kinded K (snd (snd v))" by (cases u') (auto simp: client_react_def dest: client_on_event_kinded)
    qed (use k in \<open>auto simp: client_next_event_def client_kinded_def split: prod.splits\<close>)
    then have d2: "client_kinded K (client_emit (map send_to sent) (d1\<lparr>cd_core := core\<rparr>))"
      by (simp add: client_kinded_def client_emit_def)
    show "client_kinded K (snd y)"
      using 1(2) e f 1(1) d2 by (auto simp: Let_def split: if_splits)
  qed
qed

lemma client_drop_kinded:
  assumes "client_kinded K d"
  shows "client_kinded K (client_drop d)"
proof -
  have "answer_kinded K a" if "t \<in> set (cd_cmds d)" "a \<in> set (dropped_replies (tg_cmd t))" for t a
    using assms that dropped_kinded by (auto simp: client_kinded_def)
  moreover have "all_kinded K (map SenderDropped (parked_senders (cd_parked d)))"
    using assms fail_kinded(6) unfolding client_kinded_def by blast
  ultimately show ?thesis using assms
    unfolding client_drop_def take_connected_kinded by (auto simp: client_kinded_def client_emit_def simp del: map_map answer_kinded_simps)
qed

lemma client_turn_kinded:
  assumes "client_kinded K d" "client_turn D iter clk d = Some d'"
  shows "client_kinded K d'"
proof -
  obtain brk d1 where p: "client_pump D iter clk d = Some (brk, d1)" "d' = (if brk then client_drop d1 else d1)"
    using assms(2) by (auto simp: client_turn_def)
  with client_pump_kinded [OF p(1), of K] assms(1) client_drop_kinded [of K d1] show ?thesis by simp
qed

lemma client_exec_kinded:
  assumes k: "client_kinded K d" and r: "client_exec D iter d op = Some d'"
    and t: "\<forall>t. op = ClientAppSend t \<longrightarrow> cmd_kinded K (tg_cmd t)"
  shows "client_kinded K d'"
proof -
  have core: "client_kinded K (d\<lparr>cd_core := core\<rparr>)" for core using k by (simp add: client_kinded_def)
  show ?thesis
  proof (cases op)
    case (ClientNextCommand now clk)
    show ?thesis
    proof (cases "cd_cmds d")
      case (Cons t ts)
      then obtain d1 where c: "client_on_command D now t (d\<lparr>cd_cmds := ts\<rparr>) = Some d1" "client_turn D iter clk d1 = Some d'"
        using r ClientNextCommand by (auto simp: bind_eq_Some_conv)
      have d: "client_kinded K (d\<lparr>cd_cmds := ts\<rparr>)" and ct: "cmd_kinded K (tg_cmd t)" using k Cons by (simp_all add: client_kinded_def)
      have o: "all_kinded K (dropped_replies (tg_cmd t))" using dropped_kinded [OF ct] by blast
      have "client_kinded K d1"
        using c(1) d o with_own_kinded [OF d apply_cmd_kinded [OF ct] o]
        by (auto simp: client_on_command_def client_kinded_def client_emit_def split: if_splits)
      with c(2) client_turn_kinded show ?thesis by blast
    qed (use r k ClientNextCommand in simp)
  next
    case (ClientAppSend t)
    with r k t show ?thesis by (auto simp: client_kinded_def split: if_splits)
  next
    case ClientAbort
    with r k client_drop_kinded show ?thesis by auto
  qed (use r k in \<open>auto simp: bind_eq_Some_conv split: if_splits intro: client_turn_kinded [OF core] client_turn_kinded [OF k]\<close>)
qed

end
