(* ===== verification/ServerInv.thy ===== *)
theory ServerInv
  imports Drive
begin

text \<open>
  What the server's driver keeps true: its tables agree with the endpoint's, no connection is offered
  twice, the ledger of reply senders balances, and the pump comes to rest.
\<close>

section \<open>Tables, ledger and work of a driver\<close>

definition driver_ok :: "('e \<Rightarrow> cid set) \<Rightarrow> ('c, 'e) driver \<Rightarrow> bool" where
  "driver_ok M d \<longleftrightarrow> endpoint_ok M (dv_core d) \<and> distinct (map fst (dv_parked d))
     \<and> dv_surfaced d = fst ` set (dv_parked d) \<and> (\<forall>(ch, pk)\<in>set (dv_parked d). parked_ok pk)"

text \<open>Every reply sender the driver has been given is fired, dropped, parked or still in the channel.\<close>

definition balance :: "('c, 'e) driver \<Rightarrow> reply multiset" where
  "balance d = answered (answers (dv_log d)) + (\<Sum>(ch, pk)\<in>#mset (dv_parked d). waiting pk)
     + (\<Sum>t\<in>#mset (dv_cmds d). cmd_replies (tg_cmd t))"

definition effort :: "('c \<Rightarrow> nat) \<Rightarrow> nat \<Rightarrow> ('c, 'e) driver \<Rightarrow> nat" where
  "effort w k d = pot w (dv_core d) + k * sum_list (map (\<lambda>(ch, pk). owed pk) (dv_parked d))"

text \<open>What reacting to an event or a command leaves alone, except for the surfacing of a connection and its loss.\<close>

definition scene where
  "scene d = (dv_surfaced d, dv_pending_accept d, handed (dv_log d), dv_accepted d, dv_accept_cap d, dv_cmds d,
     live (dv_core d), ep_next_generation (dv_core d), ep_clients (dv_core d), ep_client_ids (dv_core d),
     ep_events (dv_core d), ep_role (dv_core d))"

section \<open>Reactions\<close>

lemma parked_waiting_update:
  assumes "distinct (map fst al)" "map_of al ch = Some pk"
  shows "(\<Sum>(ch, pk)\<in>#mset (AList.update ch pk' al). waiting pk) + waiting pk = (\<Sum>(ch, pk)\<in>#mset al. waiting pk) + waiting pk'"
  using mset_update [OF assms(1), of ch pk'] mset_delete [OF assms] by (simp add: ac_simps)

lemma with_conn_reacts:
  assumes ok: "driver_ok M d" and f: "behaves R f" and other: "answered other = R"
  shows "\<exists>d'. with_conn ch f other d = Some d' \<and> driver_ok M d' \<and> balance d' = balance d + R \<and> scene d' = scene d
    \<and> (eases w k f \<longrightarrow> effort w k d' \<le> effort w k d)"
proof (cases "map_of (dv_parked d) ch \<noteq> None \<and> conn_mut (dv_core d) ch \<noteq> None")
  case False
  then have "with_conn ch f other d = Some (emit (map Answer other) d)"
    by (auto simp: with_conn_def split: option.splits)
  then show ?thesis
    using ok other by (auto simp: emit_def driver_ok_def balance_def scene_def effort_def)
next
  case True
  then obtain pk s where pk: "map_of (dv_parked d) ch = Some pk" and s: "conn_mut (dv_core d) ch = Some s" by blast
  have okd: "endpoint_ok M (dv_core d)" "distinct (map fst (dv_parked d))" "dv_surfaced d = fst ` set (dv_parked d)"
    "\<And>ch pk. (ch, pk) \<in> set (dv_parked d) \<Longrightarrow> parked_ok pk"
    using ok by (auto simp: driver_ok_def)
  have pok: "parked_ok pk" using okd(4) map_of_SomeD [OF pk] by blast
  then obtain outs pk' s' where r: "f pk s = Some (outs, pk', s')" "parked_ok pk'" "answered outs + waiting pk' = waiting pk + R"
    using f unfolding behaves_def by blast
  define d' where "d' = emit (map Answer outs) (d\<lparr>dv_parked := AList.update ch pk' (dv_parked d), dv_core := put_conn ch s' (dv_core d)\<rparr>)"
  have w: "with_conn ch f other d = Some d'" using pk s r(1) by (simp add: with_conn_def d'_def)
  have mem: "ch \<in> fst ` set (dv_parked d)" using map_of_SomeD [OF pk] by force
  have "parked_ok x" if "(c, x) \<in> set (AList.update ch pk' (dv_parked d))" for c x
    using that set_update_subset [of ch pk' "dv_parked d"] okd(4) r(2) by auto
  then have ok': "driver_ok M d'"
    using okd(1-3) mem by (auto simp: driver_ok_def d'_def emit_def put_conn_keeps(1) distinct_update fst_set_update)
  have sc: "scene d' = scene d" by (simp add: scene_def d'_def emit_def)
  have "balance d' + waiting pk = balance d + (answered outs + waiting pk')"
    using parked_waiting_update [OF okd(2) pk, of pk'] by (simp add: balance_def d'_def emit_def ac_simps)
  then have "balance d' + waiting pk = (balance d + R) + waiting pk" unfolding r(3) by (simp add: ac_simps)
  then have bal: "balance d' = balance d + R" by (simp only: add_right_cancel)
  have "effort w k d' \<le> effort w k d" if "eases w k f"
  proof -
    have t: "toil w k pk' s' \<le> toil w k pk s" using that pok r(1) by (simp add: eases_def)
    have dh: "distinct (handles (dv_core d))" using okd(1) by (simp add: endpoint_ok_def handles_ok_distinct)
    let ?S = "\<lambda>al. sum_list (map (\<lambda>(ch, pk). owed pk) al)"
    have "?S (AList.update ch pk' (dv_parked d)) + owed pk = ?S (dv_parked d) + owed pk'"
      using sum_update [OF okd(2), of "\<lambda>(ch, pk). owed pk" ch pk'] sum_delete [OF okd(2) pk, of "\<lambda>(ch, pk). owed pk"] by simp
    then have "k * ?S (AList.update ch pk' (dv_parked d)) + k * owed pk = k * ?S (dv_parked d) + k * owed pk'"
      by (simp flip: distrib_left)
    with t work_put_conn [OF dh s, of w s'] show ?thesis by (simp add: effort_def pot_def d'_def emit_def toil_def)
  qed
  with w ok' bal sc show ?thesis by blast
qed

section \<open>Connections and their story\<close>

text \<open>
  Every connection ever put before the application: delivered to the accept channel, or waiting for it.
\<close>

definition offered :: "('c, 'e) driver \<Rightarrow> connection list" where
  "offered d = handed (dv_log d) @ dv_pending_accept d"

text \<open>
  With \<open>es\<close> still to be reacted to: a surfaced connection is live or its loss is in \<open>es\<close>; an offered one
  is surfaced, or dead and of no event in \<open>es\<close>; and it carries the identity the endpoint authenticated.
\<close>

definition story :: "event list \<Rightarrow> ('c, 'e) driver \<Rightarrow> bool" where
  "story es d \<longleftrightarrow>
     queue_ok (live (dv_core d)) es
     \<and> (\<forall>e\<in>set es. generation (event_conn e) < ep_next_generation (dv_core d))
     \<and> dv_surfaced d \<subseteq> live (dv_core d) \<union> lost_in es
     \<and> distinct (map cn_handle (offered d)) \<and> cn_handle ` set (dv_pending_accept d) \<subseteq> dv_surfaced d
     \<and> (\<forall>c\<in>set (offered d). generation (cn_handle c) < ep_next_generation (dv_core d)
          \<and> (cn_handle c \<in> dv_surfaced d \<or> cn_handle c \<notin> live (dv_core d) \<union> lost_in es)
          \<and> cn_client_id c \<in> Some ` cl_client_id ` set (ep_clients (dv_core d))
          \<and> (cn_handle c \<in> live (dv_core d) \<longrightarrow> cn_client_id c = ep_client_ids (dv_core d) (cn_handle c)))"

lemma story_scene: "scene d' = scene d \<Longrightarrow> story es d' = story es d"
  by (simp add: scene_def story_def offered_def)

lemma story_skip:
  assumes "story (e # es) d" "\<And>c r. e \<noteq> ConnectionLost c r"
  shows "story es d"
  using assms queue_ok_tl [of "live (dv_core d)" e es] by (simp add: story_def)

lemma surface_story:
  assumes ok: "endpoint_ok M (dv_core d)" "ep_role (dv_core d) = RoleServer" and st: "story (Connected ch # es) d"
  shows "story es (surface D ch d)"
proof (cases "ch \<in> dv_surfaced d \<or> conn_mut (dv_core d) ch = None")
  case True
  with story_skip [OF st] show ?thesis by (auto simp: surface_def)
next
  case False
  then have n: "ch \<notin> dv_surfaced d" and l: "ch \<in> live (dv_core d)" by (simp_all add: live_conn_mut)
  obtain s where s: "conn_mut (dv_core d) ch = Some s" using False by blast
  have h: "dom (ep_client_ids (dv_core d)) = live (dv_core d)" "ran (ep_client_ids (dv_core d)) \<subseteq> cl_client_id ` set (ep_clients (dv_core d))"
    "generation ch < ep_next_generation (dv_core d)"
    using ok l by (simp_all add: endpoint_ok_def handles_ok_def)
  obtain n' where i: "ep_client_ids (dv_core d) ch = Some n'" "n' \<in> cl_client_id ` set (ep_clients (dv_core d))"
    using h(1,2) l by (metis domD ranI subsetD)
  let ?c = "\<lparr>cn_remote = qc_remote_address D (cs_conn s), cn_handle = ch, cn_client_id = Some n'\<rparr>"
  have d': "surface D ch d = d\<lparr>dv_surfaced := insert ch (dv_surfaced d), dv_parked := AList.update ch parked_new (dv_parked d),
      dv_pending_accept := dv_pending_accept d @ [?c]\<rparr>"
    using n s i by (simp add: surface_def client_id_def)
  have "ch \<notin> cn_handle ` set (offered d)" using story_skip [OF st] n l by (auto simp: story_def)
  with story_skip [OF st] l h(3) i show ?thesis
    unfolding d' by (auto simp: story_def offered_def)
qed

lemma lost_story:
  assumes st: "story (ConnectionLost ch r # es) d"
  shows "story es (on_lost ch r d)"
proof -
  define d' where "d' = on_lost ch r d"
  have f: "dv_core d' = dv_core d" "handed (dv_log d') = handed (dv_log d)" "dv_surfaced d' = dv_surfaced d - {ch}"
    "dv_pending_accept d' = filter (\<lambda>c. cn_handle c \<noteq> ch) (dv_pending_accept d)"
    by (auto simp: d'_def on_lost_def Let_def emit_def split: option.splits prod.splits)
  have q: "queue_ok (live (dv_core d)) es" "ch \<notin> live (dv_core d)" "ch \<notin> lost_in es"
    using st lost_in_mentions [of es] by (auto simp: story_def)
  have sub: "set (offered d') \<subseteq> set (offered d)" by (auto simp: offered_def f)
  have sd: "\<forall>e\<in>set es. generation (event_conn e) < ep_next_generation (dv_core d)"
    "dv_surfaced d \<subseteq> insert ch (live (dv_core d) \<union> lost_in es)" "distinct (map cn_handle (offered d))"
    "cn_handle ` set (dv_pending_accept d) \<subseteq> dv_surfaced d"
    using st by (simp_all add: story_def)
  have "distinct (map cn_handle (offered d'))"
    using sd(3) by (auto simp: offered_def f distinct_map_filter)
  moreover have "cn_handle c \<in> dv_surfaced d' \<or> cn_handle c \<notin> live (dv_core d) \<union> lost_in es" if "c \<in> set (offered d')" for c
    using st subsetD [OF sub that] q(2,3) by (auto simp: story_def f(3))
  moreover have "generation (cn_handle c) < ep_next_generation (dv_core d)
      \<and> cn_client_id c \<in> Some ` cl_client_id ` set (ep_clients (dv_core d))
      \<and> (cn_handle c \<in> live (dv_core d) \<longrightarrow> cn_client_id c = ep_client_ids (dv_core d) (cn_handle c))" if "c \<in> set (offered d')" for c
    using st subsetD [OF sub that] by (simp add: story_def)
  moreover have "dv_surfaced d' \<subseteq> live (dv_core d) \<union> lost_in es" using sd(2) by (auto simp: f(3))
  moreover have "cn_handle ` set (dv_pending_accept d') \<subseteq> dv_surfaced d'" using sd(4) by (auto simp: f(3,4))
  ultimately have "story es d'" using q(1) sd(1) by (simp add: story_def f(1))
  then show ?thesis by (simp add: d'_def)
qed

text \<open>A call into the endpoint continues the story.\<close>

lemma moves_story:
  assumes st: "story (ep_events (dv_core d)) d" and m: "moves L (dv_core d) ep'" and a: "advances (dv_core d) ep'"
  shows "story (ep_events ep') (d\<lparr>dv_core := ep'\<rparr>)"
proof -
  let ?ep = "dv_core d"
  obtain evs lost where L: "live ?ep \<subseteq> L" "\<forall>ch\<in>L - live ?ep. ep_next_generation ?ep \<le> generation ch"
      "\<forall>ch\<in>L. generation ch < ep_next_generation ep'"
    and ev: "ep_events ep' = ep_events ?ep @ evs @ map (\<lambda>(ch, reason). ConnectionLost ch reason) lost"
    and evs: "\<forall>e\<in>set evs. (\<forall>c r. e \<noteq> ConnectionLost c r) \<and> event_conn e \<in> L"
    and lost: "distinct (map fst lost)" "fst ` set lost \<subseteq> L" and l': "live ep' = L - fst ` set lost"
    using m unfolding moves_def by (elim exE conjE)
  let ?fs = "evs @ map (\<lambda>(ch, reason). ConnectionLost ch reason) lost"
  have sd: "queue_ok (live ?ep) (ep_events ?ep)" "\<forall>e\<in>set (ep_events ?ep). generation (event_conn e) < ep_next_generation ?ep"
    "dv_surfaced d \<subseteq> live ?ep \<union> lost_in (ep_events ?ep)"
    using st by (simp_all add: story_def)
  have ng: "ep_next_generation ?ep \<le> ep_next_generation ep'" "ep_clients ep' = ep_clients ?ep"
    "\<forall>ch\<in>live ?ep \<inter> live ep'. ep_client_ids ep' ch = ep_client_ids ?ep ch"
    using a by (simp_all add: advances_def word_le_nat_alt)
  have old: "ch \<in> live ?ep" if "ch \<in> L" "generation ch < ep_next_generation ?ep" for ch
    using L(2) that by (meson DiffI leD)
  have mfs: "event_conn ` set ?fs \<subseteq> L" using evs lost(2) by (auto simp: image_image case_prod_beta)
  have lfs: "lost_in ?fs = fst ` set lost" using evs by (auto simp: lost_in_def [of evs])
  have lev: "lost_in (ep_events ep') = lost_in (ep_events ?ep) \<union> fst ` set lost" unfolding ev using lfs by simp
  have q2: "queue_ok (live ep') ?fs"
    by (rule queue_ok_evs [OF _ queue_ok_losses [OF lost(1)]]) (use evs l' in auto)
  have gl: "generation ch < ep_next_generation ?ep" if "ch \<in> lost_in (ep_events ?ep)" for ch
    using that sd(2) by (auto simp: lost_in_def dest: bspec)
  have disj: "lost_in (ep_events ?ep) \<inter> L = {}" using gl old queue_ok_dead [OF sd(1)] by blast
  have "queue_ok (live ep') (ep_events ?ep @ ?fs)"
  proof (rule queue_ok_append [OF sd(1) q2])
    show "live ?ep \<subseteq> live ep' \<union> lost_in ?fs" unfolding lfs l' using L(1) by blast
    show "lost_in (ep_events ?ep) \<inter> (live ep' \<union> event_conn ` set ?fs) = {}" unfolding l' using disj mfs by blast
  qed
  moreover have "generation (event_conn e) < ep_next_generation ep'" if "e \<in> set (ep_events ep')" for e
  proof (cases "e \<in> set (ep_events ?ep)")
    case True
    with sd(2) ng(1) show ?thesis by (auto intro: less_le_trans)
  next
    case False
    then have "event_conn e \<in> L" using that mfs unfolding ev by (metis Un_iff imageI set_append subsetD)
    with L(3) show ?thesis by blast
  qed
  moreover have "dv_surfaced d \<subseteq> live ep' \<union> lost_in (ep_events ep')" unfolding lev l' using sd(3) L(1) by blast
  moreover have "generation (cn_handle c) < ep_next_generation ep'
      \<and> (cn_handle c \<in> dv_surfaced d \<or> cn_handle c \<notin> live ep' \<union> lost_in (ep_events ep'))
      \<and> cn_client_id c \<in> Some ` cl_client_id ` set (ep_clients ep')
      \<and> (cn_handle c \<in> live ep' \<longrightarrow> cn_client_id c = ep_client_ids ep' (cn_handle c))" if c: "c \<in> set (offered d)" for c
  proof -
    have o: "generation (cn_handle c) < ep_next_generation ?ep"
      "cn_handle c \<in> dv_surfaced d \<or> cn_handle c \<notin> live ?ep \<union> lost_in (ep_events ?ep)"
      "cn_client_id c \<in> Some ` cl_client_id ` set (ep_clients ?ep)"
      "cn_handle c \<in> live ?ep \<longrightarrow> cn_client_id c = ep_client_ids ?ep (cn_handle c)"
      using st c by (simp_all add: story_def)
    have "cn_handle c \<in> live ?ep" if "cn_handle c \<in> live ep' \<union> fst ` set lost" using that old o(1) lost(2) l' by blast
    with o ng show ?thesis unfolding lev by (auto intro: less_le_trans)
  qed
  ultimately show ?thesis using st by (simp add: story_def offered_def ev)
qed

section \<open>Reacting to an event and to a command\<close>

text \<open>What every reaction leaves alone, whatever happens to the connections.\<close>

definition aside where
  "aside d = (dv_accepted d, dv_accept_cap d, dv_cmds d, handed (dv_log d), ep_next_generation (dv_core d),
     ep_clients (dv_core d), ep_role (dv_core d))"

definition base where
  "base d = (aside d, live (dv_core d), ep_client_ids (dv_core d), ep_events (dv_core d))"

lemma scene_base: "scene d' = scene d \<Longrightarrow> base d' = base d"
  by (simp add: scene_def base_def aside_def)

lemma surface_reacts:
  assumes ok: "driver_ok M d"
  shows "driver_ok M (surface D ch d) \<and> balance (surface D ch d) = balance d \<and> effort w k (surface D ch d) = effort w k d
    \<and> base (surface D ch d) = base d"
proof (cases "ch \<in> dv_surfaced d \<or> conn_mut (dv_core d) ch = None")
  case True
  with ok show ?thesis by (auto simp: surface_def)
next
  case False
  then have n: "ch \<notin> fst ` set (dv_parked d)" "ch \<notin> dv_surfaced d" using ok by (auto simp: driver_ok_def)
  obtain s where s: "conn_mut (dv_core d) ch = Some s" using False by blast
  with n ok show ?thesis
    by (auto simp: surface_def update_new_key driver_ok_def balance_def effort_def base_def aside_def)
qed

lemma lost_reacts:
  assumes ok: "driver_ok M d"
  shows "driver_ok M (on_lost ch r d) \<and> balance (on_lost ch r d) = balance d \<and> effort w k (on_lost ch r d) \<le> effort w k d
    \<and> base (on_lost ch r d) = base d"
proof -
  have okd: "endpoint_ok M (dv_core d)" "distinct (map fst (dv_parked d))" "dv_surfaced d = fst ` set (dv_parked d)"
    "\<forall>(ch, pk)\<in>set (dv_parked d). parked_ok pk"
    using ok by (simp_all add: driver_ok_def)
  show ?thesis
  proof (cases "map_of (dv_parked d) ch")
    case None
    then have "ch \<notin> fst ` set (dv_parked d)" by (simp add: mem_fst_iff_map_of)
    with None okd show ?thesis by (simp add: on_lost_def driver_ok_def balance_def effort_def base_def aside_def)
  next
    case (Some pk)
    let ?d = "on_lost ch r d"
    have wm: "waiting (mark_closed r pk) = waiting pk" by (simp add: mark_closed_def waiting_def)
    have d': "dv_core ?d = dv_core d" "dv_parked ?d = AList.delete ch (dv_parked d)" "dv_surfaced ?d = dv_surfaced d - {ch}"
      "dv_cmds ?d = dv_cmds d" "answers (dv_log ?d) = answers (dv_log d) @ fst (fail_all (mark_closed r pk))"
      "handed (dv_log ?d) = handed (dv_log d)" "dv_accepted ?d = dv_accepted d" "dv_accept_cap ?d = dv_accept_cap d"
      using Some by (simp_all add: on_lost_def Let_def emit_def case_prod_beta)
    have "driver_ok M ?d"
      using okd set_delete_subset [of ch "dv_parked d"] by (auto simp: driver_ok_def d' fst_set_delete)
    moreover have "balance ?d = balance d"
      using fail_all_conserves(1) [of "mark_closed r pk"] mset_delete [OF okd(2) Some] by (simp add: balance_def d' wm)
    moreover have "effort w k ?d \<le> effort w k d"
      using sum_delete [OF okd(2) Some, of "\<lambda>(ch, pk). owed pk"] by (simp add: effort_def d')
    ultimately show ?thesis by (simp add: base_def aside_def d')
  qed
qed

lemma fin_acked_reacts:
  assumes ok: "driver_ok M d"
  shows "\<exists>d'. on_event D (StreamFinAcked ch i) d = Some d' \<and> driver_ok M d' \<and> balance d' = balance d
    \<and> effort w k d' = effort w k d \<and> scene d' = scene d"
proof (cases "map_of (dv_parked d) ch")
  case None
  with ok show ?thesis by simp
next
  case (Some pk)
  have okd: "endpoint_ok M (dv_core d)" "distinct (map fst (dv_parked d))" "dv_surfaced d = fst ` set (dv_parked d)"
    "\<And>ch pk. (ch, pk) \<in> set (dv_parked d) \<Longrightarrow> parked_ok pk"
    using ok by (auto simp: driver_ok_def)
  have pok: "parked_ok pk" using okd(4) map_of_SomeD [OF Some] by blast
  obtain outs pk' where f: "on_fin_acked i pk = (outs, pk')" by fastforce
  note c = fail_conserves(4) [OF pok f]
  have ow: "owed pk' = owed pk" using f by (auto simp: on_fin_acked_def split: option.splits)
  let ?d = "emit (map Answer outs) (d\<lparr>dv_parked := AList.update ch pk' (dv_parked d)\<rparr>)"
  have mem: "ch \<in> fst ` set (dv_parked d)" using map_of_SomeD [OF Some] by force
  have "parked_ok x" if "(c, x) \<in> set (AList.update ch pk' (dv_parked d))" for c x
    using that set_update_subset [of ch pk' "dv_parked d"] okd(4) c by auto
  then have "driver_ok M ?d"
    using okd(1-3) mem by (auto simp: driver_ok_def emit_def distinct_update fst_set_update)
  moreover have "balance ?d + waiting pk = balance d + (answered outs + waiting pk')"
    using parked_waiting_update [OF okd(2) Some, of pk'] by (simp add: balance_def emit_def ac_simps)
  then have "balance ?d = balance d" using c by simp
  moreover have "effort w k ?d = effort w k d"
    using sum_update [OF okd(2), of "\<lambda>(ch, pk). owed pk" ch pk'] sum_delete [OF okd(2) Some, of "\<lambda>(ch, pk). owed pk"] ow
    by (simp add: effort_def emit_def)
  moreover have "scene ?d = scene d" by (simp add: scene_def emit_def)
  ultimately show ?thesis using Some f by auto
qed

lemma on_event_reacts:
  assumes E: "driver_env D iter W M w k" and ok: "driver_ok M d" and sv: "ep_role (dv_core d) = RoleServer" and st: "story (e # es) d"
  shows "\<exists>d'. on_event D e d = Some d' \<and> driver_ok M d' \<and> story es d' \<and> balance d' = balance d \<and> effort w k d' \<le> effort w k d
    \<and> base d' = base d"
proof -
  note b = stream_reactions_behave [OF E]
  have other: ?thesis if "\<And>c r. e \<noteq> ConnectionLost c r" "on_event D e d = Some d'" "driver_ok M d'" "balance d' = balance d"
      "scene d' = scene d" "effort w k d' \<le> effort w k d" for d'
    using that story_scene [OF that(5)] story_skip [OF st that(1)] scene_base [OF that(5)] by auto
  have wc: ?thesis if "\<And>c r. e \<noteq> ConnectionLost c r" "on_event D e d = with_conn ch f [] d" "behaves {#} f" "eases w k f" for ch f
    using with_conn_reacts [OF ok that(3), of "[]" ch w k] that(2,4) other [OF that(1)] by auto
  show ?thesis
  proof (cases e)
    case (Connected ch)
    have "endpoint_ok M (dv_core d)" using ok by (simp add: driver_ok_def)
    with Connected surface_story [OF _ sv, of M ch es D] st surface_reacts [OF ok, of D ch w k] show ?thesis by simp
  next
    case (ConnectionLost ch r)
    with lost_story [of ch r es d] st lost_reacts [OF ok, of ch r w k] show ?thesis by simp
  next
    case (StreamFinAcked ch i)
    then show ?thesis using fin_acked_reacts [OF ok, of D ch i w k] other by auto
  next
    case (StreamOpened ch i dir)
    then show ?thesis by (intro wc [OF _ _ b(1,2)]) simp_all
  next
    case (StreamReadable ch i)
    then show ?thesis by (intro wc [OF _ _ b(3,4)]) simp_all
  next
    case (StreamWritable ch i)
    then show ?thesis by (intro wc [OF _ _ b(5,6)]) simp_all
  next
    case (StreamStopped ch i code)
    then show ?thesis by (intro wc [OF _ _ b(7,8)]) simp_all
  qed
qed

end
