(* ===== verification/ServerRun.thy ===== *)
theory ServerRun
  imports ServerInv
begin

text \<open>
  The server's pump comes to rest, and what holds along every run of the driver.
\<close>

section \<open>The pump\<close>

definition going :: "('e \<Rightarrow> cid set) \<Rightarrow> ('c, 'e) driver \<Rightarrow> bool" where
  "going M d \<longleftrightarrow> driver_ok M d \<and> ep_role (dv_core d) = RoleServer \<and> story (ep_events (dv_core d)) d"

lemma story_core:
  assumes "live ep' = live (dv_core d)" "ep_next_generation ep' = ep_next_generation (dv_core d)"
    "ep_clients ep' = ep_clients (dv_core d)" "ep_client_ids ep' = ep_client_ids (dv_core d)"
  shows "story es (d\<lparr>dv_core := ep'\<rparr>) = story es d"
  using assms by (simp add: story_def offered_def)

lemma drain_events_rests:
  assumes E: "driver_env D iter W M w k"
  shows "going M d \<Longrightarrow> \<exists>p' d'. drain_events D (p, d) = Some (p', d') \<and> going M d' \<and> ep_events (dv_core d') = []
    \<and> balance d' = balance d \<and> aside d' = aside d \<and> (if p' = p \<and> d' = d then True else p' \<and> effort w k d' < effort w k d)"
proof (induction "effort w k d" arbitrary: p d rule: less_induct)
  case less
  have g: "driver_ok M d" "ep_role (dv_core d) = RoleServer" "story (ep_events (dv_core d)) d"
    using less.prems by (simp_all add: going_def)
  show ?case
  proof (cases "ep_events (dv_core d)")
    case Nil
    then have "next_event (p, d) = (None, p, d)" by (simp add: next_event_def poll_event_def)
    then have "drain_events D (p, d) = Some (p, d)" unfolding drain_events_def by (rule while_some_stop)
    with less.prems Nil show ?thesis by auto
  next
    case (Cons e es)
    let ?ep = "(dv_core d)\<lparr>ep_events := es\<rparr>"
    let ?d = "d\<lparr>dv_core := ?ep\<rparr>"
    have pe: "snd (poll_event (dv_core d)) = ?ep" using Cons by (simp add: poll_event_def)
    then have ne: "next_event (p, d) = (Some e, p, ?d)" using Cons by (simp add: next_event_def poll_event_def)
    have ok1: "driver_ok M ?d" using g(1) poll_event_keeps(1) [of M "dv_core d"] by (simp add: driver_ok_def pe)
    have st1: "story (e # es) ?d" using g(3) Cons story_core [of ?ep d] by (simp add: live_def)
    obtain d1 where d1: "on_event D e ?d = Some d1" "driver_ok M d1" "story es d1" "balance d1 = balance ?d"
      "effort w k d1 \<le> effort w k ?d" "base d1 = base ?d"
      using on_event_reacts [OF E ok1 _ st1] g(2) by auto
    have f1: "ep_events (dv_core d1) = es" "aside d1 = aside d" "balance d1 = balance d" "ep_role (dv_core d1) = RoleServer"
      using d1(4,6) g(2) by (simp_all add: base_def aside_def balance_def)
    have lt: "effort w k d1 < effort w k d" using d1(5) Cons by (simp add: effort_def pot_def)
    have "going M d1" using d1(2,3) f1 by (simp add: going_def)
    from less.hyps [OF lt this, of True] obtain p' d' where r: "drain_events D (True, d1) = Some (p', d')" "going M d'"
      "ep_events (dv_core d') = []" "balance d' = balance d1" "aside d' = aside d1"
      "if p' = True \<and> d' = d1 then True else p' \<and> effort w k d' < effort w k d1" by blast
    have "drain_events D (p, d) = drain_events D (True, d1)"
      unfolding drain_events_def by (rule while_some_step [where poll = next_event and s = "(p, d)", OF ne]) (use d1(1) in \<open>simp add: react_def\<close>)
    with r f1 lt show ?thesis by (auto split: if_splits)
  qed
qed

lemma going_moves:
  assumes "going M d" "endpoint_ok M ep'" "advances (dv_core d) ep'" "moves L (dv_core d) ep'"
  shows "going M (d\<lparr>dv_core := ep'\<rparr>)"
  using assms moves_story [of d L ep'] by (simp add: going_def driver_ok_def advances_def)

lemma flush_transmits_rests:
  assumes E: "driver_env D iter W M w k" and g: "going M d"
  shows "\<exists>p' d'. flush_transmits D iter now (p, d) = Some (p', d') \<and> going M d' \<and> quiescent (dv_core d')
    \<and> balance d' = balance d \<and> aside d' = aside d \<and> effort w k d' \<le> effort w k d \<and> (p \<longrightarrow> p')
    \<and> (p' \<longrightarrow> p \<or> effort w k d' < effort w k d)"
proof -
  note e = driver_envD [OF E]
  define I where "I ep \<longleftrightarrow> going M (d\<lparr>dv_core := ep\<rparr>) \<and> config ep = config (dv_core d)" for ep
  have okI: "endpoint_ok M ep" if "I ep" for ep using that by (simp add: I_def going_def driver_ok_def)
  have stepI: "I ep'" if i: "I ep" and t: "poll_transmit D iter now ep = Some (t, ep')" for ep t ep'
  proof -
    have "endpoint_ok M ep'" "advances ep ep'" using poll_transmit_keeps [OF e(1) okI [OF i], of now] t by auto
    with going_moves [of M "d\<lparr>dv_core := ep\<rparr>" ep'] poll_transmit_moves [OF e(1) okI [OF i] t]
      poll_transmit_side(1) [OF e(1) okI [OF i] t] i show ?thesis by (simp add: I_def)
  qed
  have "\<exists>ts ep'. flush D iter now (dv_core d) [] = Some ([] @ ts, ep') \<and> I ep' \<and> quiescent ep' \<and> pot w ep' + length ts \<le> pot w (dv_core d)"
  proof (rule flush_rests [where I = I, OF E])
    show "I (dv_core d)" using g by (simp add: I_def)
  qed (fact okI stepI)+
  then obtain ts ep' where
    f: "flush D iter now (dv_core d) [] = Some (ts, ep')" "I ep'" "quiescent ep'" "pot w ep' + length ts \<le> pot w (dv_core d)" by auto
  define d' where "d' = emit (map send_to ts) (d\<lparr>dv_core := ep'\<rparr>)"
  have sc: "scene d' = scene (d\<lparr>dv_core := ep'\<rparr>)" by (simp add: scene_def d'_def emit_def)
  have "going M d'" using f(2) story_scene [OF sc] by (simp add: I_def going_def driver_ok_def d'_def emit_def)
  moreover have "balance d' = balance d" "aside d' = aside d" "dv_core d' = ep'" "effort w k d' + length ts \<le> effort w k d"
    using f(2,4) by (simp_all add: I_def balance_def aside_def config_def effort_def d'_def emit_def)
  moreover have "flush_transmits D iter now (p, d) = Some (p \<or> ts \<noteq> [], d')" using f(1) by (simp add: flush_transmits_def d'_def)
  ultimately show ?thesis using f(3) by (intro exI [of _ "p \<or> ts \<noteq> []"] exI [of _ d']) (cases ts, auto)
qed

lemma pump_rests:
  assumes E: "driver_env D iter W M w k"
  shows "going M d \<Longrightarrow> \<exists>d'. pump D iter clk d = Some d' \<and> going M d' \<and> quiescent (dv_core d') \<and> balance d' = balance d \<and> aside d' = aside d
    \<and> effort w k d' \<le> effort w k d"
proof (induction "effort w k d" arbitrary: clk d rule: less_induct)
  case less
  obtain p1 d1 where 1: "drain_events D (False, d) = Some (p1, d1)" "going M d1" "ep_events (dv_core d1) = []"
    "balance d1 = balance d" "aside d1 = aside d" "if p1 = False \<and> d1 = d then True else p1 \<and> effort w k d1 < effort w k d"
    using drain_events_rests [OF E less.prems, of False] by blast
  obtain p2 d2 where 2: "flush_transmits D iter (clk 0) (p1, d1) = Some (p2, d2)" "going M d2" "quiescent (dv_core d2)"
    "balance d2 = balance d1" "aside d2 = aside d1" "effort w k d2 \<le> effort w k d1" "p1 \<longrightarrow> p2" "p2 \<longrightarrow> p1 \<or> effort w k d2 < effort w k d1"
    using flush_transmits_rests [OF E 1(2), of "clk 0" p1] by blast
  have st: "pump D iter clk d = (if p2 then pump D iter (\<lambda>n. clk (Suc n)) d2 else Some d2)"
    using 1(1) 2(1) by (subst pump.simps) simp
  have le: "effort w k d1 \<le> effort w k d" using 1(6) by (auto split: if_splits)
  show ?case
  proof (cases p2)
    case True
    then have lt: "effort w k d2 < effort w k d" using 1(6) 2(6,8) by (auto split: if_splits)
    from less.hyps [OF lt 2(2), of "\<lambda>n. clk (Suc n)"] st True 1(4,5) 2(4,5) lt show ?thesis by (auto intro: order_trans less_imp_le)
  next
    case False
    with st 1(4,5) 2 le show ?thesis by auto
  qed
qed

section \<open>Runs of the driver\<close>

text \<open>The two channels stay within their capacity, and what was delivered is what has been or can be accepted.\<close>

definition channels_ok :: "('c, 'e) driver \<Rightarrow> bool" where
  "channels_ok d \<longleftrightarrow> length (dv_accepted d) \<le> dv_accept_cap d \<and> length (dv_cmds d) \<le> CMD_CHANNEL_CAP
     \<and> (\<exists>taken. handed (dv_log d) = taken @ dv_accepted d)"

lemma channels_side: "aside d' = aside d \<Longrightarrow> channels_ok d' = channels_ok d"
  by (simp add: aside_def channels_ok_def)

text \<open>The reply senders an operation brings in: those of a command that finds room in the channel.\<close>

fun brings :: "('c, 'e) driver \<Rightarrow> driver_op \<Rightarrow> reply multiset" where
  "brings d (AppSend t) = (if length (dv_cmds d) < CMD_CHANNEL_CAP then cmd_replies (tg_cmd t) else {#})"
| "brings d _ = {#}"

definition driver_step ::
  "('c, 'v, 'n, 'e, 'i) deps \<Rightarrow> order \<Rightarrow> ('c, 'e) driver \<Rightarrow> driver_op \<Rightarrow> (reply multiset \<times> ('c, 'e) driver) option" where
  "driver_step D iter d op = map_option (Pair (brings d op)) (driver_exec D iter d op)"

definition generations :: "('c, 'e) driver \<Rightarrow> nat" where
  "generations d = unat (ep_next_generation (dv_core d))"

definition fixed :: "('c, 'e) driver \<Rightarrow> client_crypto list \<times> nat" where
  "fixed d = (ep_clients (dv_core d), dv_accept_cap d)"

text \<open>What one operation achieves.\<close>

definition achieves :: "('e \<Rightarrow> cid set) \<Rightarrow> ('c, 'e) driver \<Rightarrow> reply multiset \<Rightarrow> ('c, 'e) driver \<Rightarrow> bool" where
  "achieves M d R d' \<longleftrightarrow> going M d' \<and> channels_ok d' \<and> balance d' = balance d + R
     \<and> generations d' \<le> generations d + 1 \<and> fixed d' = fixed d"

lemma pump_achieves:
  assumes E: "driver_env D iter W M w k" and g: "going M d1" and c: "channels_ok d1" and b: "balance d1 = balance d + R"
    and n: "generations d1 \<le> generations d + 1" "fixed d1 = fixed d"
  shows "\<exists>d'. pump D iter clk d1 = Some d' \<and> achieves M d R d'"
proof -
  obtain d' where "pump D iter clk d1 = Some d'" "going M d'" "balance d' = balance d1" "aside d' = aside d1"
    using pump_rests [OF E g] by blast
  with b c n channels_side [of d' d1] show ?thesis by (auto simp: achieves_def aside_def generations_def fixed_def)
qed

lemma going_app:
  "going M (d\<lparr>dv_cmds := ts\<rparr>) = going M d" "going M (d\<lparr>dv_accepted := cs\<rparr>) = going M d"
  by (simp_all add: going_def driver_ok_def story_def offered_def)

lemma exec_achieves:
  assumes E: "driver_env D iter W M w k" and g: "going M d" and c: "channels_ok d" and ng: "ep_next_generation (dv_core d) \<noteq> - 1"
  shows "\<exists>d'. driver_exec D iter d op = Some d' \<and> achieves M d (brings d op) d'"
proof -
  note e = driver_envD [OF E]
  have ok: "endpoint_ok M (dv_core d)" "driver_ok M d" using g by (simp_all add: going_def driver_ok_def)
  have core: "\<exists>d'. pump D iter clk (d\<lparr>dv_core := ep'\<rparr>) = Some d' \<and> achieves M d {#} d'"
    if "endpoint_ok M ep'" "advances (dv_core d) ep'" "moves L (dv_core d) ep'" for L ep' clk
    using going_moves [OF g that] c that(2)
    by (intro pump_achieves [OF E]) (simp_all add: channels_ok_def balance_def generations_def fixed_def advances_def)
  have idle: "achieves M d {#} d" using g c by (simp add: achieves_def)
  show ?thesis
  proof (cases op)
    case (Recv clock now "from" data clk)
    obtain out ep' L where "handle_datagram D iter clock now from (take MAX_DATAGRAM data) (dv_core d) = Some (out, ep')"
      "endpoint_ok M ep'" "advances (dv_core d) ep'" "moves L (dv_core d) ep'"
      using handle_datagram_moves [OF e(1) ok(1) ng, of clock now "from" "take MAX_DATAGRAM data"] by blast
    with core Recv show ?thesis by simp
  next
    case (Timer armed now clk)
    show ?thesis
    proof (cases "sleep_deadline armed d \<le> now")
      case True
      obtain ep' where "handle_timeout D iter now (dv_core d) = Some ep'" "endpoint_ok M ep'" "advances (dv_core d) ep'" "moves (live (dv_core d)) (dv_core d) ep'"
        using handle_timeout_moves [OF e(1) ok(1), of now] by blast
      with core Timer True show ?thesis by simp
    qed (use Timer idle in simp)
  next
    case (NextCommand now clk)
    show ?thesis
    proof (cases "dv_cmds d")
      case (Cons t ts)
      let ?d = "d\<lparr>dv_cmds := ts\<rparr>"
      have "driver_ok M ?d" using ok(2) by (simp add: driver_ok_def)
      note b = with_conn_reacts [OF this _ answered_dropped]
      have "behaves (cmd_replies (tg_cmd t)) (apply_cmd D now (tg_cmd t))" by (rule stream_reactions_behave(9) [OF E])
      then obtain d1 where d1: "on_command D now t ?d = Some d1" "driver_ok M d1" "balance d1 = balance ?d + cmd_replies (tg_cmd t)" "scene d1 = scene ?d"
        using b unfolding on_command_def by blast
      have s: "story es d1 = story es ?d" for es by (rule story_scene [OF d1(4)])
      have "going M d1" using d1(2,4) g s by (auto simp: going_def scene_def story_def offered_def)
      moreover have "channels_ok d1" using c d1(4) Cons by (simp add: channels_ok_def scene_def)
      moreover have "balance d1 = balance d" using d1(3) Cons by (simp add: balance_def ac_simps)
      ultimately have "\<exists>d'. pump D iter clk d1 = Some d' \<and> achieves M d {#} d'"
        using d1(4) by (intro pump_achieves [OF E]) (simp_all add: scene_def generations_def fixed_def)
      with d1(1) Cons NextCommand show ?thesis by simp
    qed (use NextCommand idle in simp)
  next
    case (Deliver clk)
    show ?thesis
    proof (cases "dv_pending_accept d \<noteq> [] \<and> length (dv_accepted d) < dv_accept_cap d")
      case True
      then obtain conn rest where p: "dv_pending_accept d = conn # rest" by (cases "dv_pending_accept d") auto
      have d': "deliver d = emit [Delivered conn] (d\<lparr>dv_pending_accept := rest, dv_accepted := dv_accepted d @ [conn]\<rparr>)"
        using p True by (simp add: deliver_def)
      have "driver_ok M (deliver d)" using ok(2) unfolding d' by (simp add: driver_ok_def emit_def)
      moreover have "story es d \<Longrightarrow> story es (deliver d)" for es
        using p unfolding d' by (simp add: emit_def story_def offered_def)
      ultimately have "going M (deliver d)" using g d' by (simp add: going_def emit_def)
      moreover have "channels_ok (deliver d)" using c True unfolding d' by (auto simp: channels_ok_def emit_def)
      moreover have "balance (deliver d) = balance d" "dv_core (deliver d) = dv_core d" "dv_accept_cap (deliver d) = dv_accept_cap d" unfolding d' by (simp_all add: balance_def emit_def)
      ultimately have "\<exists>d'. pump D iter clk (deliver d) = Some d' \<and> achieves M d {#} d'"
        by (intro pump_achieves [OF E]) (simp_all add: generations_def fixed_def)
      with Deliver True show ?thesis by simp
    qed (use Deliver idle in auto)
  next
    case (RecvFails clk)
    then show ?thesis using pump_achieves [OF E g c, of d "{#}"] by (simp add: generations_def fixed_def)
  next
    case AppAccept
    have "channels_ok (d\<lparr>dv_accepted := tl (dv_accepted d)\<rparr>)"
    proof (cases "dv_accepted d")
      case (Cons x xs)
      with c show ?thesis by (auto simp: channels_ok_def intro: exI [of _ "_ @ [x]"])
    qed (use c in \<open>simp add: channels_ok_def\<close>)
    with AppAccept g show ?thesis by (simp add: achieves_def going_app balance_def generations_def fixed_def)
  next
    case (AppSend t)
    show ?thesis
    proof (cases "length (dv_cmds d) < CMD_CHANNEL_CAP")
      case True
      then have "channels_ok (d\<lparr>dv_cmds := dv_cmds d @ [t]\<rparr>)" using c by (simp add: channels_ok_def)
      moreover have "balance (d\<lparr>dv_cmds := dv_cmds d @ [t]\<rparr>) = balance d + cmd_replies (tg_cmd t)" by (simp add: balance_def)
      ultimately show ?thesis using AppSend True g by (simp add: achieves_def going_app generations_def fixed_def)
    qed (use AppSend idle in simp)
  qed
qed

lemma driver_run:
  assumes E: "driver_env D iter W M w k"
  shows "going M d \<Longrightarrow> channels_ok d \<Longrightarrow> generations d + length ops < 2 ^ 64 \<Longrightarrow>
    \<exists>ins d'. run_opt (driver_step D iter) d ops = Some (ins, d') \<and> length ins = length ops \<and> going M d' \<and> channels_ok d'
      \<and> balance d' = balance d + sum_list ins \<and> fixed d' = fixed d"
proof (induction ops arbitrary: d)
  case (Cons op ops)
  have "ep_next_generation (dv_core d) \<noteq> - 1"
    using Cons.prems(3) by (auto simp: generations_def fixed_def unsigned_minus_1_eq_mask mask_eq_exp_minus_1)
  then obtain d1 where 1: "driver_exec D iter d op = Some d1" "achieves M d (brings d op) d1"
    using exec_achieves [OF E Cons.prems(1,2)] by blast
  then have a: "going M d1" "channels_ok d1" "generations d1 + length ops < 2 ^ 64" "balance d1 = balance d + brings d op"
    "fixed d1 = fixed d"
    using Cons.prems(3) by (simp_all add: achieves_def)
  from Cons.IH [OF a(1-3)] obtain ins d' where 2: "run_opt (driver_step D iter) d1 ops = Some (ins, d')"
    "length ins = length ops" "going M d'" "channels_ok d'" "balance d' = balance d1 + sum_list ins" "fixed d' = fixed d1"
    by blast
  have "driver_step D iter d op = Some (brings d op, d1)" using 1(1) by (simp add: driver_step_def)
  with 2 a(4,5) show ?case by (simp add: add.assoc)
qed simp

lemma driver_drop_balance: "answered (answers (dv_log (driver_drop d))) = balance d"
proof -
  have "mset (concat (map (\<lambda>(ch, pk). parked_senders pk) al)) = (\<Sum>(ch, pk)\<in>#mset al. waiting pk)" for al :: "(connection_handle \<times> parked) list"
    by (induction al) (auto simp: answered_senders [unfolded answered_dropped_senders])
  then show ?thesis
    using answered_queued [of "dv_cmds d"]
    by (simp add: driver_drop_def emit_def balance_def multiset.map_comp o_def del: map_map)
qed

lemma going_parked:
  assumes "going M d" "(ch, pk) \<in> set (dv_parked d)"
  shows "conn_mut (dv_core d) ch \<noteq> None \<or> (\<exists>r. ConnectionLost ch r \<in> set (ep_events (dv_core d)))"
proof -
  have "dv_surfaced d \<subseteq> live (dv_core d) \<union> lost_in (ep_events (dv_core d))" using assms(1) by (simp add: going_def story_def)
  moreover have "ch \<in> dv_surfaced d" using assms(1) imageI [OF assms(2), of fst] by (simp add: going_def driver_ok_def)
  ultimately show ?thesis unfolding live_conn_mut [symmetric] lost_in_def by blast
qed

lemma new_driver_going:
  assumes "new_server B inner secrets = Inr core"
  shows "going M (driver_new core cap)" "channels_ok (driver_new core cap)" "balance (driver_new core cap) = {#}"
    "generations (driver_new core cap) = 1" "fixed (driver_new core cap) = (ep_clients core, cap)"
  using new_server_ok [OF assms]
  by (simp_all add: going_def driver_ok_def story_def offered_def driver_new_def channels_ok_def balance_def generations_def fixed_def)

section \<open>Properties\<close>

text \<open>
  C12. The server's event loop never stalls and forgets no one: from a new server, over any sequence of
  received datagrams, socket errors, commands, timers, deliveries and application actions (fewer than
  the generation counter can number), every step returns, pump included; the reply senders that came in
  with the commands are at every moment exactly those answered or dropped, those parked and those still
  in the command channel; and a connection with parked operations is either live in the endpoint or its
  loss, which answers them all, is already in the event queue. If the \<open>Server\<close> is dropped, every sender
  that came in has been answered or dropped.
\<close>

theorem server_driver_answers_everyone:
  assumes E: "driver_env D iter W M w k" and n: "new_server B inner secrets = Inr core" and len: "length ops < 2 ^ 64 - 1"
  shows "\<exists>ins d. run_opt (driver_step D iter) (driver_new core cap) ops = Some (ins, d) \<and> length ins = length ops
    \<and> answered (answers (dv_log d)) + (\<Sum>(ch, pk)\<in>#mset (dv_parked d). waiting pk)
        + (\<Sum>t\<in>#mset (dv_cmds d). cmd_replies (tg_cmd t)) = sum_list ins
    \<and> (\<forall>(ch, pk)\<in>set (dv_parked d). conn_mut (dv_core d) ch \<noteq> None \<or> (\<exists>r. ConnectionLost ch r \<in> set (ep_events (dv_core d))))
    \<and> length (dv_accepted d) \<le> cap \<and> length (dv_cmds d) \<le> CMD_CHANNEL_CAP
    \<and> answered (answers (dv_log (driver_drop d))) = sum_list ins"
proof -
  note i = new_driver_going [OF n, where cap = cap]
  obtain ins d where r: "run_opt (driver_step D iter) (driver_new core cap) ops = Some (ins, d)" "length ins = length ops"
    "going M d" "channels_ok d" "balance d = sum_list ins" "fixed d = (ep_clients core, cap)"
    using driver_run [OF E i(1,2), of ops] i(3-5) len by auto
  have "\<forall>(ch, pk)\<in>set (dv_parked d). conn_mut (dv_core d) ch \<noteq> None \<or> (\<exists>r. ConnectionLost ch r \<in> set (ep_events (dv_core d)))"
    using going_parked [OF r(3)] by blast
  with r(1,2,4-6) driver_drop_balance [of d] show ?thesis
    by (intro exI [of _ ins] exI [of _ d]) (simp add: balance_def channels_ok_def fixed_def)
qed

text \<open>Witness: the sample server takes a command for a connection it does not have, and an unauthenticated datagram.\<close>

abbreviation sample_run :: "driver_op list" where
  "sample_run \<equiv> [AppSend \<lparr>tg_handle = ConnectionHandle 0 1, tg_cmd = OpenBi 5\<rparr>, NextCommand 0 (\<lambda>n. n), Recv (Some 0) 1 (AddrV4 9 9) [7] (\<lambda>n. n)]"

theorem server_driver_answers_everyone_witness:
  "\<exists>ins d. run_opt (driver_step sample_deps (\<lambda>hs. hs)) (driver_new sample_server 32) sample_run = Some (ins, d) \<and> length ins = 3
    \<and> answered (answers (dv_log d)) + (\<Sum>(ch, pk)\<in>#mset (dv_parked d). waiting pk)
        + (\<Sum>t\<in>#mset (dv_cmds d). cmd_replies (tg_cmd t)) = sum_list ins"
  using server_driver_answers_everyone [OF sample_driver_env new_sample_server, of sample_run 32] by auto

text \<open>
  C13. A peer becomes visible to the application once, and authenticated: over any run of a new server's
  driver no two connections offered to \<open>Server::accept\<close>, delivered or still waiting for room, share a
  handle; each names one of the configured clients, and while it is live it is the client whose key the
  endpoint admitted it under; and what \<open>accept\<close> has yet to return is the most recent of what was
  delivered, never more than the channel's capacity.
\<close>

theorem connections_offered_once:
  assumes E: "driver_env D iter W M w k" and n: "new_server B inner secrets = Inr core"
    and r: "run_opt (driver_step D iter) (driver_new core cap) ops = Some (ins, d)" and len: "length ops < 2 ^ 64 - 1"
  shows "distinct (map cn_handle (handed (dv_log d) @ dv_pending_accept d))
    \<and> (\<forall>c\<in>set (handed (dv_log d) @ dv_pending_accept d). (\<exists>cl\<in>set (ep_clients core). cn_client_id c = Some (cl_client_id cl))
         \<and> (conn_mut (dv_core d) (cn_handle c) \<noteq> None \<longrightarrow> cn_client_id c = client_id (dv_core d) (cn_handle c)))
    \<and> (\<exists>taken. handed (dv_log d) = taken @ dv_accepted d) \<and> length (dv_accepted d) \<le> cap"
proof -
  note i = new_driver_going [OF n, where cap = cap]
  have g: "going M d" "channels_ok d" "fixed d = (ep_clients core, cap)"
    using driver_run [OF E i(1,2), of ops] i(3-5) len r by auto
  have o: "handed (dv_log d) @ dv_pending_accept d = offered d" by (simp add: offered_def)
  have "distinct (map cn_handle (offered d))"
    and "\<forall>c\<in>set (offered d). cn_client_id c \<in> Some ` cl_client_id ` set (ep_clients (dv_core d))
      \<and> (cn_handle c \<in> live (dv_core d) \<longrightarrow> cn_client_id c = ep_client_ids (dv_core d) (cn_handle c))"
    using g(1) by (simp_all add: going_def story_def)
  then show ?thesis
    unfolding o live_conn_mut [symmetric] client_id_def using g(2,3) by (auto simp: fixed_def channels_ok_def)
qed

text \<open>Witness: the same run.\<close>

theorem connections_offered_once_witness:
  "\<exists>ins d. run_opt (driver_step sample_deps (\<lambda>hs. hs)) (driver_new sample_server 32) sample_run = Some (ins, d)
    \<and> distinct (map cn_handle (handed (dv_log d) @ dv_pending_accept d))"
proof -
  note i = new_driver_going [OF new_sample_server, where cap = 32]
  obtain ins d where r: "run_opt (driver_step sample_deps (\<lambda>hs. hs)) (driver_new sample_server 32) sample_run = Some (ins, d)"
    using driver_run [OF sample_driver_env i(1,2), of sample_run] i(4) by auto
  with connections_offered_once [OF sample_driver_env new_sample_server r] show ?thesis by auto
qed

text \<open>
  C14. The pump comes to rest: in every state a server's driver reaches, \<open>pump\<close> returns, whatever the clock
  reads; nothing is left to send, no connection has unsent stream work, so that \<open>next_timeout\<close> is a real
  timer and not the deadline of dirty work, no sender was added or lost, and every connection with
  parked operations that is gone from the endpoint has its loss in the queue.
\<close>

theorem server_pump_comes_to_rest:
  assumes E: "driver_env D iter W M w k" and n: "new_server B inner secrets = Inr core"
    and r: "run_opt (driver_step D iter) (driver_new core cap) ops = Some (ins, d)" and len: "length ops < 2 ^ 64 - 1"
  shows "\<exists>d'. pump D iter clk d = Some d' \<and> ep_outbound (dv_core d') = []
    \<and> (\<forall>(ch, s)\<in>set (ep_connections (dv_core d')). \<not> is_dirty s) \<and> next_timeout (dv_core d') = ep_next_timeout (dv_core d')
    \<and> balance d' = balance d
    \<and> (\<forall>(ch, pk)\<in>set (dv_parked d'). conn_mut (dv_core d') ch \<noteq> None \<or> (\<exists>r. ConnectionLost ch r \<in> set (ep_events (dv_core d'))))"
proof -
  note i = new_driver_going [OF n, where cap = cap]
  have g: "going M d" using driver_run [OF E i(1,2), of ops] i(3-5) len r by auto
  obtain d' where d': "pump D iter clk d = Some d'" "going M d'" "quiescent (dv_core d')" "balance d' = balance d"
    using pump_rests [OF E g] by blast
  have "next_timeout (dv_core d') = ep_next_timeout (dv_core d')"
    using d'(3) by (auto simp: quiescent_def next_timeout_def list_ex_iff)
  moreover have "conn_mut (dv_core d') ch \<noteq> None \<or> (\<exists>r. ConnectionLost ch r \<in> set (ep_events (dv_core d')))"
    if "(ch, pk) \<in> set (dv_parked d')" for ch pk
    by (rule going_parked [OF d'(2) that])
  ultimately show ?thesis using d' by (auto simp: quiescent_def)
qed

text \<open>Witness: the sample server before anything happened.\<close>

theorem server_pump_comes_to_rest_witness:
  "\<exists>d'. pump sample_deps (\<lambda>hs. hs) (\<lambda>n. n) (driver_new sample_server 32) = Some d' \<and> ep_outbound (dv_core d') = []"
  using server_pump_comes_to_rest [OF sample_driver_env new_sample_server, where ops = "[]" and cap = 32 and clk = "\<lambda>n. n"] by auto

end
