(* ===== verification/ClientInv.thy ===== *)
theory ClientInv
  imports Client
begin

text \<open>
  What the client's driver keeps true: it owns one connection, tells \<open>connect\<close> its outcome once, answers
  every handle, and its pump comes to rest.
\<close>

section \<open>Tables, ledger and work\<close>

definition client_balance :: "('c, 'e) client_driver \<Rightarrow> reply multiset" where
  "client_balance d = answered (answers (cd_log d)) + waiting (cd_parked d) + (\<Sum>t\<in>#mset (cd_cmds d). cmd_replies (tg_cmd t))"

definition client_effort :: "('c \<Rightarrow> nat) \<Rightarrow> nat \<Rightarrow> ('c, 'e) client_driver \<Rightarrow> nat" where
  "client_effort w k d = pot w (cd_core d) + k * owed (cd_parked d)"

definition client_ok :: "('e \<Rightarrow> cid set) \<Rightarrow> ('c, 'e) client_driver \<Rightarrow> bool" where
  "client_ok M d \<longleftrightarrow> endpoint_ok M (cd_core d) \<and> ep_role (cd_core d) = RoleClient \<and> parked_ok (cd_parked d)
     \<and> live (cd_core d) \<subseteq> {cd_handle d} \<and> length (cd_replies d) + (if cd_connected d then 1 else 0) = 1
     \<and> (\<forall>c. Replied (Inr c) \<in> set (cd_replies d) \<longrightarrow> cn_handle c = cd_handle d \<and> cn_client_id c = None)
     \<and> (\<forall>e. Replied (Inl e) \<in> set (cd_replies d) \<longrightarrow> e = ClientHandshakeIncomplete)"

text \<open>Every event to come is about the one connection, and tells its story.\<close>

definition client_story :: "event list \<Rightarrow> ('c, 'e) client_driver \<Rightarrow> bool" where
  "client_story es d \<longleftrightarrow> queue_ok (live (cd_core d)) es \<and> (\<forall>e\<in>set es. event_conn e = cd_handle d)"

text \<open>The connection is live or its loss is to come; or it was lost, and no one waits for it.\<close>

definition client_phase :: "bool \<Rightarrow> event list \<Rightarrow> ('c, 'e) client_driver \<Rightarrow> bool" where
  "client_phase lost es d \<longleftrightarrow>
     (if lost then waiting (cd_parked d) = {#} \<and> \<not> cd_connected d \<and> es = [] else cd_handle d \<in> live (cd_core d) \<union> lost_in es)"

definition client_aside where
  "client_aside d = (cd_handle d, cd_cmds d, cd_running d, ep_next_generation (cd_core d), ep_role (cd_core d))"

definition client_base where
  "client_base d = (client_aside d, live (cd_core d), ep_events (cd_core d))"

lemma take_connected_simps [simp]:
  "cd_core (take_connected r d) = cd_core d" "cd_handle (take_connected r d) = cd_handle d"
  "cd_parked (take_connected r d) = cd_parked d" "cd_cmds (take_connected r d) = cd_cmds d"
  "cd_running (take_connected r d) = cd_running d" "cd_log (take_connected r d) = cd_log d" "\<not> cd_connected (take_connected r d)"
  by (simp_all add: take_connected_def)

lemma client_emit_simps [simp]:
  "cd_core (client_emit es d) = cd_core d" "cd_handle (client_emit es d) = cd_handle d"
  "cd_parked (client_emit es d) = cd_parked d" "cd_cmds (client_emit es d) = cd_cmds d"
  "cd_running (client_emit es d) = cd_running d" "cd_log (client_emit es d) = cd_log d @ es"
  "cd_connected (client_emit es d) = cd_connected d" "cd_replies (client_emit es d) = cd_replies d"
  by (simp_all add: client_emit_def)

lemma take_connected_ok:
  assumes "client_ok M d" "\<And>c. r = Replied (Inr c) \<Longrightarrow> cn_handle c = cd_handle d \<and> cn_client_id c = None"
    "\<And>e. r = Replied (Inl e) \<Longrightarrow> e = ClientHandshakeIncomplete"
  shows "client_ok M (take_connected r d)"
  using assms by (auto simp: client_ok_def take_connected_def)

section \<open>Reactions\<close>

lemma with_own_reacts:
  assumes ok: "client_ok M d" and f: "behaves R f" and other: "answered other = R"
  shows "\<exists>d'. with_own f other d = Some d' \<and> client_ok M d' \<and> client_balance d' = client_balance d + R
    \<and> client_base d' = client_base d \<and> (eases w k f \<longrightarrow> client_effort w k d' \<le> client_effort w k d)"
proof (cases "conn_mut (cd_core d) (cd_handle d)")
  case None
  then have "with_own f other d = Some (client_emit (map Answer other) d)" by (simp add: with_own_def)
  with ok other show ?thesis
    by (simp add: client_ok_def client_balance_def client_base_def client_aside_def client_effort_def)
next
  case (Some s)
  have pok: "endpoint_ok M (cd_core d)" "parked_ok (cd_parked d)" using ok by (simp_all add: client_ok_def)
  obtain outs pk' s' where r: "f (cd_parked d) s = Some (outs, pk', s')" "parked_ok pk'" "answered outs + waiting pk' = waiting (cd_parked d) + R"
    using f pok(2) unfolding behaves_def by blast
  define d' where "d' = client_emit (map Answer outs) (d\<lparr>cd_parked := pk', cd_core := put_conn (cd_handle d) s' (cd_core d)\<rparr>)"
  have w: "with_own f other d = Some d'" using Some r(1) by (simp add: with_own_def d'_def)
  have "client_ok M d'" using ok r(2) by (simp add: client_ok_def d'_def put_conn_keeps(1))
  moreover have "client_base d' = client_base d" by (simp add: client_base_def client_aside_def d'_def)
  moreover have "client_balance d' = client_balance d + R"
    using arg_cong [OF r(3), of "\<lambda>m. answered (answers (cd_log d)) + m + (\<Sum>t\<in>#mset (cd_cmds d). cmd_replies (tg_cmd t))"]
    by (simp add: client_balance_def d'_def ac_simps)
  moreover have "client_effort w k d' \<le> client_effort w k d" if "eases w k f"
  proof -
    have "toil w k pk' s' \<le> toil w k (cd_parked d) s" using that pok(2) r(1) by (simp add: eases_def)
    moreover have "distinct (handles (cd_core d))" using pok(1) by (simp add: endpoint_ok_def handles_ok_distinct)
    ultimately show ?thesis
      using work_put_conn [OF _ Some, of w s'] by (simp add: client_effort_def pot_def d'_def toil_def)
  qed
  ultimately show ?thesis using w by blast
qed

lemma client_lost_reacts:
  assumes "client_ok M d"
  shows "client_ok M (client_lost r d)" "client_balance (client_lost r d) = client_balance d"
    "client_base (client_lost r d) = client_base d" "client_effort w k (client_lost r d) \<le> client_effort w k d"
    "waiting (cd_parked (client_lost r d)) = {#}" "\<not> cd_connected (client_lost r d)"
proof -
  obtain outs pk where f: "fail_all (mark_closed r (cd_parked d)) = (outs, pk)" by fastforce
  have wm: "waiting (mark_closed r (cd_parked d)) = waiting (cd_parked d)" by (simp add: mark_closed_def waiting_def)
  have c: "answered outs = waiting (cd_parked d)" "waiting pk = {#}" "parked_ok pk"
    using fail_all_conserves [of "mark_closed r (cd_parked d)"] by (simp_all add: f wm)
  have o: "owed pk = 0" using f by (auto simp: fail_all_def owed_def)
  have d': "client_lost r d = take_connected (Replied (Inl ClientHandshakeIncomplete))
      (client_emit (CloseReason (cd_handle d) r # map Answer outs) (d\<lparr>cd_parked := pk\<rparr>))" by (simp add: client_lost_def f)
  show "client_ok M (client_lost r d)"
    unfolding d' by (rule take_connected_ok) (use assms c(3) in \<open>simp_all add: client_ok_def\<close>)
  show "client_balance (client_lost r d) = client_balance d" "client_base (client_lost r d) = client_base d"
    "client_effort w k (client_lost r d) \<le> client_effort w k d" "waiting (cd_parked (client_lost r d)) = {#}"
    "\<not> cd_connected (client_lost r d)"
    using c o by (simp_all add: d' client_balance_def client_base_def client_aside_def client_effort_def)
qed

lemma client_surface_reacts:
  assumes "client_ok M d"
  shows "client_ok M (client_surface D d)" "client_balance (client_surface D d) = client_balance d"
    "client_base (client_surface D d) = client_base d" "client_effort w k (client_surface D d) = client_effort w k d"
proof -
  show "client_ok M (client_surface D d)"
    unfolding client_surface_def by (rule take_connected_ok [OF assms]) (auto split: option.splits)
qed (simp_all add: client_surface_def client_balance_def client_base_def client_aside_def client_effort_def)

lemma client_fin_acked_reacts:
  assumes "client_ok M d" "on_fin_acked i (cd_parked d) = (outs, pk')"
  defines "d' \<equiv> client_emit (map Answer outs) (d\<lparr>cd_parked := pk'\<rparr>)"
  shows "client_ok M d'" "client_balance d' = client_balance d" "client_base d' = client_base d" "client_effort w k d' = client_effort w k d"
proof -
  have "parked_ok (cd_parked d)" using assms(1) by (simp add: client_ok_def)
  note c = fail_conserves(4) [OF this assms(2)]
  have "owed pk' = owed (cd_parked d)" using assms(2) by (auto simp: on_fin_acked_def split: option.splits)
  then show "client_effort w k d' = client_effort w k d" by (simp add: d'_def client_effort_def)
  show "client_ok M d'" "client_base d' = client_base d"
    using assms(1) c by (simp_all add: d'_def client_ok_def client_base_def client_aside_def)
  show "client_balance d' = client_balance d"
    using arg_cong [OF conjunct2 [OF c], of "\<lambda>m. answered (answers (cd_log d)) + m + (\<Sum>t\<in>#mset (cd_cmds d). cmd_replies (tg_cmd t))"]
    by (simp add: d'_def client_balance_def ac_simps)
qed

lemma client_on_event_reacts:
  assumes E: "driver_env D iter W M w k" and ok: "client_ok M d" and st: "client_story (e # es) d" and ph: "client_phase lost (e # es) d"
  shows "\<exists>b d'. client_on_event D e d = Some (b, d') \<and> client_ok M d' \<and> client_story es d' \<and> client_phase (lost \<or> b) es d'
    \<and> client_balance d' = client_balance d \<and> client_effort w k d' \<le> client_effort w k d \<and> client_base d' = client_base d"
proof -
  note b = stream_reactions_behave [OF E]
  have nl: "\<not> lost" "cd_handle d \<in> live (cd_core d) \<union> lost_in (e # es)" using ph by (auto simp: client_phase_def split: if_splits)
  have own: "event_conn e = cd_handle d" using st by (simp add: client_story_def)
  have st': "client_story es d'" if "client_base d' = client_base d" for d'
    using that st queue_ok_tl [of "live (cd_core d)" e es] by (simp add: client_story_def client_base_def client_aside_def)
  have other: ?thesis
    if n: "\<And>c r. e \<noteq> ConnectionLost c r" and r: "client_on_event D e d = Some (False, d')" "client_ok M d'" "client_balance d' = client_balance d"
      "client_base d' = client_base d" "client_effort w k d' \<le> client_effort w k d" for d'
  proof -
    have "client_phase False es d'" using nl(2) lost_in_other [of e es] n r(4) by (simp add: client_phase_def client_base_def client_aside_def)
    with r st' nl(1) show ?thesis by auto
  qed
  have wo: ?thesis if "\<And>c r. e \<noteq> ConnectionLost c r" "client_on_event D e d = map_option (Pair False) (with_own f [] d)"
      "behaves {#} f" "eases w k f" for f
    using with_own_reacts [OF ok that(3), of "[]" w k] that(2,4) other [OF that(1)] by auto
  show ?thesis
  proof (cases e)
    case (Connected ch)
    with client_surface_reacts [OF ok, where D = D] own show ?thesis by (intro other [of "client_surface D d"]) (simp_all add: client_on_event_def)
  next
    case (ConnectionLost ch r)
    have "es = []"
    proof (rule ccontr)
      assume "es \<noteq> []"
      then obtain x xs where "es = x # xs" by (cases es) auto
      with st own ConnectionLost show False by (auto simp: client_story_def)
    qed
    with client_lost_reacts [OF ok, where r = r] st' [OF client_lost_reacts(3) [OF ok, where r = r]] own ConnectionLost show ?thesis
      by (intro exI [of _ True] exI [of _ "client_lost r d"]) (simp add: client_on_event_def client_phase_def)
  next
    case (StreamFinAcked ch i)
    obtain outs pk' where f: "on_fin_acked i (cd_parked d) = (outs, pk')" by fastforce
    with client_fin_acked_reacts [OF ok f] own StreamFinAcked show ?thesis
      by (intro other [of "client_emit (map Answer outs) (d\<lparr>cd_parked := pk'\<rparr>)"]) (simp_all add: client_on_event_def)
  next
    case (StreamOpened ch i dir)
    with own show ?thesis by (intro wo [OF _ _ b(1,2)]) (simp_all add: client_on_event_def)
  next
    case (StreamReadable ch i)
    with own show ?thesis by (intro wo [OF _ _ b(3,4)]) (simp_all add: client_on_event_def)
  next
    case (StreamWritable ch i)
    with own show ?thesis by (intro wo [OF _ _ b(5,6)]) (simp_all add: client_on_event_def)
  next
    case (StreamStopped ch i code)
    with own show ?thesis by (intro wo [OF _ _ b(7,8)]) (simp_all add: client_on_event_def)
  qed
qed

section \<open>The pump\<close>

definition dialing :: "('e \<Rightarrow> cid set) \<Rightarrow> ('c, 'e) client_driver \<Rightarrow> bool" where
  "dialing M d \<longleftrightarrow> client_ok M d \<and> client_story (ep_events (cd_core d)) d"

lemma dialing_moves:
  assumes g: "dialing M d" and ok: "endpoint_ok M ep'" and a: "advances (cd_core d) ep'" and m: "moves (live (cd_core d)) (cd_core d) ep'"
  shows "dialing M (d\<lparr>cd_core := ep'\<rparr>)"
    and "cd_handle d \<in> live (cd_core d) \<union> lost_in (ep_events (cd_core d)) \<Longrightarrow> cd_handle d \<in> live ep' \<union> lost_in (ep_events ep')"
proof -
  let ?ep = "cd_core d"
  obtain evs lost where
    ev: "ep_events ep' = ep_events ?ep @ evs @ map (\<lambda>(ch, reason). ConnectionLost ch reason) lost"
    and evs: "\<forall>e\<in>set evs. (\<forall>c r. e \<noteq> ConnectionLost c r) \<and> event_conn e \<in> live ?ep"
    and lost: "distinct (map fst lost)" "fst ` set lost \<subseteq> live ?ep" and l': "live ep' = live ?ep - fst ` set lost"
    using m unfolding moves_def by (elim exE conjE)
  let ?fs = "evs @ map (\<lambda>(ch, reason). ConnectionLost ch reason) lost"
  have own: "live ?ep \<subseteq> {cd_handle d}" and q: "queue_ok (live ?ep) (ep_events ?ep)" "\<forall>e\<in>set (ep_events ?ep). event_conn e = cd_handle d"
    using g by (simp_all add: dialing_def client_ok_def client_story_def)
  have mfs: "event_conn ` set ?fs \<subseteq> live ?ep" using evs lost(2) by (auto simp: image_image case_prod_beta)
  have lfs: "lost_in ?fs = fst ` set lost" using evs by (auto simp: lost_in_def [of evs])
  have q2: "queue_ok (live ep') ?fs"
    by (rule queue_ok_evs [OF _ queue_ok_losses [OF lost(1)]]) (use evs l' in auto)
  have "queue_ok (live ep') (ep_events ?ep @ ?fs)"
  proof (rule queue_ok_append [OF q(1) q2])
    show "live ?ep \<subseteq> live ep' \<union> lost_in ?fs" unfolding lfs l' by blast
    show "lost_in (ep_events ?ep) \<inter> (live ep' \<union> event_conn ` set ?fs) = {}" unfolding l' using queue_ok_dead [OF q(1)] mfs by blast
  qed
  moreover have "event_conn e = cd_handle d" if "e \<in> set (ep_events ?ep @ ?fs)" for e
  proof (cases "e \<in> set ?fs")
    case True
    then have "event_conn e \<in> live ?ep" using mfs by blast
    with own show ?thesis by blast
  next
    case False
    with that q(2) show ?thesis by simp
  qed
  ultimately have "client_story (ep_events ep') (d\<lparr>cd_core := ep'\<rparr>)" by (simp add: client_story_def ev)
  moreover have "live ep' \<subseteq> {cd_handle d}" using own l' by blast
  ultimately show "dialing M (d\<lparr>cd_core := ep'\<rparr>)" using g ok a by (simp add: dialing_def client_ok_def advances_def)
  have "lost_in (ep_events ep') = lost_in (ep_events ?ep) \<union> fst ` set lost" unfolding ev using lfs by simp
  then show "cd_handle d \<in> live ep' \<union> lost_in (ep_events ep')" if "cd_handle d \<in> live ?ep \<union> lost_in (ep_events ?ep)"
    using that l' by blast
qed

lemma client_drain_rests:
  assumes E: "driver_env D iter W M w k"
  shows "dialing M d \<Longrightarrow> client_phase lost (ep_events (cd_core d)) d \<Longrightarrow>
    \<exists>p' lost' d'. client_drain_events D (p, lost, d) = Some (p', lost', d') \<and> dialing M d' \<and> ep_events (cd_core d') = []
      \<and> client_phase lost' [] d' \<and> client_balance d' = client_balance d \<and> client_aside d' = client_aside d
      \<and> (if p' = p \<and> d' = d then True else p' \<and> client_effort w k d' < client_effort w k d)"
proof (induction "client_effort w k d" arbitrary: p lost d rule: less_induct)
  case less
  show ?case
  proof (cases "ep_events (cd_core d)")
    case Nil
    then have "client_next_event (p, lost, d) = (None, p, lost, d)" by (simp add: client_next_event_def poll_event_def)
    then have "client_drain_events D (p, lost, d) = Some (p, lost, d)" unfolding client_drain_events_def by (rule while_some_stop)
    with less.prems Nil show ?thesis by auto
  next
    case (Cons e es)
    let ?ep = "(cd_core d)\<lparr>ep_events := es\<rparr>"
    let ?d = "d\<lparr>cd_core := ?ep\<rparr>"
    have pe: "snd (poll_event (cd_core d)) = ?ep" using Cons by (simp add: poll_event_def)
    then have ne: "client_next_event (p, lost, d) = (Some e, p, lost, ?d)" using Cons by (simp add: client_next_event_def poll_event_def)
    have l: "live ?ep = live (cd_core d)" by (simp add: live_def)
    have 1: "client_ok M ?d" "client_story (e # es) ?d" "client_phase lost (e # es) ?d"
      using less.prems Cons poll_event_keeps(1) [of M "cd_core d"]
      by (simp_all add: dialing_def client_ok_def client_story_def client_phase_def pe l split: if_splits)
    obtain b d1 where d1: "client_on_event D e ?d = Some (b, d1)" "client_ok M d1" "client_story es d1" "client_phase (lost \<or> b) es d1"
      "client_balance d1 = client_balance ?d" "client_effort w k d1 \<le> client_effort w k ?d" "client_base d1 = client_base ?d"
      using client_on_event_reacts [OF E 1] by blast
    have f1: "ep_events (cd_core d1) = es" "client_aside d1 = client_aside d" "client_balance d1 = client_balance d"
      using d1(5,7) by (simp_all add: client_base_def client_aside_def client_balance_def)
    have lt: "client_effort w k d1 < client_effort w k d" using d1(6) Cons by (simp add: client_effort_def pot_def)
    have "dialing M d1" "client_phase (lost \<or> b) (ep_events (cd_core d1)) d1" using d1(2-4) f1 by (simp_all add: dialing_def)
    from less.hyps [OF lt this, of True] obtain p' lost' d' where
      r: "client_drain_events D (True, lost \<or> b, d1) = Some (p', lost', d')" "dialing M d'" "ep_events (cd_core d') = []"
      "client_phase lost' [] d'" "client_balance d' = client_balance d1" "client_aside d' = client_aside d1"
      "if p' = True \<and> d' = d1 then True else p' \<and> client_effort w k d' < client_effort w k d1" by blast
    have "client_drain_events D (p, lost, d) = client_drain_events D (True, lost \<or> b, d1)"
      unfolding client_drain_events_def
      by (rule while_some_step [where poll = client_next_event and s = "(p, lost, d)", OF ne]) (use d1(1) in \<open>simp add: client_react_def\<close>)
    with r f1 lt show ?thesis by (auto split: if_splits)
  qed
qed

lemma client_flush_rests:
  assumes E: "driver_env D iter W M w k" and g: "dialing M d"
  obtains ts ep' where "flush D iter now (cd_core d) [] = Some (ts, ep')" "dialing M (d\<lparr>cd_core := ep'\<rparr>)" "quiescent ep'"
    "config ep' = config (cd_core d)" "pot w ep' + length ts \<le> pot w (cd_core d)"
    "cd_handle d \<in> live (cd_core d) \<union> lost_in (ep_events (cd_core d)) \<Longrightarrow> cd_handle d \<in> live ep' \<union> lost_in (ep_events ep')"
proof -
  note e = driver_envD [OF E]
  let ?there = "\<lambda>ep. cd_handle d \<in> live ep \<union> lost_in (ep_events ep)"
  define I where "I ep \<longleftrightarrow> dialing M (d\<lparr>cd_core := ep\<rparr>) \<and> config ep = config (cd_core d) \<and> (?there (cd_core d) \<longrightarrow> ?there ep)" for ep
  have okI: "endpoint_ok M ep" if "I ep" for ep using that by (simp add: I_def dialing_def client_ok_def)
  have stepI: "I ep'" if i: "I ep" and t: "poll_transmit D iter now ep = Some (t, ep')" for ep t ep'
  proof -
    have "endpoint_ok M ep'" "advances ep ep'" using poll_transmit_keeps [OF e(1) okI [OF i], of now] t by auto
    with dialing_moves [of M "d\<lparr>cd_core := ep\<rparr>" ep'] poll_transmit_moves [OF e(1) okI [OF i] t]
      poll_transmit_side(1) [OF e(1) okI [OF i] t] i show ?thesis by (simp add: I_def)
  qed
  have "\<exists>ts ep'. flush D iter now (cd_core d) [] = Some ([] @ ts, ep') \<and> I ep' \<and> quiescent ep' \<and> pot w ep' + length ts \<le> pot w (cd_core d)"
  proof (rule flush_rests [where I = I, OF E])
    show "I (cd_core d)" using g by (simp add: I_def)
  qed (fact okI stepI)+
  then show thesis using that by (auto simp: I_def)
qed

lemma client_pump_rests:
  assumes E: "driver_env D iter W M w k"
  shows "dialing M d \<Longrightarrow> client_phase False (ep_events (cd_core d)) d \<Longrightarrow>
    \<exists>b d'. client_pump D iter clk d = Some (b, d') \<and> dialing M d' \<and> quiescent (cd_core d') \<and> client_balance d' = client_balance d
      \<and> client_aside d' = client_aside d
      \<and> (if b then waiting (cd_parked d') = {#} \<and> \<not> cd_connected d' else client_phase False (ep_events (cd_core d')) d')"
proof (induction "client_effort w k d" arbitrary: clk d rule: less_induct)
  case less
  obtain p1 l1 d1 where 1: "client_drain_events D (False, False, d) = Some (p1, l1, d1)" "dialing M d1" "ep_events (cd_core d1) = []"
    "client_phase l1 [] d1" "client_balance d1 = client_balance d" "client_aside d1 = client_aside d"
    "if p1 = False \<and> d1 = d then True else p1 \<and> client_effort w k d1 < client_effort w k d"
    using client_drain_rests [OF E less.prems, of False] by blast
  obtain ts ep' where 2: "flush D iter (clk 0) (cd_core d1) [] = Some (ts, ep')" "dialing M (d1\<lparr>cd_core := ep'\<rparr>)" "quiescent ep'"
    "config ep' = config (cd_core d1)" "pot w ep' + length ts \<le> pot w (cd_core d1)"
    "cd_handle d1 \<in> live (cd_core d1) \<union> lost_in (ep_events (cd_core d1)) \<Longrightarrow> cd_handle d1 \<in> live ep' \<union> lost_in (ep_events ep')"
    using client_flush_rests [OF E 1(2), of "clk 0"] by blast
  define d2 where "d2 = client_emit (map send_to ts) (d1\<lparr>cd_core := ep'\<rparr>)"
  have st: "client_pump D iter clk d = (if l1 then Some (True, d2) else if \<not> p1 \<and> ts = [] then Some (False, d2)
      else client_pump D iter (\<lambda>n. clk (Suc n)) d2)"
    using 1(1) 2(1) by (subst client_pump.simps) (simp add: d2_def)
  have g2: "dialing M d2" "client_balance d2 = client_balance d" "client_aside d2 = client_aside d" "cd_core d2 = ep'"
    "client_effort w k d2 + length ts \<le> client_effort w k d1"
    using 1(5,6) 2(2,4,5)
    by (simp_all add: d2_def dialing_def client_ok_def client_story_def client_balance_def client_aside_def client_effort_def config_def)
  show ?case
  proof (cases l1)
    case True
    with 1(4) have "waiting (cd_parked d2) = {#}" "\<not> cd_connected d2" by (simp_all add: client_phase_def d2_def)
    with st True g2 2(3) show ?thesis by auto
  next
    case False
    have ph: "client_phase False (ep_events (cd_core d2)) d2"
      using 1(3,4) 2(6) False by (simp add: client_phase_def d2_def)
    show ?thesis
    proof (cases "\<not> p1 \<and> ts = []")
      case True
      with st False g2 2(3) ph show ?thesis by auto
    next
      case n: False
      have lt: "client_effort w k d2 < client_effort w k d"
        using n 1(7) g2(5) by (cases ts) (auto split: if_splits)
      from less.hyps [OF lt g2(1) ph, of "\<lambda>n. clk (Suc n)"] st False n g2 show ?thesis by auto
    qed
  qed
qed

end
