(* ===== verification/ClientRun.thy ===== *)
theory ClientRun
  imports ClientInv
begin

text \<open>
  What holds along every run of the client's driver, and what \<open>connect\<close> returns.
\<close>

section \<open>Runs of the driver\<close>

definition client_inv :: "('e \<Rightarrow> cid set) \<Rightarrow> ('c, 'e) client_driver \<Rightarrow> bool" where
  "client_inv M d \<longleftrightarrow> client_ok M d
     \<and> (if cd_running d then client_story (ep_events (cd_core d)) d \<and> client_phase False (ep_events (cd_core d)) d
        else waiting (cd_parked d) = {#} \<and> cd_cmds d = [] \<and> \<not> cd_connected d)"

lemma client_inv_running:
  "client_inv M d \<Longrightarrow> cd_running d \<Longrightarrow> dialing M d \<and> client_phase False (ep_events (cd_core d)) d"
  by (simp add: client_inv_def dialing_def)

lemma client_drop_inv:
  assumes "client_ok M d"
  shows "client_inv M (client_drop d)" "client_balance (client_drop d) = client_balance d"
    "\<not> cd_running (client_drop d)" "cd_core (client_drop d) = cd_core d" "cd_handle (client_drop d) = cd_handle d"
proof -
  define d1 where "d1 = client_emit (map Answer (map SenderDropped (parked_senders (cd_parked d)) @ concat (map (\<lambda>t. dropped_replies (tg_cmd t)) (cd_cmds d))))
         (d\<lparr>cd_parked := parked_new, cd_cmds := [], cd_running := False\<rparr>)"
  have d': "client_drop d = take_connected ReplyDropped d1" by (simp add: client_drop_def d1_def)
  have "client_ok M d1" using assms by (simp add: client_ok_def d1_def)
  then have "client_ok M (client_drop d)" unfolding d' by (rule take_connected_ok) simp_all
  then show "client_inv M (client_drop d)" by (simp add: client_inv_def d' d1_def)
  show "client_balance (client_drop d) = client_balance d"
    using answered_senders [of "cd_parked d"] answered_queued [of "cd_cmds d"] unfolding d'
    by (simp add: client_balance_def d1_def del: map_map)
  show "\<not> cd_running (client_drop d)" "cd_core (client_drop d) = cd_core d" "cd_handle (client_drop d) = cd_handle d"
    by (simp_all add: d' d1_def)
qed

definition client_generations :: "('c, 'e) client_driver \<Rightarrow> nat" where
  "client_generations d = unat (ep_next_generation (cd_core d))"

definition client_achieves :: "('e \<Rightarrow> cid set) \<Rightarrow> ('c, 'e) client_driver \<Rightarrow> reply multiset \<Rightarrow> ('c, 'e) client_driver \<Rightarrow> bool" where
  "client_achieves M d R d' \<longleftrightarrow> client_inv M d' \<and> client_balance d' = client_balance d + R \<and> cd_handle d' = cd_handle d
     \<and> client_generations d' \<le> client_generations d + 1"

lemma client_turn_achieves:
  assumes E: "driver_env D iter W M w k" and g: "dialing M d1" "client_phase False (ep_events (cd_core d1)) d1" "cd_running d1"
    and b: "client_balance d1 = client_balance d" "client_generations d1 \<le> client_generations d + 1" "cd_handle d1 = cd_handle d"
  shows "\<exists>d'. client_turn D iter clk d1 = Some d' \<and> client_achieves M d {#} d'"
proof -
  obtain brk d' where p: "client_pump D iter clk d1 = Some (brk, d')" "dialing M d'" "client_balance d' = client_balance d1"
      "client_aside d' = client_aside d1"
      "if brk then waiting (cd_parked d') = {#} \<and> \<not> cd_connected d' else client_phase False (ep_events (cd_core d')) d'"
    using client_pump_rests [OF E g(1,2)] by blast
  have s: "cd_handle d' = cd_handle d" "cd_running d'" "client_generations d' \<le> client_generations d + 1"
    using p(4) b g(3) by (simp_all add: client_aside_def client_generations_def)
  have ok: "client_ok M d'" using p(2) by (simp add: dialing_def)
  show ?thesis
  proof (cases brk)
    case True
    with client_drop_inv [OF ok] p(1,3) b s show ?thesis by (simp add: client_turn_def client_achieves_def client_generations_def)
  next
    case False
    then have "client_inv M d'" using p(2,5) s(2) by (simp add: client_inv_def dialing_def)
    with False p(1,3) b s show ?thesis by (simp add: client_turn_def client_achieves_def)
  qed
qed

text \<open>The reply senders an operation brings in: those of a command that finds room in the channel of a running driver.\<close>

fun client_brings :: "('c, 'e) client_driver \<Rightarrow> client_op \<Rightarrow> reply multiset" where
  "client_brings d (ClientAppSend t) = (if cd_running d \<and> length (cd_cmds d) < CMD_CHANNEL_CAP then cmd_replies (tg_cmd t) else {#})"
| "client_brings d _ = {#}"

definition client_step ::
  "('c, 'v, 'n, 'e, 'i) deps \<Rightarrow> order \<Rightarrow> ('c, 'e) client_driver \<Rightarrow> client_op \<Rightarrow> (reply multiset \<times> ('c, 'e) client_driver) option" where
  "client_step D iter d op = map_option (Pair (client_brings d op)) (client_exec D iter d op)"

lemma client_command_reacts:
  assumes E: "driver_env D iter W M w k" and ok: "client_ok M d"
  shows "\<exists>d'. client_on_command D now t d = Some d' \<and> client_ok M d' \<and> client_balance d' = client_balance d + cmd_replies (tg_cmd t)
    \<and> client_base d' = client_base d"
proof (cases "tg_handle t = cd_handle d")
  case True
  have "behaves (cmd_replies (tg_cmd t)) (apply_cmd D now (tg_cmd t))" by (rule stream_reactions_behave(9) [OF E])
  with True with_own_reacts [OF ok _ answered_dropped] show ?thesis unfolding client_on_command_def by fastforce
next
  case False
  with ok show ?thesis by (simp add: client_on_command_def client_ok_def client_balance_def client_base_def client_aside_def)
qed

lemma client_exec_achieves:
  assumes E: "driver_env D iter W M w k" and i: "client_inv M d" and ng: "ep_next_generation (cd_core d) \<noteq> - 1"
  shows "\<exists>d'. client_exec D iter d op = Some d' \<and> client_achieves M d (client_brings d op) d'"
proof -
  note e = driver_envD [OF E]
  have ok: "client_ok M d" "endpoint_ok M (cd_core d)" "ep_role (cd_core d) = RoleClient" using i by (simp_all add: client_inv_def client_ok_def)
  have idle: "client_achieves M d {#} d" using i by (simp add: client_achieves_def)
  have turn: "\<exists>d'. client_turn D iter clk (d\<lparr>cd_core := ep'\<rparr>) = Some d' \<and> client_achieves M d {#} d'"
    if r: "cd_running d" and ep: "endpoint_ok M ep'" "advances (cd_core d) ep'" "moves (live (cd_core d)) (cd_core d) ep'" for ep' clk
  proof (rule client_turn_achieves [OF E])
    have g: "dialing M d" "client_phase False (ep_events (cd_core d)) d" using client_inv_running [OF i r] by simp_all
    show "dialing M (d\<lparr>cd_core := ep'\<rparr>)" by (rule dialing_moves(1) [OF g(1) ep])
    show "client_phase False (ep_events (cd_core (d\<lparr>cd_core := ep'\<rparr>))) (d\<lparr>cd_core := ep'\<rparr>)"
      using dialing_moves(2) [OF g(1) ep] g(2) by (simp add: client_phase_def)
  qed (use r ep in \<open>simp_all add: client_balance_def client_generations_def advances_def\<close>)
  show ?thesis
  proof (cases op)
    case (ClientLoops clk)
    show ?thesis
    proof (cases "cd_running d")
      case True
      with client_turn_achieves [OF E, of d d clk] client_inv_running [OF i True] ClientLoops show ?thesis by simp
    qed (use ClientLoops idle in simp)
  next
    case (ClientRecv clock now "from" data clk)
    show ?thesis
    proof (cases "cd_running d")
      case True
      obtain out ep' where "handle_datagram D iter clock now from (take MAX_DATAGRAM data) (cd_core d) = Some (out, ep')"
        "endpoint_ok M ep'" "advances (cd_core d) ep'" "moves (live (cd_core d)) (cd_core d) ep'"
        using handle_datagram_moves [OF e(1) ok(2) ng, of clock now "from" "take MAX_DATAGRAM data"] ok(3) by auto
      with turn [OF True] ClientRecv True show ?thesis by simp
    qed (use ClientRecv idle in simp)
  next
    case (ClientTimer armed now clk)
    show ?thesis
    proof (cases "cd_running d \<and> client_deadline armed d \<le> now")
      case True
      obtain ep' where "handle_timeout D iter now (cd_core d) = Some ep'" "endpoint_ok M ep'" "advances (cd_core d) ep'"
        "moves (live (cd_core d)) (cd_core d) ep'"
        using handle_timeout_moves [OF e(1) ok(2), of now] by blast
      with turn ClientTimer True show ?thesis by simp
    qed (use ClientTimer idle in auto)
  next
    case (ClientNextCommand now clk)
    show ?thesis
    proof (cases "cd_cmds d")
      case (Cons t ts)
      let ?d = "d\<lparr>cd_cmds := ts\<rparr>"
      have r: "cd_running d" using i Cons by (auto simp: client_inv_def split: if_splits)
      have "client_ok M ?d" using ok(1) by (simp add: client_ok_def)
      then obtain d1 where d1: "client_on_command D now t ?d = Some d1" "client_ok M d1"
          "client_balance d1 = client_balance ?d + cmd_replies (tg_cmd t)" "client_base d1 = client_base ?d"
        using client_command_reacts [OF E] by blast
      have f: "live (cd_core d1) = live (cd_core d)" "ep_events (cd_core d1) = ep_events (cd_core d)" "cd_handle d1 = cd_handle d"
        "cd_running d1" "client_generations d1 = client_generations d"
        using d1(4) r by (simp_all add: client_base_def client_aside_def client_generations_def)
      have g: "client_story (ep_events (cd_core d)) d" "client_phase False (ep_events (cd_core d)) d"
        using i r by (simp_all add: client_inv_def)
      have "dialing M d1" "client_phase False (ep_events (cd_core d1)) d1"
        using d1(2) g by (simp_all add: dialing_def client_story_def client_phase_def f)
      moreover have "client_balance d1 = client_balance d" using d1(3) Cons by (simp add: client_balance_def ac_simps)
      ultimately have "\<exists>d'. client_turn D iter clk d1 = Some d' \<and> client_achieves M d {#} d'"
        using f by (intro client_turn_achieves [OF E]) simp_all
      with d1(1) Cons ClientNextCommand show ?thesis by simp
    qed (use ClientNextCommand idle in simp)
  next
    case (ClientAppSend t)
    show ?thesis
    proof (cases "cd_running d \<and> length (cd_cmds d) < CMD_CHANNEL_CAP")
      case True
      let ?d = "d\<lparr>cd_cmds := cd_cmds d @ [t]\<rparr>"
      have "client_inv M ?d" using i True by (simp add: client_inv_def client_ok_def client_story_def client_phase_def)
      moreover have "client_balance ?d = client_balance d + cmd_replies (tg_cmd t)" by (simp add: client_balance_def)
      ultimately show ?thesis using ClientAppSend True by (simp add: client_achieves_def client_generations_def)
    qed (use ClientAppSend idle in auto)
  next
    case ClientAbort
    with client_drop_inv [OF ok(1)] idle show ?thesis by (simp add: client_achieves_def client_generations_def)
  qed
qed

lemma client_run:
  assumes E: "driver_env D iter W M w k"
  shows "client_inv M d \<Longrightarrow> client_generations d + length ops < 2 ^ 64 \<Longrightarrow>
    \<exists>ins d'. run_opt (client_step D iter) d ops = Some (ins, d') \<and> length ins = length ops \<and> client_inv M d'
      \<and> client_balance d' = client_balance d + sum_list ins \<and> cd_handle d' = cd_handle d"
proof (induction ops arbitrary: d)
  case (Cons op ops)
  have "ep_next_generation (cd_core d) \<noteq> - 1"
    using Cons.prems(2) by (auto simp: client_generations_def unsigned_minus_1_eq_mask mask_eq_exp_minus_1)
  then obtain d1 where 1: "client_exec D iter d op = Some d1" "client_achieves M d (client_brings d op) d1"
    using client_exec_achieves [OF E Cons.prems(1)] by blast
  then have a: "client_inv M d1" "client_generations d1 + length ops < 2 ^ 64" "client_balance d1 = client_balance d + client_brings d op"
    "cd_handle d1 = cd_handle d"
    using Cons.prems(2) by (simp_all add: client_achieves_def)
  from Cons.IH [OF a(1,2)] obtain ins d' where 2: "run_opt (client_step D iter) d1 ops = Some (ins, d')"
    "length ins = length ops" "client_inv M d'" "client_balance d' = client_balance d1 + sum_list ins" "cd_handle d' = cd_handle d1"
    by blast
  have "client_step D iter d op = Some (client_brings d op, d1)" using 1(1) by (simp add: client_step_def)
  with 2 a(3,4) show ?case by (simp add: add.assoc)
qed simp

lemma new_client_inv:
  assumes Q: "quinn_ok D iter W M" and n: "new_client D inner None nonce now minute cfg = Some (Inr (core, handle))"
  shows "client_inv M (client_new core handle)" "client_balance (client_new core handle) = {#}"
    "client_generations (client_new core handle) = 2"
proof -
  have c: "endpoint_ok M core" "handles core = [handle]" "ep_events core = []" "ep_role core = RoleClient" "ep_next_generation core = 2"
    using new_client_ok [OF Q n] by simp_all
  have "live core = {handle}" using c(2) by (simp add: live_def flip: set_map)
  with c show "client_inv M (client_new core handle)" "client_balance (client_new core handle) = {#}"
    "client_generations (client_new core handle) = 2"
    by (simp_all add: client_inv_def client_ok_def client_story_def client_phase_def client_new_def client_balance_def client_generations_def)
qed

lemma client_step_exec:
  "run_opt (client_step D iter) d ops = Some (ins, d') \<Longrightarrow>
    \<exists>us. run_opt (\<lambda>d op. map_option (Pair ()) (client_exec D iter d op)) d ops = Some (us, d')"
  by (induction ops arbitrary: d ins) (auto simp: client_step_def bind_eq_Some_conv)

text \<open>How \<open>connect\<close> ends before it has dialled, and after.\<close>

lemma connect_refused:
  assumes "\<nexists>addr core handle. bind_addr fmt cfg = Inr addr \<and> bound addr = None
      \<and> new_client D inner crypto_err nonce now minute cfg = Some (Inr (core, handle))"
  shows "\<exists>e. connect_with_timeout D iter fmt bound inner crypto_err nonce now minute cfg ops = Some (Inl e, None) \<and> e \<in> range ClientIo"
proof (cases "bind_addr fmt cfg")
  case (Inl e)
  then have "e \<in> range ClientIo" by (auto simp: bind_addr_def split: option.splits if_splits)
  with Inl show ?thesis by (simp add: connect_with_timeout_def)
next
  case b: (Inr addr)
  have ce: "client_error_of e \<in> range ClientIo" for e by (cases e) simp_all
  show ?thesis
  proof (cases "bound addr")
    case None
    obtain r where "new_client D inner crypto_err nonce now minute cfg = Some r" using new_client_returns [of D inner crypto_err nonce now minute cfg] by blast
    with assms b None ce show ?thesis by (cases r) (auto simp: connect_with_timeout_def)
  qed (use b in \<open>simp add: connect_with_timeout_def\<close>)
qed

lemma connect_dialled:
  assumes E: "driver_env D iter W M w k" and len: "length ops < 2 ^ 64 - 2" and b: "bind_addr fmt cfg = Inr addr" "bound addr = None"
    and n: "new_client D inner crypto_err nonce now minute cfg = Some (Inr (core, handle))"
  shows "\<exists>r d. connect_with_timeout D iter fmt bound inner crypto_err nonce now minute cfg ops = Some (r, Some d)
    \<and> (\<forall>c. r = Inr c \<longrightarrow> cn_client_id c = None \<and> cn_handle c = handle)
    \<and> (\<forall>e. r = Inl e \<longrightarrow> e \<in> {ClientHandshakeIncomplete, ClientTimedOut}) \<and> (r = Inl ClientTimedOut \<longrightarrow> \<not> cd_running d)"
proof -
  have ne: "crypto_err = None" using n by (cases crypto_err) (simp_all add: new_client_def)
  note i = new_client_inv [OF driver_envD(1) [OF E] n [unfolded ne]]
  obtain ins d where r: "run_opt (client_step D iter) (client_new core handle) ops = Some (ins, d)" "client_inv M d" "cd_handle d = handle"
    using client_run [OF E i(1), of ops] i(2,3) len by (auto simp: client_new_def)
  then obtain us where u: "run_opt (\<lambda>d op. map_option (Pair ()) (client_exec D iter d op)) (client_new core handle) ops = Some (us, d)"
    using client_step_exec by blast
  have ok: "client_ok M d" using r(2) by (simp add: client_inv_def)
  have nt: "\<not> cd_running (client_drop d)" by (rule client_drop_inv(3) [OF ok])
  show ?thesis
  proof (cases "cd_replies d")
    case Nil
    with b n u nt show ?thesis by (simp add: connect_with_timeout_def)
  next
    case (Cons x xs)
    show ?thesis
    proof (cases x)
      case (Replied res)
      with Cons ok r(3) have "case res of Inl e \<Rightarrow> e = ClientHandshakeIncomplete | Inr c \<Rightarrow> cn_handle c = handle \<and> cn_client_id c = None"
        by (auto simp: client_ok_def split: sum.splits)
      with b n u Cons Replied show ?thesis by (cases res) (auto simp: connect_with_timeout_def)
    qed (use b n u Cons in \<open>simp add: connect_with_timeout_def\<close>)
  qed
qed

section \<open>Properties\<close>

text \<open>
  C15. The client's driver never stalls, tells \<open>connect\<close> its outcome exactly once and leaves no handle
  waiting: from a fresh dial, over any sequence of loop turns, datagrams, timers, commands and an abort
  (fewer than the generation counter can number), every step returns; the senders brought in by commands
  are exactly those answered or dropped, parked or queued; while the driver runs, its connection is live
  or its loss is queued; the sender of \<open>connect\<close> is used at most once, and once the driver has ended it
  has been used and every other sender has been answered or dropped.
\<close>

theorem client_driver_settles_everyone:
  assumes E: "driver_env D iter W M w k" and n: "new_client D inner None nonce now minute cfg = Some (Inr (core, handle))"
    and len: "length ops < 2 ^ 64 - 2"
  shows "\<exists>ins d. run_opt (client_step D iter) (client_new core handle) ops = Some (ins, d) \<and> length ins = length ops
    \<and> answered (answers (cd_log d)) + waiting (cd_parked d) + (\<Sum>t\<in>#mset (cd_cmds d). cmd_replies (tg_cmd t)) = sum_list ins
    \<and> (if cd_running d
        then (conn_mut (cd_core d) handle \<noteq> None \<or> (\<exists>r. ConnectionLost handle r \<in> set (ep_events (cd_core d))))
          \<and> length (cd_replies d) \<le> 1
        else answered (answers (cd_log d)) = sum_list ins \<and> length (cd_replies d) = 1)"
proof -
  note i = new_client_inv [OF driver_envD(1) [OF E] n]
  obtain ins d where r: "run_opt (client_step D iter) (client_new core handle) ops = Some (ins, d)" "length ins = length ops"
    "client_inv M d" "client_balance d = sum_list ins" "cd_handle d = handle"
    using client_run [OF E i(1), of ops] i(2,3) len by (auto simp: client_new_def)
  have l: "length (cd_replies d) + (if cd_connected d then 1 else 0) = 1" using r(3) by (simp add: client_inv_def client_ok_def)
  show ?thesis
  proof (cases "cd_running d")
    case True
    then have "handle \<in> live (cd_core d) \<union> lost_in (ep_events (cd_core d))" using r(3,5) by (simp add: client_inv_def client_phase_def)
    then have "conn_mut (cd_core d) handle \<noteq> None \<or> (\<exists>r. ConnectionLost handle r \<in> set (ep_events (cd_core d)))"
      unfolding live_conn_mut [symmetric] lost_in_def by blast
    with True r l show ?thesis by (auto simp: client_balance_def)
  next
    case False
    with r l show ?thesis by (auto simp: client_balance_def client_inv_def)
  qed
qed

text \<open>Witness: the sample client dials, queues a command, is polled and aborted.\<close>

theorem client_driver_settles_everyone_witness:
  "\<exists>core handle ins d. new_client sample_deps 0 None sample_nonce 0 0 sample_client = Some (Inr (core, handle))
    \<and> run_opt (client_step sample_deps (\<lambda>hs. hs)) (client_new core handle)
        [ClientAppSend \<lparr>tg_handle = handle, tg_cmd = AcceptBi 5\<rparr>, ClientLoops (\<lambda>n. n), ClientAbort] = Some (ins, d)
    \<and> length ins = 3 \<and> length (cd_replies d) \<le> 1"
proof -
  obtain core handle where n: "new_client sample_deps 0 None sample_nonce 0 0 sample_client = Some (Inr (core, handle))"
    using sample_dials by blast
  from client_driver_settles_everyone [OF sample_driver_env n, of "[ClientAppSend \<lparr>tg_handle = handle, tg_cmd = AcceptBi 5\<rparr>, ClientLoops (\<lambda>n. n), ClientAbort]"]
  obtain ins d where "run_opt (client_step sample_deps (\<lambda>hs. hs)) (client_new core handle)
        [ClientAppSend \<lparr>tg_handle = handle, tg_cmd = AcceptBi 5\<rparr>, ClientLoops (\<lambda>n. n), ClientAbort] = Some (ins, d)"
      "length ins = 3" "length (cd_replies d) \<le> 1"
    by (auto split: if_splits)
  with n show ?thesis by blast
qed

text \<open>
  C16. What \<open>connect\<close> returns: it always returns; a connection it returns is the one it dialled, with no
  client identity; an error is an I/O error, an incomplete handshake or a timeout, and never
  \<open>ConnectionLost\<close>, \<open>Tls\<close> or \<open>Connect\<close>; when it times out the driver has been torn down. And the address it
  binds is of the server's family.
\<close>

theorem connect_outcome:
  assumes E: "driver_env D iter W M w k" and len: "length ops < 2 ^ 64 - 2"
  shows "\<exists>r d. connect_with_timeout D iter fmt bound inner crypto_err nonce now minute cfg ops = Some (r, d)
    \<and> (\<forall>c. r = Inr c \<longrightarrow> cn_client_id c = None \<and> (\<exists>core. new_client D inner crypto_err nonce now minute cfg = Some (Inr (core, cn_handle c))))
    \<and> (\<forall>e. r = Inl e \<longrightarrow> e \<in> range ClientIo \<union> {ClientHandshakeIncomplete, ClientTimedOut})
    \<and> (r = Inl ClientTimedOut \<longrightarrow> (\<exists>d'. d = Some d' \<and> \<not> cd_running d'))
    \<and> (\<forall>addr. bind_addr fmt cfg = Inr addr \<longrightarrow> is_ipv4 addr = is_ipv4 (cf_server cfg))"
proof -
  have fam: "is_ipv4 addr = is_ipv4 (cf_server cfg)" if "bind_addr fmt cfg = Inr addr" for addr
    using that by (auto simp: bind_addr_def split: option.splits if_splits)
  show ?thesis
  proof (cases "\<exists>addr core handle. bind_addr fmt cfg = Inr addr \<and> bound addr = None
      \<and> new_client D inner crypto_err nonce now minute cfg = Some (Inr (core, handle))")
    case False
    then obtain e where e: "connect_with_timeout D iter fmt bound inner crypto_err nonce now minute cfg ops = Some (Inl e, None)" "e \<in> range ClientIo"
      using connect_refused [of fmt cfg bound D inner crypto_err nonce now minute iter ops] by blast
    then show ?thesis using fam by (intro exI [of _ "Inl e"] exI [of _ None]) auto
  next
    case True
    then obtain addr core handle where b: "bind_addr fmt cfg = Inr addr" "bound addr = None"
      and n: "new_client D inner crypto_err nonce now minute cfg = Some (Inr (core, handle))" by blast
    obtain r d where "connect_with_timeout D iter fmt bound inner crypto_err nonce now minute cfg ops = Some (r, Some d)"
      "\<forall>c. r = Inr c \<longrightarrow> cn_client_id c = None \<and> cn_handle c = handle"
      "\<forall>e. r = Inl e \<longrightarrow> e \<in> {ClientHandshakeIncomplete, ClientTimedOut}" "r = Inl ClientTimedOut \<longrightarrow> \<not> cd_running d"
      using connect_dialled [OF E len b(1) _ n, of bound] b(2) by blast
    with n fam show ?thesis by (intro exI [of _ r] exI [of _ "Some d"]) auto
  qed
qed

text \<open>Witness: the sample client times out.\<close>

theorem connect_outcome_witness:
  "\<exists>r d. connect_with_timeout sample_deps (\<lambda>hs. hs) (\<lambda>_. []) (\<lambda>_. None) 0 None sample_nonce 0 0 sample_client [ClientLoops (\<lambda>n. n)] = Some (r, d)
    \<and> (\<forall>e. r = Inl e \<longrightarrow> e \<in> range ClientIo \<union> {ClientHandshakeIncomplete, ClientTimedOut})"
  using connect_outcome [OF sample_driver_env, of "[ClientLoops (\<lambda>n. n)]" "\<lambda>_. []" "\<lambda>_. None" 0 None sample_nonce 0 0 sample_client] by auto

end
