(* ===== verification/World.thy ===== *)
theory World
  imports DriverKinds ServerRun ClientRun
begin

text \<open>
  An application and a driver together: any number of tasks, each running a handle call or a program made of several, beside the
  event loop of the server or the client. Tasks are polled, cancelled and started in any order, and the
  driver moves in between.
\<close>

section \<open>Hosts\<close>

text \<open>What an application sees of a driver: its moves, its command channel, whether its task still runs, its log.\<close>

record ('d, 'op) host =
  h_exec :: "'d \<Rightarrow> 'op \<Rightarrow> 'd option"
  h_queue :: "'d \<Rightarrow> tagged list"
  h_set_queue :: "tagged list \<Rightarrow> 'd \<Rightarrow> 'd"
  h_running :: "'d \<Rightarrow> bool"
  h_log :: "'d \<Rightarrow> effect list"

text \<open>
  The server: its driver, and whether the \<open>Server\<close> is still held. Commands come from the tasks, so an
  \<open>AppSend\<close> is not a move of the host.
\<close>

datatype server_move = ServerOp driver_op | ServerDropped

fun server_moves ::
  "('c, 'v, 'n, 'e, 'i) deps \<Rightarrow> order \<Rightarrow> ('c, 'e) driver \<times> bool \<Rightarrow> server_move \<Rightarrow> (('c, 'e) driver \<times> bool) option" where
  "server_moves D iter (d, False) m = Some (d, False)"
| "server_moves D iter (d, True) ServerDropped = Some (driver_drop d, False)"
| "server_moves D iter (d, True) (ServerOp (AppSend t)) = Some (d, True)"
| "server_moves D iter (d, True) (ServerOp op) = map_option (\<lambda>d'. (d', True)) (driver_exec D iter d op)"

definition server_host :: "('c, 'v, 'n, 'e, 'i) deps \<Rightarrow> order \<Rightarrow> (('c, 'e) driver \<times> bool, server_move) host" where
  "server_host D iter = \<lparr>h_exec = server_moves D iter, h_queue = (\<lambda>(d, up). dv_cmds d),
     h_set_queue = (\<lambda>q (d, up). (d\<lparr>dv_cmds := q\<rparr>, up)), h_running = snd, h_log = (\<lambda>(d, up). dv_log d)\<rparr>"

fun client_moves ::
  "('c, 'v, 'n, 'e, 'i) deps \<Rightarrow> order \<Rightarrow> ('c, 'e) client_driver \<Rightarrow> client_op \<Rightarrow> ('c, 'e) client_driver option" where
  "client_moves D iter d (ClientAppSend t) = Some d"
| "client_moves D iter d op = client_exec D iter d op"

definition client_host :: "('c, 'v, 'n, 'e, 'i) deps \<Rightarrow> order \<Rightarrow> (('c, 'e) client_driver, client_op) host" where
  "client_host D iter = \<lparr>h_exec = client_moves D iter, h_queue = cd_cmds, h_set_queue = (\<lambda>q d. d\<lparr>cd_cmds := q\<rparr>),
     h_running = cd_running, h_log = cd_log\<rparr>"

section \<open>Tasks\<close>

text \<open>\<open>None\<close> is a task that was cancelled. Channels are numbered in the order they are created.\<close>

record 'd world =
  w_host :: 'd
  w_next :: reply
  w_tasks :: "handle_value future option list"

datatype 'op world_op =
    HostMoves 'op
  | Spawn program
  | Poll nat
  | Cancel nat
  | DropStream send_stream

text \<open>A host that does not return, and a channel that delivers a value of another type, end a run.\<close>

datatype 'w moved = Moved 'w | Diverged | IllTyped

definition received :: "effect list \<Rightarrow> reply \<Rightarrow> answer option" where
  "received es r = List.find (\<lambda>a. answer_to a = r) (answers es)"

fun poll_future :: "('d, 'op) host \<Rightarrow> 'd world \<Rightarrow> nat \<Rightarrow> handle_value future \<Rightarrow> 'd world moved" where
  "poll_future H w k (Ready v) = Moved w"
| "poll_future H w k (Channel f) = Moved (w\<lparr>w_next := Suc (w_next w), w_tasks := (w_tasks w)[k := Some (f (w_next w))]\<rparr>)"
| "poll_future H w k (Send t f) =
     (if \<not> h_running H (w_host w) then Moved (w\<lparr>w_tasks := (w_tasks w)[k := Some (f False)]\<rparr>)
      else if length (h_queue H (w_host w)) < CMD_CHANNEL_CAP
      then Moved (w\<lparr>w_host := h_set_queue H (h_queue H (w_host w) @ [t]) (w_host w), w_tasks := (w_tasks w)[k := Some (f True)]\<rparr>)
      else Moved w)"
| "poll_future H w k (Await r f) =
     (case received (h_log H (w_host w)) r of
        None \<Rightarrow> Moved w
      | Some a \<Rightarrow> (case f a of None \<Rightarrow> IllTyped | Some m \<Rightarrow> Moved (w\<lparr>w_tasks := (w_tasks w)[k := Some m]\<rparr>)))"

fun world_exec ::
  "('c, 'v, 'n, 'z) quinn_conn_scheme \<Rightarrow> ('d, 'op) host \<Rightarrow> 'd world \<Rightarrow> 'op world_op \<Rightarrow> 'd world moved" where
  "world_exec Q H w (HostMoves op) =
     (case h_exec H (w_host w) op of None \<Rightarrow> Diverged | Some d \<Rightarrow> Moved (w\<lparr>w_host := d\<rparr>))"
| "world_exec Q H w (Spawn p) = Moved (w\<lparr>w_tasks := w_tasks w @ [Some (program_future Q p)]\<rparr>)"
| "world_exec Q H w (Poll k) =
     (if k < length (w_tasks w) then case w_tasks w ! k of None \<Rightarrow> Moved w | Some m \<Rightarrow> poll_future H w k m else Moved w)"
| "world_exec Q H w (Cancel k) = Moved (w\<lparr>w_tasks := (w_tasks w)[k := None]\<rparr>)"
| "world_exec Q H w (DropStream ss) =
     Moved (w\<lparr>w_host := h_set_queue H (send_stream_drop ss (h_queue H (w_host w)) (h_running H (w_host w))) (w_host w)\<rparr>)"

fun world_run ::
  "('c, 'v, 'n, 'z) quinn_conn_scheme \<Rightarrow> ('d, 'op) host \<Rightarrow> 'd world \<Rightarrow> 'op world_op list \<Rightarrow> 'd world moved" where
  "world_run Q H w [] = Moved w"
| "world_run Q H w (op # ops) = (case world_exec Q H w op of Moved w' \<Rightarrow> world_run Q H w' ops | x \<Rightarrow> x)"

definition world_new :: "'d \<Rightarrow> 'd world" where
  "world_new d = \<lparr>w_host = d, w_next = 0, w_tasks = []\<rparr>"

section \<open>Tasks and their channels\<close>

text \<open>
  Every task is at a stage; the channels of different tasks differ; a channel that was created and not
  sent is unknown to the host, one that was sent is in the host's balance \<open>B\<close>, once; and the channels
  below \<open>n\<close> are those that exist.
\<close>

fun stage_replies :: "stage \<Rightarrow> reply set" where
  "stage_replies Idle = {}"
| "stage_replies (Created r k) = {r}"
| "stage_replies (Sent r k) = {r}"

fun stage_ok :: "kinding \<Rightarrow> reply multiset \<Rightarrow> stage \<Rightarrow> bool" where
  "stage_ok K B Idle = True"
| "stage_ok K B (Created r k) = (K r = Some k \<and> r \<notin># B)"
| "stage_ok K B (Sent r k) = (K r = Some k \<and> r \<in># B)"

definition task_ok :: "stage \<Rightarrow> 'a future option \<Rightarrow> bool" where
  "task_ok st m = (case m of None \<Rightarrow> st = Idle | Some f \<Rightarrow> tidy st f)"

definition apart :: "stage list \<Rightarrow> bool" where
  "apart sts \<longleftrightarrow> (\<forall>i<length sts. \<forall>j<length sts. i \<noteq> j \<longrightarrow> stage_replies (sts ! i) \<inter> stage_replies (sts ! j) = {})"

definition staged :: "kinding \<Rightarrow> reply multiset \<Rightarrow> stage list \<Rightarrow> 'a future option list \<Rightarrow> bool" where
  "staged K B sts ts \<longleftrightarrow> length sts = length ts \<and> (\<forall>i<length ts. task_ok (sts ! i) (ts ! i) \<and> stage_ok K B (sts ! i)) \<and> apart sts"

definition tasks_ok :: "kinding \<Rightarrow> reply \<Rightarrow> reply multiset \<Rightarrow> 'a future option list \<Rightarrow> bool" where
  "tasks_ok K n B ts \<longleftrightarrow> (\<exists>sts. staged K B sts ts) \<and> (\<forall>r. K r \<noteq> None \<longleftrightarrow> r < n) \<and> (\<forall>r. count B r \<le> 1) \<and> (\<forall>r\<in>#B. r < n)"

lemma stage_below: "stage_ok K B st \<Longrightarrow> r \<in> stage_replies st \<Longrightarrow> K r \<noteq> None"
  by (cases st) auto

lemma staged_update:
  assumes s: "staged K B sts ts" and k: "k < length ts" and m: "task_ok st m" "stage_ok K' B' st"
    and others: "\<And>j. j < length ts \<Longrightarrow> j \<noteq> k \<Longrightarrow> stage_ok K' B' (sts ! j) \<and> stage_replies st \<inter> stage_replies (sts ! j) = {}"
  shows "staged K' B' (sts[k := st]) (ts[k := m])"
proof -
  have l: "length sts = length ts" using s by (simp add: staged_def)
  have "stage_replies (sts[k := st] ! i) \<inter> stage_replies (sts[k := st] ! j) = {}" if "i < length ts" "j < length ts" "i \<noteq> j" for i j
    using that others [of i] others [of j] s l k by (auto simp: staged_def apart_def nth_list_update)
  moreover have "task_ok (sts[k := st] ! i) (ts[k := m] ! i) \<and> stage_ok K' B' (sts[k := st] ! i)" if "i < length ts" for i
    using that others [of i] m s l k by (auto simp: staged_def nth_list_update)
  ultimately show ?thesis using l by (simp add: staged_def apart_def)
qed

text \<open>A task that gives up its channel, if it has one.\<close>

lemma staged_idle:
  assumes "staged K B sts ts" "k < length ts" "task_ok Idle m"
  shows "staged K B (sts[k := Idle]) (ts[k := m])"
  using assms by (intro staged_update) (auto simp: staged_def)

lemma tasks_idle:
  assumes "tasks_ok K n B ts" "task_ok Idle m"
  shows "tasks_ok K n B (ts[k := m])"
proof (cases "k < length ts")
  case True
  with assms staged_idle [of K B _ ts k m] show ?thesis by (auto simp: tasks_ok_def)
next
  case False
  with assms(1) show ?thesis by (simp add: list_update_beyond)
qed

lemma tasks_spawn:
  assumes "tasks_ok K n B ts" "tidy Idle f"
  shows "tasks_ok K n B (ts @ [Some f])"
proof -
  obtain sts where s: "staged K B sts ts" using assms(1) by (auto simp: tasks_ok_def)
  then have "staged K B (sts @ [Idle]) (ts @ [Some f])"
    using assms(2) by (auto simp: staged_def apart_def nth_append task_ok_def less_Suc_eq)
  with assms(1) show ?thesis by (auto simp: tasks_ok_def)
qed

lemma tasks_stage:
  assumes "tasks_ok K n B ts" "k < length ts" "ts ! k = Some f"
  obtains sts where "staged K B sts ts" "tidy (sts ! k) f" "stage_ok K B (sts ! k)"
proof -
  obtain sts where s: "staged K B sts ts" using assms(1) by (auto simp: tasks_ok_def)
  then have "task_ok (sts ! k) (ts ! k)" "stage_ok K B (sts ! k)" using assms(2) by (auto simp: staged_def)
  with s assms(3) that show thesis by (auto simp: task_ok_def)
qed

lemma tasks_channel:
  assumes t: "tasks_ok K n B ts" and k: "k < length ts" "ts ! k = Some (Channel f)"
  shows "\<exists>kd. tasks_ok (K(n \<mapsto> kd)) (Suc n) B (ts[k := Some (f n)]) \<and> K \<subseteq>\<^sub>m K(n \<mapsto> kd)"
proof -
  obtain sts where s: "staged K B sts ts" "tidy (sts ! k) (Channel f)" using tasks_stage [OF t k] by blast
  then obtain kd where kd: "tidy (Created n kd) (f n)" by (auto elim: tidy_ChannelE)
  have dom: "K r \<noteq> None \<longleftrightarrow> r < n" "r \<in># B \<Longrightarrow> r < n" for r using t by (auto simp: tasks_ok_def)
  have "stage_ok (K(n \<mapsto> kd)) B (sts ! j) \<and> stage_replies (Created n kd) \<inter> stage_replies (sts ! j) = {}" if "j < length ts" for j
  proof -
    have so: "stage_ok K B (sts ! j)" using s(1) that by (simp add: staged_def)
    then have "n \<notin> stage_replies (sts ! j)" using stage_below [OF so] dom by blast
    with so show ?thesis by (cases "sts ! j") auto
  qed
  moreover have "stage_ok (K(n \<mapsto> kd)) B (Created n kd)" using dom by auto
  ultimately have "staged (K(n \<mapsto> kd)) B (sts[k := Created n kd]) (ts[k := Some (f n)])"
    using kd by (intro staged_update [OF s(1) k(1)]) (simp_all add: task_ok_def)
  moreover have "K \<subseteq>\<^sub>m K(n \<mapsto> kd)" using dom(1) [of n] by (auto simp: map_le_def)
  ultimately show ?thesis using t dom by (intro exI [of _ kd]) (auto simp: tasks_ok_def less_Suc_eq)
qed

lemma tasks_send:
  assumes t: "tasks_ok K n B ts" and k: "k < length ts" "ts ! k = Some (Send c f)"
  shows "tasks_ok K n B (ts[k := Some (f False)])"
    and "cmd_kinded K (tg_cmd c) \<and> tasks_ok K n (B + cmd_replies (tg_cmd c)) (ts[k := Some (f True)])"
proof -
  obtain sts where s: "staged K B sts ts" "tidy (sts ! k) (Send c f)" "stage_ok K B (sts ! k)" using tasks_stage [OF t k] by blast
  then have "tidy Idle (f False)" by (auto elim: tidy_SendE)
  then show "tasks_ok K n B (ts[k := Some (f False)])" using tasks_idle [OF t] by (simp add: task_ok_def)
  consider r kd where "sts ! k = Created r kd" "cmd_kind (tg_cmd c) = Some (r, kd)" "tidy (Sent r kd) (f True)"
    | "cmd_kind (tg_cmd c) = None" "tidy Idle (f True)" using s(2) by (auto elim!: tidy_SendE)
  then show "cmd_kinded K (tg_cmd c) \<and> tasks_ok K n (B + cmd_replies (tg_cmd c)) (ts[k := Some (f True)])"
  proof cases
    case (1 r kd)
    then have r: "K r = Some kd" "r \<notin># B" using s(3) by simp_all
    have "r < n" "\<And>x. count B x \<le> 1" using t r(1) by (auto simp: tasks_ok_def)
    have "stage_ok K (B + {#r#}) (sts ! j) \<and> stage_replies (Sent r kd) \<inter> stage_replies (sts ! j) = {}" if "j < length ts" "j \<noteq> k" for j
    proof -
      have "stage_replies (sts ! k) \<inter> stage_replies (sts ! j) = {}" using s(1) k(1) that by (simp add: staged_def apart_def)
      then have "r \<notin> stage_replies (sts ! j)" using 1 by simp
      moreover have "stage_ok K B (sts ! j)" using s(1) that by (simp add: staged_def)
      ultimately show ?thesis by (cases "sts ! j") auto
    qed
    then have "staged K (B + {#r#}) (sts[k := Sent r kd]) (ts[k := Some (f True)])"
      using 1 r by (intro staged_update [OF s(1) k(1)]) (simp_all add: task_ok_def)
    moreover have "count (B + {#r#}) x \<le> 1" for x using r(2) t by (auto simp: tasks_ok_def not_in_iff)
    ultimately have "tasks_ok K n (B + {#r#}) (ts[k := Some (f True)])" using t \<open>r < n\<close> by (auto simp: tasks_ok_def)
    with 1 r show ?thesis by (simp add: cmd_kinded_def cmd_replies_kind)
  next
    case 2
    then have "tasks_ok K n B (ts[k := Some (f True)])" using tasks_idle [OF t] by (simp add: task_ok_def)
    with 2 show ?thesis by (simp add: cmd_kinded_def cmd_replies_kind)
  qed
qed

lemma tasks_await:
  assumes t: "tasks_ok K n B ts" and k: "k < length ts" "ts ! k = Some (Await r f)"
  shows "r \<in># B" and "answer_kinded K a \<Longrightarrow> answer_to a = r \<Longrightarrow> \<exists>m. f a = Some m \<and> tasks_ok K n B (ts[k := Some m])"
proof -
  obtain sts where s: "staged K B sts ts" "tidy (sts ! k) (Await r f)" "stage_ok K B (sts ! k)" using tasks_stage [OF t k] by blast
  from s(2) obtain kd where kd: "sts ! k = Sent r kd"
    "\<And>a. answer_to a = r \<Longrightarrow> answer_fits kd a \<Longrightarrow> \<exists>m. f a = Some m \<and> tidy Idle m" by (auto elim: tidy_AwaitE)
  with s(3) have K: "K r = Some kd" "r \<in># B" by simp_all
  then show "r \<in># B" by simp
  assume "answer_kinded K a" "answer_to a = r"
  with K(1) kd(2) obtain m where "f a = Some m" "tidy Idle m" by (auto simp: answer_kinded_def)
  with tasks_idle [OF t] show "\<exists>m. f a = Some m \<and> tasks_ok K n B (ts[k := Some m])" by (auto simp: task_ok_def)
qed

definition world_ok ::
  "(nat \<Rightarrow> 'd \<Rightarrow> bool) \<Rightarrow> ('d \<Rightarrow> reply multiset) \<Rightarrow> (kinding \<Rightarrow> 'd \<Rightarrow> bool) \<Rightarrow> nat \<Rightarrow> 'd world \<Rightarrow> bool" where
  "world_ok good bal kinded n w \<longleftrightarrow> good n (w_host w)
     \<and> (\<exists>K. kinded K (w_host w) \<and> tasks_ok K (w_next w) (bal (w_host w)) (w_tasks w))"

section \<open>The contract of a host\<close>

text \<open>
  \<open>good n d\<close>: the host is in order and good for \<open>n\<close> more moves; \<open>bal d\<close>: the senders it has been given;
  \<open>kinded K d\<close>: all it was given and answered is of the kinds \<open>K\<close>.
\<close>

locale reply_host =
  fixes H :: "('d, 'op) host"
    and good :: "nat \<Rightarrow> 'd \<Rightarrow> bool"
    and bal :: "'d \<Rightarrow> reply multiset"
    and kinded :: "kinding \<Rightarrow> 'd \<Rightarrow> bool"
  assumes moves: "good (Suc n) d \<Longrightarrow> \<exists>d'. h_exec H d op = Some d' \<and> good n d' \<and> bal d' = bal d"
    and moves_kinded: "kinded K d \<Longrightarrow> h_exec H d op = Some d' \<Longrightarrow> kinded K d'"
    and spend: "good (Suc n) d \<Longrightarrow> good n d"
    and takes: "good n d \<Longrightarrow> h_running H d \<Longrightarrow> length (h_queue H d) < CMD_CHANNEL_CAP \<Longrightarrow>
      good n (h_set_queue H (h_queue H d @ [t]) d) \<and> bal (h_set_queue H (h_queue H d @ [t]) d) = bal d + cmd_replies (tg_cmd t)"
    and takes_kinded: "kinded K d \<Longrightarrow> cmd_kinded K (tg_cmd t) \<Longrightarrow> kinded K (h_set_queue H (h_queue H d @ [t]) d)"
    and keeps_queue: "h_set_queue H (h_queue H d) d = d"
    and answered_balance: "answered (answers (h_log H d)) \<subseteq># bal d"
    and gone: "good n d \<Longrightarrow> \<not> h_running H d \<Longrightarrow> answered (answers (h_log H d)) = bal d"
    and answers_kinded: "kinded K d \<Longrightarrow> all_kinded K (answers (h_log H d))"
    and kinds_mono: "K \<subseteq>\<^sub>m K' \<Longrightarrow> kinded K d \<Longrightarrow> kinded K' d"
begin

text \<open>What an application does needs no move of the host, and keeps everything in order.\<close>

lemma poll_keeps:
  assumes ok: "world_ok good bal kinded n w" and k: "k < length (w_tasks w)" "w_tasks w ! k = Some f"
  shows "\<exists>w'. poll_future H w k f = Moved w' \<and> world_ok good bal kinded n w'"
proof -
  obtain K where i: "good n (w_host w)" and K: "kinded K (w_host w)" and t: "tasks_ok K (w_next w) (bal (w_host w)) (w_tasks w)"
    using ok by (auto simp: world_ok_def)
  show ?thesis
  proof (cases f)
    case (Channel g)
    obtain kd where "tasks_ok (K(w_next w \<mapsto> kd)) (Suc (w_next w)) (bal (w_host w)) ((w_tasks w)[k := Some (g (w_next w))])"
      "K \<subseteq>\<^sub>m K(w_next w \<mapsto> kd)"
      using tasks_channel [OF t k(1)] k(2) Channel by blast
    with Channel i kinds_mono [OF _ K] show ?thesis by (auto simp: world_ok_def)
  next
    case (Send c g)
    note s = tasks_send [OF t k [unfolded Send]]
    show ?thesis
    proof (cases "h_running H (w_host w) \<and> length (h_queue H (w_host w)) < CMD_CHANNEL_CAP")
      case True
      with s(2) takes [OF i] takes_kinded [OF K, of c] Send show ?thesis by (auto simp: world_ok_def)
    next
      case False
      with s(1) Send ok i K show ?thesis by (auto simp: world_ok_def)
    qed
  next
    case (Await r g)
    show ?thesis
    proof (cases "received (h_log H (w_host w)) r")
      case (Some a)
      then have a: "a \<in> set (answers (h_log H (w_host w)))" "answer_to a = r" by (auto simp: received_def find_Some_iff)
      then obtain m where "g a = Some m" "tasks_ok K (w_next w) (bal (w_host w)) ((w_tasks w)[k := Some m])"
        using tasks_await(2) [OF t k [unfolded Await]] answers_kinded [OF K] by blast
      with Some Await i K show ?thesis by (auto simp: world_ok_def)
    qed (use Await ok in simp)
  qed (use ok in simp)
qed

lemma exec_keeps:
  assumes ok: "world_ok good bal kinded (Suc n) w"
  shows "\<exists>w'. world_exec Q H w op = Moved w' \<and> world_ok good bal kinded n w'"
proof -
  obtain K where i: "good (Suc n) (w_host w)" and K: "kinded K (w_host w)" and t: "tasks_ok K (w_next w) (bal (w_host w)) (w_tasks w)"
    using ok by (auto simp: world_ok_def)
  have i': "good n (w_host w)" by (rule spend [OF i])
  then have ok': "world_ok good bal kinded n w" using K t by (auto simp: world_ok_def)
  show ?thesis
  proof (cases op)
    case (HostMoves m)
    obtain d where d: "h_exec H (w_host w) m = Some d" "good n d" "bal d = bal (w_host w)" using moves [OF i] by blast
    with HostMoves t moves_kinded [OF K d(1)] show ?thesis by (auto simp: world_ok_def)
  next
    case (Spawn p)
    have "tasks_ok K (w_next w) (bal (w_host w)) (w_tasks w @ [Some (program_future Q p)])" by (rule tasks_spawn [OF t tidy_program])
    with Spawn i' K show ?thesis by (auto simp: world_ok_def)
  next
    case (Poll k)
    show ?thesis
    proof (cases "k < length (w_tasks w) \<and> w_tasks w ! k \<noteq> None")
      case True
      then show ?thesis using Poll poll_keeps [OF ok', of k] by auto
    next
      case False
      with Poll ok' show ?thesis by auto
    qed
  next
    case (Cancel k)
    have "tasks_ok K (w_next w) (bal (w_host w)) ((w_tasks w)[k := None])" using tasks_idle [OF t] by (simp add: task_ok_def)
    with Cancel i' K show ?thesis by (auto simp: world_ok_def)
  next
    case (DropStream ss)
    let ?t = "cmd_tagged (tx_cmds ss) (ReleaseSend (tx_id ss))"
    have c: "cmd_replies (tg_cmd ?t) = {#}" "cmd_kinded K (tg_cmd ?t)" by (simp_all add: cmd_tagged_def cmd_kinded_def)
    show ?thesis
    proof (cases "h_running H (w_host w) \<and> length (h_queue H (w_host w)) < CMD_CHANNEL_CAP")
      case True
      with DropStream takes [OF i', of ?t] takes_kinded [OF K c(2)] c(1) t show ?thesis
        by (auto simp: world_ok_def send_stream_drop_def cmd_try_send_def)
    next
      case False
      with DropStream ok' keeps_queue show ?thesis by (auto simp: send_stream_drop_def cmd_try_send_def)
    qed
  qed
qed

lemma world_run_keeps:
  "world_ok good bal kinded (n + length ops) w \<Longrightarrow> \<exists>w'. world_run Q H w ops = Moved w' \<and> world_ok good bal kinded n w'"
proof (induction ops arbitrary: w)
  case (Cons op ops)
  then obtain w1 where "world_exec Q H w op = Moved w1" "world_ok good bal kinded (n + length ops) w1"
    using exec_keeps [of "n + length ops" w Q op] by auto
  with Cons.IH show ?case by simp
qed simp

text \<open>No channel is answered twice, and a task that waits has its channel with the host.\<close>

lemma world_accounts:
  assumes "world_ok good bal kinded n w"
  shows "distinct (map answer_to (answers (h_log H (w_host w))))"
    and "k < length (w_tasks w) \<Longrightarrow> w_tasks w ! k = Some (Await r f) \<Longrightarrow> count (bal (w_host w)) r = 1"
proof -
  obtain K where i: "good n (w_host w)" and t: "tasks_ok K (w_next w) (bal (w_host w)) (w_tasks w)"
    using assms by (auto simp: world_ok_def)
  then have one: "count (bal (w_host w)) r \<le> 1" for r by (simp add: tasks_ok_def)
  have "count (mset (map answer_to (answers (h_log H (w_host w))))) r \<le> 1" for r
    using answered_balance [of "w_host w"] one [of r] by (metis mset_map mset_subset_eq_count order_trans)
  then show "distinct (map answer_to (answers (h_log H (w_host w))))"
    unfolding distinct_count_atmost_1 by (metis (no_types, lifting) One_nat_def count_greater_zero_iff le_antisym not_gr_zero set_mset_mset Suc_leI)
  assume "k < length (w_tasks w)" "w_tasks w ! k = Some (Await r f)"
  then have "r \<in># bal (w_host w)" by (rule tasks_await(1) [OF t])
  with one [of r] show "count (bal (w_host w)) r = 1" by (simp add: le_antisym Suc_le_eq)
qed

text \<open>Once the host has ended, every task that is polled often enough completes.\<close>

lemma tasks_complete:
  "world_ok good bal kinded n w \<Longrightarrow> \<not> h_running H (w_host w) \<Longrightarrow> k < length (w_tasks w) \<Longrightarrow> w_tasks w ! k = Some f \<Longrightarrow>
    \<exists>m w' v. world_run Q H w (replicate m (Poll k)) = Moved w' \<and> w_tasks w' ! k = Some (Ready v)"
proof (induction f arbitrary: w)
  case (Ready v)
  then show ?case by (intro exI [of _ 0]) simp
next
  case (Channel f)
  let ?w = "w\<lparr>w_next := Suc (w_next w), w_tasks := (w_tasks w)[k := Some (f (w_next w))]\<rparr>"
  have p: "poll_future H w k (Channel f) = Moved ?w" by simp
  have "world_ok good bal kinded n ?w" using poll_keeps [OF Channel.prems(1,3,4)] p by auto
  from Channel.IH [OF rangeI [of f "w_next w"] this] Channel.prems obtain m w' v where
    "world_run Q H ?w (replicate m (Poll k)) = Moved w'" "w_tasks w' ! k = Some (Ready v)" by auto
  then show ?case using Channel.prems p by (intro exI [of _ "Suc m"]) auto
next
  case (Send c f)
  let ?w = "w\<lparr>w_tasks := (w_tasks w)[k := Some (f False)]\<rparr>"
  have p: "poll_future H w k (Send c f) = Moved ?w" using Send.prems(2) by simp
  have "world_ok good bal kinded n ?w" using poll_keeps [OF Send.prems(1,3,4)] p by auto
  from Send.IH [OF rangeI [of f False] this] Send.prems obtain m w' v where
    "world_run Q H ?w (replicate m (Poll k)) = Moved w'" "w_tasks w' ! k = Some (Ready v)" by auto
  then show ?case using Send.prems p by (intro exI [of _ "Suc m"]) auto
next
  case (Await r f)
  have i: "good n (w_host w)" using Await.prems(1) by (auto simp: world_ok_def)
  have "count (bal (w_host w)) r = 1" by (rule world_accounts(2) [OF Await.prems(1,3,4)])
  then have "r \<in># answered (answers (h_log H (w_host w)))"
    using gone [OF i Await.prems(2)] by (metis count_greater_zero_iff zero_less_one)
  then obtain a where a: "received (h_log H (w_host w)) r = Some a"
    by (cases "received (h_log H (w_host w)) r") (auto simp: received_def find_None_iff)
  with poll_keeps [OF Await.prems(1,3,4)] obtain m where m: "f a = Some m" by (cases "f a") auto
  let ?w = "w\<lparr>w_tasks := (w_tasks w)[k := Some m]\<rparr>"
  have p: "poll_future H w k (Await r f) = Moved ?w" using a m by simp
  have "world_ok good bal kinded n ?w" using poll_keeps [OF Await.prems(1,3,4)] p by auto
  from Await.IH [OF rangeI [of f a] _ this] m Await.prems obtain j w' v where
    "world_run Q H ?w (replicate j (Poll k)) = Moved w'" "w_tasks w' ! k = Some (Ready v)"
    by auto
  then show ?case using Await.prems p by (intro exI [of _ "Suc j"]) auto
qed

end

end
