(* ===== verification/Calls.thy ===== *)
theory Calls
  imports World
begin

text \<open>
  Both drivers meet the contract of a host, so every handle call made to a server or a client is typed,
  accounted for and, once the driver has ended, answered.
\<close>

section \<open>The server as a host\<close>

definition server_good ::
  "('c, 'v, 'n, 'e, 'i) deps \<Rightarrow> order \<Rightarrow> 'c conn_weights \<Rightarrow> ('e \<Rightarrow> cid set) \<Rightarrow> ('c \<Rightarrow> nat) \<Rightarrow> nat \<Rightarrow> nat \<Rightarrow> ('c, 'e) driver \<times> bool \<Rightarrow> bool" where
  "server_good D iter W M w k n = (\<lambda>(d, up). driver_env D iter W M w k
     \<and> (if up then going M d \<and> channels_ok d \<and> generations d + n < 2 ^ 64 else dv_parked d = [] \<and> dv_cmds d = []))"

lemma server_moves_exec:
  "\<forall>t. op \<noteq> AppSend t \<Longrightarrow> server_moves D iter (d, True) (ServerOp op) = map_option (\<lambda>d'. (d', True)) (driver_exec D iter d op)"
  by (cases op) simp_all

lemma brings_none: "\<forall>t. op \<noteq> AppSend t \<Longrightarrow> brings d op = {#}"
  by (cases op) simp_all

lemma server_moves_good:
  assumes "server_good D iter W M w k (Suc n) s"
  shows "\<exists>s'. server_moves D iter s m = Some s' \<and> server_good D iter W M w k n s' \<and> balance (fst s') = balance (fst s)"
proof -
  obtain d up where s: "s = (d, up)" by fastforce
  show ?thesis
  proof (cases up)
    case up: True
    have g: "driver_env D iter W M w k" "going M d" "channels_ok d" "generations d + Suc n < 2 ^ 64"
      using assms s up by (simp_all add: server_good_def)
    have ng: "ep_next_generation (dv_core d) \<noteq> - 1"
      using g(4) by (auto simp: generations_def unsigned_minus_1_eq_mask mask_eq_exp_minus_1)
    show ?thesis
    proof (cases m)
      case ServerDropped
      have e: "dv_parked (driver_drop d) = []" "dv_cmds (driver_drop d) = []" by (simp_all add: driver_drop_def emit_def)
      then have "balance (driver_drop d) = balance d" using driver_drop_balance [of d] by (simp add: balance_def)
      with e s up g(1) ServerDropped show ?thesis by (simp add: server_good_def)
    next
      case (ServerOp op)
      show ?thesis
      proof (cases "\<exists>t. op = AppSend t")
        case True
        then have "server_moves D iter s m = Some s" using s up ServerOp by auto
        moreover have "server_good D iter W M w k n s" using g s up by (simp add: server_good_def)
        ultimately show ?thesis by blast
      next
        case False
        obtain d' where d': "driver_exec D iter d op = Some d'" "achieves M d (brings d op) d'"
          using exec_achieves [OF g(1-3) ng] by blast
        then have "server_good D iter W M w k n (d', True)" "balance d' = balance d"
          using g False brings_none [of op d] by (auto simp: achieves_def server_good_def)
        moreover have "server_moves D iter s m = Some (d', True)"
          using d'(1) s up ServerOp False server_moves_exec [of op D iter d] by simp
        ultimately show ?thesis using s by auto
      qed
    qed
  next
    case False
    with assms s show ?thesis by (simp add: server_good_def)
  qed
qed

lemma driver_kinded_mono: "K \<subseteq>\<^sub>m K' \<Longrightarrow> driver_kinded K d \<Longrightarrow> driver_kinded K' d"
  unfolding driver_kinded_def using kinded_mono [of K K'] by (blast intro: all_values_mono)

lemma server_moves_kinded:
  assumes "driver_kinded K (fst s)" "server_moves D iter s m = Some s'"
  shows "driver_kinded K (fst s')"
proof -
  obtain d up where s: "s = (d, up)" by fastforce
  show ?thesis
  proof (cases up)
    case True
    show ?thesis
    proof (cases m)
      case (ServerOp op)
      show ?thesis
      proof (cases "\<exists>t. op = AppSend t")
        case False
        then have "map_option (\<lambda>d'. (d', True)) (driver_exec D iter d op) = Some s'"
          using assms(2) s True ServerOp server_moves_exec [of op D iter d] by simp
        then show ?thesis using assms(1) s False driver_exec_kinded [of K d D iter op] by auto
      qed (use assms s True ServerOp in auto)
    qed (use assms s True driver_drop_kinded in auto)
  qed (use assms s in auto)
qed

interpretation server_calls: reply_host "server_host D iter" "server_good D iter W M w k" "\<lambda>s. balance (fst s)" "\<lambda>K s. driver_kinded K (fst s)"
  for D :: "('c, 'v, 'n, 'e, 'i) deps" and iter W M w k
proof
  fix n K K' t m and d d' :: "('c, 'e) driver \<times> bool"
  show "server_good D iter W M w k (Suc n) d \<Longrightarrow>
      \<exists>d'. h_exec (server_host D iter) d m = Some d' \<and> server_good D iter W M w k n d' \<and> balance (fst d') = balance (fst d)"
    using server_moves_good [of D iter W M w k n d m] by (simp add: server_host_def)
  show "driver_kinded K (fst d) \<Longrightarrow> h_exec (server_host D iter) d m = Some d' \<Longrightarrow> driver_kinded K (fst d')"
    using server_moves_kinded [of K d D iter m d'] by (simp add: server_host_def)
  show "server_good D iter W M w k (Suc n) d \<Longrightarrow> server_good D iter W M w k n d" by (auto simp: server_good_def split: if_splits)
  show "server_good D iter W M w k n d \<Longrightarrow> h_running (server_host D iter) d \<Longrightarrow>
      length (h_queue (server_host D iter) d) < CMD_CHANNEL_CAP \<Longrightarrow>
      server_good D iter W M w k n (h_set_queue (server_host D iter) (h_queue (server_host D iter) d @ [t]) d)
      \<and> balance (fst (h_set_queue (server_host D iter) (h_queue (server_host D iter) d @ [t]) d)) = balance (fst d) + cmd_replies (tg_cmd t)"
    by (cases d) (auto simp: server_host_def server_good_def going_app channels_ok_def generations_def balance_def)
  show "driver_kinded K (fst d) \<Longrightarrow> cmd_kinded K (tg_cmd t) \<Longrightarrow>
      driver_kinded K (fst (h_set_queue (server_host D iter) (h_queue (server_host D iter) d @ [t]) d))"
    by (cases d) (auto simp: server_host_def driver_kinded_def)
  show "h_set_queue (server_host D iter) (h_queue (server_host D iter) d) d = d" by (cases d) (simp add: server_host_def)
  show "answered (answers (h_log (server_host D iter) d)) \<subseteq># balance (fst d)"
    by (cases d) (simp add: server_host_def balance_def add.assoc)
  show "server_good D iter W M w k n d \<Longrightarrow> \<not> h_running (server_host D iter) d \<Longrightarrow>
      answered (answers (h_log (server_host D iter) d)) = balance (fst d)"
    by (cases d) (simp add: server_host_def server_good_def balance_def)
  show "driver_kinded K (fst d) \<Longrightarrow> all_kinded K (answers (h_log (server_host D iter) d))"
    by (cases d) (simp add: server_host_def driver_kinded_def)
  show "K \<subseteq>\<^sub>m K' \<Longrightarrow> driver_kinded K (fst d) \<Longrightarrow> driver_kinded K' (fst d)" by (rule driver_kinded_mono)
qed

section \<open>The client as a host\<close>

definition client_good ::
  "('c, 'v, 'n, 'e, 'i) deps \<Rightarrow> order \<Rightarrow> 'c conn_weights \<Rightarrow> ('e \<Rightarrow> cid set) \<Rightarrow> ('c \<Rightarrow> nat) \<Rightarrow> nat \<Rightarrow> nat \<Rightarrow> ('c, 'e) client_driver \<Rightarrow> bool" where
  "client_good D iter W M w k n d \<longleftrightarrow> driver_env D iter W M w k \<and> client_inv M d \<and> client_generations d + n < 2 ^ 64"

lemma client_moves_exec: "\<forall>t. op \<noteq> ClientAppSend t \<Longrightarrow> client_moves D iter d op = client_exec D iter d op \<and> client_brings d op = {#}"
  by (cases op) simp_all

lemma client_moves_good:
  assumes "client_good D iter W M w k (Suc n) d"
  shows "\<exists>d'. client_moves D iter d op = Some d' \<and> client_good D iter W M w k n d' \<and> client_balance d' = client_balance d"
proof (cases "\<exists>t. op = ClientAppSend t")
  case False
  have g: "driver_env D iter W M w k" "client_inv M d" "client_generations d + Suc n < 2 ^ 64" using assms by (simp_all add: client_good_def)
  have "ep_next_generation (cd_core d) \<noteq> - 1"
    using g(3) by (auto simp: client_generations_def unsigned_minus_1_eq_mask mask_eq_exp_minus_1)
  then obtain d' where d': "client_exec D iter d op = Some d'" "client_achieves M d (client_brings d op) d'"
    using client_exec_achieves [OF g(1,2)] by blast
  moreover have "client_moves D iter d op = client_exec D iter d op" "client_brings d op = {#}" using client_moves_exec [of op D iter d] False by auto
  ultimately show ?thesis using g by (auto simp: client_achieves_def client_good_def)
qed (use assms in \<open>auto simp: client_good_def\<close>)

lemma client_kinded_mono: "K \<subseteq>\<^sub>m K' \<Longrightarrow> client_kinded K d \<Longrightarrow> client_kinded K' d"
  unfolding client_kinded_def using kinded_mono [of K K'] by blast

lemma client_moves_kinded: "client_kinded K d \<Longrightarrow> client_moves D iter d op = Some d' \<Longrightarrow> client_kinded K d'"
  using client_exec_kinded [of K d D iter op d'] by (cases op) auto

interpretation client_calls: reply_host "client_host D iter" "client_good D iter W M w k" client_balance client_kinded
  for D :: "('c, 'v, 'n, 'e, 'i) deps" and iter W M w k
proof
  fix n K K' t m and d d' :: "('c, 'e) client_driver"
  show "client_good D iter W M w k (Suc n) d \<Longrightarrow>
      \<exists>d'. h_exec (client_host D iter) d m = Some d' \<and> client_good D iter W M w k n d' \<and> client_balance d' = client_balance d"
    by (simp add: client_host_def client_moves_good)
  show "client_kinded K d \<Longrightarrow> h_exec (client_host D iter) d m = Some d' \<Longrightarrow> client_kinded K d'"
    by (simp add: client_host_def client_moves_kinded)
  show "client_good D iter W M w k (Suc n) d \<Longrightarrow> client_good D iter W M w k n d" by (simp add: client_good_def)
  show "client_good D iter W M w k n d \<Longrightarrow> h_running (client_host D iter) d \<Longrightarrow>
      length (h_queue (client_host D iter) d) < CMD_CHANNEL_CAP \<Longrightarrow>
      client_good D iter W M w k n (h_set_queue (client_host D iter) (h_queue (client_host D iter) d @ [t]) d)
      \<and> client_balance (h_set_queue (client_host D iter) (h_queue (client_host D iter) d @ [t]) d) = client_balance d + cmd_replies (tg_cmd t)"
    by (simp add: client_host_def client_good_def client_inv_def client_ok_def client_story_def client_phase_def client_generations_def client_balance_def)
  show "client_kinded K d \<Longrightarrow> cmd_kinded K (tg_cmd t) \<Longrightarrow>
      client_kinded K (h_set_queue (client_host D iter) (h_queue (client_host D iter) d @ [t]) d)"
    by (auto simp: client_host_def client_kinded_def)
  show "h_set_queue (client_host D iter) (h_queue (client_host D iter) d) d = d" by (simp add: client_host_def)
  show "answered (answers (h_log (client_host D iter) d)) \<subseteq># client_balance d" by (simp add: client_host_def client_balance_def add.assoc)
  show "client_good D iter W M w k n d \<Longrightarrow> \<not> h_running (client_host D iter) d \<Longrightarrow>
      answered (answers (h_log (client_host D iter) d)) = client_balance d"
    by (simp add: client_host_def client_good_def client_inv_def client_balance_def)
  show "client_kinded K d \<Longrightarrow> all_kinded K (answers (h_log (client_host D iter) d))" by (simp add: client_host_def client_kinded_def)
  show "K \<subseteq>\<^sub>m K' \<Longrightarrow> client_kinded K d \<Longrightarrow> client_kinded K' d" by (rule client_kinded_mono)
qed

section \<open>From the start\<close>

lemma world_run_append:
  "world_run Q H w (ops @ ops') = Moved u \<Longrightarrow> \<exists>v. world_run Q H w ops = Moved v \<and> world_run Q H v ops' = Moved u"
  by (induction ops arbitrary: w) (auto split: moved.splits)

lemma world_new_ok:
  assumes "good n d" "kinded Map.empty d" "bal d = {#}"
  shows "world_ok good bal kinded n (world_new d)"
proof -
  have "tasks_ok Map.empty 0 {#} []" by (simp add: tasks_ok_def staged_def apart_def)
  with assms show ?thesis by (auto simp: world_ok_def world_new_def)
qed

lemma server_world:
  assumes E: "driver_env D iter W M w k" and n: "new_server B inner secrets = Inr core" and len: "length ops < 2 ^ 64 - 1"
  shows "\<exists>u. world_run D (server_host D iter) (world_new (driver_new core cap, True)) ops = Moved u
    \<and> world_ok (server_good D iter W M w k) (\<lambda>s. balance (fst s)) (\<lambda>K s. driver_kinded K (fst s)) 0 u"
proof -
  note i = new_driver_going [OF n, where cap = cap]
  have "world_ok (server_good D iter W M w k) (\<lambda>s. balance (fst s)) (\<lambda>K s. driver_kinded K (fst s)) (length ops) (world_new (driver_new core cap, True))"
    by (rule world_new_ok)
      (use E i len in \<open>simp_all add: server_good_def\<close>, simp add: driver_kinded_def driver_new_def)
  then show ?thesis using server_calls.world_run_keeps [of D iter W M w k 0 ops] by simp
qed

lemma client_world:
  assumes E: "driver_env D iter W M w k" and n: "new_client D inner None nonce now minute cfg = Some (Inr (core, handle))"
    and len: "length ops < 2 ^ 64 - 2"
  shows "\<exists>u. world_run D (client_host D iter) (world_new (client_new core handle)) ops = Moved u
    \<and> world_ok (client_good D iter W M w k) client_balance client_kinded 0 u"
proof -
  note i = new_client_inv [OF driver_envD(1) [OF E] n]
  have "world_ok (client_good D iter W M w k) client_balance client_kinded (length ops) (world_new (client_new core handle))"
    by (rule world_new_ok)
      (use E i len in \<open>simp_all add: client_good_def\<close>, simp add: client_kinded_def client_new_def)
  then show ?thesis using client_calls.world_run_keeps [of D iter W M w k 0 ops] by simp
qed

section \<open>Calls on a driver that is gone\<close>

text \<open>How a future ends when nothing can be sent, if it does not wait; \<open>n\<close> is the next channel.\<close>

primrec offline :: "'a future \<Rightarrow> reply \<Rightarrow> 'a option" where
  "offline (Ready v) = (\<lambda>n. Some v)"
| "offline (Channel f) = (\<lambda>n. offline (f n) (Suc n))"
| "offline (Send t f) = offline (f False)"
| "offline (Await r f) = (\<lambda>n. None)"

lemma offline_run:
  "offline f (w_next u) = Some v \<Longrightarrow> \<not> h_running H (w_host u) \<Longrightarrow> k < length (w_tasks u) \<Longrightarrow> w_tasks u ! k = Some f \<Longrightarrow>
    \<exists>m u'. world_run Q H u (replicate m (Poll k)) = Moved u' \<and> w_tasks u' ! k = Some (Ready v)"
proof (induction f arbitrary: u)
  case (Ready x)
  then show ?case by (intro exI [of _ 0]) simp
next
  case (Channel f)
  let ?u = "u\<lparr>w_next := Suc (w_next u), w_tasks := (w_tasks u)[k := Some (f (w_next u))]\<rparr>"
  from Channel.IH [OF rangeI [of f "w_next u"], of ?u] Channel.prems obtain m u' where
    "world_run Q H ?u (replicate m (Poll k)) = Moved u'" "w_tasks u' ! k = Some (Ready v)" by auto
  then show ?case using Channel.prems by (intro exI [of _ "Suc m"]) auto
next
  case (Send t f)
  let ?u = "u\<lparr>w_tasks := (w_tasks u)[k := Some (f False)]\<rparr>"
  from Send.IH [OF rangeI [of f False], of ?u] Send.prems obtain m u' where
    "world_run Q H ?u (replicate m (Poll k)) = Moved u'" "w_tasks u' ! k = Some (Ready v)" by auto
  then show ?case using Send.prems by (intro exI [of _ "Suc m"]) auto
qed simp

definition checked :: "('c, 'v, 'n, 'z) quinn_conn_scheme \<Rightarrow> u64 \<Rightarrow> conn_error + unit \<Rightarrow> conn_error + unit" where
  "checked Q code x = (case varint Q code of Inl e \<Rightarrow> Inl e | Inr v \<Rightarrow> x)"

fun gone_value :: "('c, 'v, 'n, 'z) quinn_conn_scheme \<Rightarrow> handle_call \<Rightarrow> handle_value" where
  "gone_value Q (ConnOpenBi c) = VStreams (Inl Closed)"
| "gone_value Q (ConnAcceptBi c) = VStreams (Inl Closed)"
| "gone_value Q (ConnClose c code reason) = VUnit (checked Q code (Inr ()))"
| "gone_value Q (QuinnOpenBi h) = VStreams (Inl Closed)"
| "gone_value Q (QuinnAcceptBi h) = VStreams (Inl Closed)"
| "gone_value Q (QuinnForgetSend h i) = VDone"
| "gone_value Q (RecvRead rs m) = VBytes (if m = 0 then Inr [] else Inl Closed)"
| "gone_value Q (RecvReadToEnd rs limit) = VBytes (Inl Closed)"
| "gone_value Q (RecvStop rs code) = VUnit (checked Q code (Inl Closed))"
| "gone_value Q (SendReset ss code) = VUnit (checked Q code (Inl Closed))"
| "gone_value Q _ = VUnit (Inl Closed)"

lemmas future_defs = connection_open_bi_def connection_accept_bi_def connection_close_def quinn_open_bi_def quinn_accept_bi_def
  quinn_finish_def quinn_wait_finished_def quinn_finish_and_wait_def quinn_forget_send_def recv_read_def read_chunk_def
  recv_read_to_end_def recv_stop_def send_write_all_def send_finish_def send_wait_finished_def send_finish_and_wait_def
  send_reset_def handle_wait_finished_def cmd_send_def try_then_def

lemma offline_call: "offline (call_future Q c) n = Some (gone_value Q c)"
  by (cases c) (auto simp: future_defs checked_def split: sum.split)

section \<open>Properties\<close>

text \<open>
  C17. Handle calls never go wrong: whatever calls and programs an application starts, polls and cancels and whatever the
  server's driver does in between, no driver step fails to return and no call ever receives a value of
  another type than its channel's; no channel is answered twice; and every call that waits has its
  channel in exactly one place, answered, parked or still queued.
\<close>

theorem server_calls_typed:
  assumes "driver_env D iter W M w k" and "new_server B inner secrets = Inr core" and "length ops < 2 ^ 64 - 1"
  shows "\<exists>u. world_run D (server_host D iter) (world_new (driver_new core cap, True)) ops = Moved u
    \<and> distinct (map answer_to (answers (dv_log (fst (w_host u)))))
    \<and> (\<forall>i r f. i < length (w_tasks u) \<longrightarrow> w_tasks u ! i = Some (Await r f) \<longrightarrow>
         count (answered (answers (dv_log (fst (w_host u)))) + (\<Sum>(ch, pk)\<in>#mset (dv_parked (fst (w_host u))). waiting pk)
           + (\<Sum>t\<in>#mset (dv_cmds (fst (w_host u))). cmd_replies (tg_cmd t))) r = 1)"
proof -
  obtain u where u: "world_run D (server_host D iter) (world_new (driver_new core cap, True)) ops = Moved u"
    "world_ok (server_good D iter W M w k) (\<lambda>s. balance (fst s)) (\<lambda>K s. driver_kinded K (fst s)) 0 u"
    using server_world [OF assms] by blast
  have "h_log (server_host D iter) s = dv_log (fst s)" for s :: "('a, 'd) driver \<times> bool" by (cases s) (simp add: server_host_def)
  with u server_calls.world_accounts [OF u(2)] show ?thesis unfolding balance_def by auto
qed

text \<open>Witness: a task opens a stream on a connection the sample server does not have.\<close>

abbreviation sample_connection :: connection where
  "sample_connection \<equiv> \<lparr>cn_remote = AddrV4 9 9, cn_handle = ConnectionHandle 0 1, cn_client_id = None\<rparr>"

theorem server_calls_typed_witness:
  "\<exists>u. world_run sample_deps (server_host sample_deps (\<lambda>hs. hs)) (world_new (driver_new sample_server 32, True))
       [Spawn (Call (ConnOpenBi sample_connection)), Poll 0, Poll 0, HostMoves (ServerOp (NextCommand 0 (\<lambda>n. n))), Poll 0] = Moved u
     \<and> distinct (map answer_to (answers (dv_log (fst (w_host u)))))"
  using server_calls_typed [OF sample_driver_env new_sample_server,
      of "[Spawn (Call (ConnOpenBi sample_connection)), Poll 0, Poll 0, HostMoves (ServerOp (NextCommand 0 (\<lambda>n. n))), Poll 0]" 32] by auto

text \<open>
  C18. Dropping the \<open>Server\<close> strands no one: after any such run, once the \<open>Server\<close> is dropped, every call and
  every program that was not cancelled returns when it is polled, wherever it was.
\<close>

theorem server_calls_return:
  assumes "driver_env D iter W M w k" and "new_server B inner secrets = Inr core" and "length ops < 2 ^ 64 - 2"
  shows "\<exists>u. world_run D (server_host D iter) (world_new (driver_new core cap, True)) (ops @ [HostMoves ServerDropped]) = Moved u
    \<and> (\<forall>i<length (w_tasks u). w_tasks u ! i \<noteq> None \<longrightarrow>
         (\<exists>m u' v. world_run D (server_host D iter) u (replicate m (Poll i)) = Moved u' \<and> w_tasks u' ! i = Some (Ready v)))"
proof -
  obtain u where u: "world_run D (server_host D iter) (world_new (driver_new core cap, True)) (ops @ [HostMoves ServerDropped]) = Moved u"
    "world_ok (server_good D iter W M w k) (\<lambda>s. balance (fst s)) (\<lambda>K s. driver_kinded K (fst s)) 0 u"
    using server_world [OF assms(1,2), of "ops @ [HostMoves ServerDropped]"] assms(3) by auto
  obtain v where v: "world_run D (server_host D iter) v [HostMoves ServerDropped] = Moved u" using world_run_append [OF u(1)] by blast
  have "\<not> h_running (server_host D iter) (w_host u)"
  proof -
    obtain d up where d: "w_host v = (d, up)" by fastforce
    with v show ?thesis by (cases up) (auto simp: server_host_def)
  qed
  with u server_calls.tasks_complete [OF u(2)] show ?thesis by (intro exI [of _ u]) auto
qed

text \<open>Witness: a task that has sent its command when the sample server is dropped.\<close>

theorem server_calls_return_witness:
  "\<exists>u. world_run sample_deps (server_host sample_deps (\<lambda>hs. hs)) (world_new (driver_new sample_server 32, True))
       ([Spawn (Call (ConnOpenBi sample_connection)), Poll 0, Poll 0] @ [HostMoves ServerDropped]) = Moved u
     \<and> (\<forall>i<length (w_tasks u). w_tasks u ! i \<noteq> None \<longrightarrow>
          (\<exists>m u' v. world_run sample_deps (server_host sample_deps (\<lambda>hs. hs)) u (replicate m (Poll i)) = Moved u' \<and> w_tasks u' ! i = Some (Ready v)))"
  by (rule server_calls_return [OF sample_driver_env new_sample_server]) simp

text \<open>
  C19. The same for a client: its handle calls are typed, never answered twice, and once its driver has
  ended, because the connection was lost or \<open>connect\<close> gave up, every call that was not cancelled returns.
\<close>

theorem client_calls_return:
  assumes "driver_env D iter W M w k" and "new_client D inner None nonce now minute cfg = Some (Inr (core, handle))"
    and "length ops < 2 ^ 64 - 2"
  shows "\<exists>u. world_run D (client_host D iter) (world_new (client_new core handle)) ops = Moved u
    \<and> distinct (map answer_to (answers (cd_log (w_host u))))
    \<and> (\<not> cd_running (w_host u) \<longrightarrow> (\<forall>i<length (w_tasks u). w_tasks u ! i \<noteq> None \<longrightarrow>
         (\<exists>m u' v. world_run D (client_host D iter) u (replicate m (Poll i)) = Moved u' \<and> w_tasks u' ! i = Some (Ready v))))"
proof -
  obtain u where u: "world_run D (client_host D iter) (world_new (client_new core handle)) ops = Moved u"
    "world_ok (client_good D iter W M w k) client_balance client_kinded 0 u"
    using client_world [OF assms] by blast
  have "h_log (client_host D iter) d = cd_log d" "h_running (client_host D iter) d = cd_running d" for d :: "('a, 'd) client_driver"
    by (simp_all add: client_host_def)
  with u client_calls.world_accounts(1) [OF u(2)] client_calls.tasks_complete [OF u(2)] show ?thesis
    by (intro exI [of _ u]) auto
qed

text \<open>Witness: a task that waits to accept a stream when the sample client's driver is aborted.\<close>

theorem client_calls_return_witness:
  "\<exists>core handle u. new_client sample_deps 0 None sample_nonce 0 0 sample_client = Some (Inr (core, handle))
    \<and> world_run sample_deps (client_host sample_deps (\<lambda>hs. hs)) (world_new (client_new core handle))
        [Spawn (Call (ConnAcceptBi sample_connection)), Poll 0, Poll 0, HostMoves ClientAbort] = Moved u
    \<and> distinct (map answer_to (answers (cd_log (w_host u))))"
proof -
  obtain core handle where n: "new_client sample_deps 0 None sample_nonce 0 0 sample_client = Some (Inr (core, handle))"
    using sample_dials by blast
  with client_calls_return [OF sample_driver_env n, of "[Spawn (Call (ConnAcceptBi sample_connection)), Poll 0, Poll 0, HostMoves ClientAbort]"]
  show ?thesis by auto
qed

text \<open>
  C20. What a call returns when the driver is gone: a code of \<open>2^62\<close> or more is refused as invalid and an empty
  read is empty, as ever; closing and forgetting a stream still succeed; everything else is \<open>Closed\<close>.
\<close>

theorem calls_without_driver:
  assumes "\<not> h_running H (w_host u)"
  shows "\<exists>m u'. world_run Q H u (Spawn (Call c) # replicate m (Poll (length (w_tasks u)))) = Moved u'
    \<and> w_tasks u' ! length (w_tasks u) = Some (Ready (gone_value Q c))"
proof -
  let ?u = "u\<lparr>w_tasks := w_tasks u @ [Some (call_future Q c)]\<rparr>"
  have "\<exists>m u'. world_run Q H ?u (replicate m (Poll (length (w_tasks u)))) = Moved u'
      \<and> w_tasks u' ! length (w_tasks u) = Some (Ready (gone_value Q c))"
    by (rule offline_run [OF offline_call]) (use assms in simp_all)
  then show ?thesis by (elim exE, intro exI) simp
qed

text \<open>Witness: a reset with an invalid code beside a sample server that was dropped.\<close>

theorem calls_without_driver_witness:
  "\<exists>m u'. world_run sample_deps (server_host sample_deps (\<lambda>hs. hs)) (world_new (driver_drop (driver_new sample_server 32), False))
       (Spawn (Call (SendReset \<lparr>tx_id = 4, tx_cmds = cmd_sender_new (ConnectionHandle 0 1)\<rparr> (2 ^ 62))) # replicate m (Poll 0)) = Moved u'
    \<and> w_tasks u' ! 0 = Some (Ready (VUnit (Inl (InvalidErrorCode (2 ^ 62)))))"
proof -
  let ?H = "server_host sample_deps (\<lambda>hs. hs)" and ?u = "world_new (driver_drop (driver_new sample_server 32), False)"
  let ?c = "SendReset \<lparr>tx_id = 4, tx_cmds = cmd_sender_new (ConnectionHandle 0 1)\<rparr> (2 ^ 62)"
  have "gone_value sample_deps ?c = VUnit (Inl (InvalidErrorCode (2 ^ 62)))"
    by (simp add: checked_def varint_def sample_deps_def sample_quinn_def quinn_conn.defs)
  moreover have "\<not> h_running ?H (w_host ?u)" by (simp add: server_host_def world_new_def)
  moreover have "length (w_tasks ?u) = 0" by (simp add: world_new_def)
  ultimately show ?thesis using calls_without_driver [of ?H ?u sample_deps ?c] by (simp only: not_False_eq_True simp_thms True_implies_equals)
qed

text \<open>
  C23. A cancelled \<open>accept_bi\<close> takes the next stream with it. Cancelling a task does not reach the driver, so its
  sender stays parked; when the peer opens a stream, it is given to the sender that is first in line, whether
  anyone still listens or not, while the others, and any later \<open>accept_bi\<close>, keep waiting and the stream is gone
  from the connection's queue.
\<close>

theorem cancelled_accept_takes_stream:
  assumes "w_host u = (d, True)" and "map_of (dv_parked d) ch = Some pk" and "pk_pending_accepts pk = cancelled # later"
    and "conn_mut (dv_core d) ch = Some s" and "accept_bi D s = (Inr (Some i), s1)" and "accept_bi D s1 = (Inr None, s2)"
  shows "\<exists>u' d' pk'. world_exec D (server_host D iter) u (Cancel k) = Moved u' \<and> w_host u' = (d, True)
    \<and> on_event D (StreamOpened ch i dir) d = Some d' \<and> dv_log d' = dv_log d @ [Answer (StreamReply cancelled (Inr i))]
    \<and> map_of (dv_parked d') ch = Some pk' \<and> pk_pending_accepts pk' = later \<and> conn_mut (dv_core d') ch = Some (if later = [] then s1 else s2)"
proof -
  have s: "serve_accepts D (cancelled # later) s = ([StreamReply cancelled (Inr i)], later, if later = [] then s1 else s2)"
    using assms(5,6) by (cases later) simp_all
  then have o: "on_stream_opened D pk s = ([StreamReply cancelled (Inr i)], pk\<lparr>pk_pending_accepts := later\<rparr>, if later = [] then s1 else s2)"
    using assms(3) by (simp add: on_stream_opened_def)
  have "conn_mut (put_conn ch x (dv_core d)) ch = Some x" for x
    using assms(4) by (simp add: conn_mut_def put_conn_def map_of_map_entry)
  with o assms(1,2,4) show ?thesis by (simp add: with_conn_def emit_def update_conv')
qed

text \<open>Witness: two tasks wait to accept, the first is cancelled, and the peer opens stream 4.\<close>

abbreviation two_waiting :: "(sample_conn, nat) driver" where
  "two_waiting \<equiv> (driver_new (sample_server\<lparr>ep_connections := [(ConnectionHandle 0 1, (conn_new idle_conn)\<lparr>cs_ready_accepts := [4]\<rparr>)]\<rparr>) 32)
     \<lparr>dv_parked := [(ConnectionHandle 0 1, parked_new\<lparr>pk_pending_accepts := [0, 1]\<rparr>)]\<rparr>"

theorem cancelled_accept_takes_stream_witness:
  "\<exists>d' pk'. on_event sample_deps (StreamOpened (ConnectionHandle 0 1) 4 Bi) two_waiting = Some d'
     \<and> dv_log d' = [Answer (StreamReply 0 (Inr 4))] \<and> map_of (dv_parked d') (ConnectionHandle 0 1) = Some pk' \<and> pk_pending_accepts pk' = [1]"
proof -
  let ?s = "(conn_new idle_conn)\<lparr>cs_ready_accepts := [4]\<rparr>"
  have a: "accept_bi sample_deps ?s = (Inr (Some 4), ?s\<lparr>cs_ready_accepts := []\<rparr>)" by (simp add: accept_bi_def)
  have b: "accept_bi sample_deps (?s\<lparr>cs_ready_accepts := []\<rparr>) = (Inr None, ?s\<lparr>cs_ready_accepts := []\<rparr>)"
    by (simp add: accept_bi_def sample_deps_def sample_quinn_def quinn_conn.defs idle_conn_def conn_new_def)
  have f: "w_host (world_new (two_waiting, True)) = (two_waiting, True)"
    "map_of (dv_parked two_waiting) (ConnectionHandle 0 1) = Some (parked_new\<lparr>pk_pending_accepts := [0, 1]\<rparr>)"
    "pk_pending_accepts (parked_new\<lparr>pk_pending_accepts := [0, 1]\<rparr>) = 0 # [1]" "conn_mut (dv_core two_waiting) (ConnectionHandle 0 1) = Some ?s"
    by (simp_all add: world_new_def driver_new_def conn_mut_def)
  have "dv_log two_waiting = []" by (simp add: driver_new_def)
  with cancelled_accept_takes_stream [OF f a b, of _ _ Bi] show ?thesis by (metis append_Nil)
qed

end
