(* ===== verification/AtWork.thy ===== *)
theory AtWork
  imports Calls
begin

text \<open>
  A sample server at work: the runs on which the properties of the example programs are exercised, with the driver
  itself serving the commands of the tasks.
\<close>

section \<open>A server at work\<close>

text \<open>
  For the witnesses: a sample server with one connection on which nothing is outstanding. What it does with a command
  is what \<open>apply_cmd\<close> says, and nothing else happens.
\<close>

abbreviation sample_handle :: connection_handle where
  "sample_handle \<equiv> ConnectionHandle 0 1"

definition quiet :: "sample_conn conn_state \<Rightarrow> bool" where
  "quiet s \<longleftrightarrow> sm_events (cs_conn s) = [] \<and> sm_output (cs_conn s) = [] \<and> \<not> sm_closed (cs_conn s)"

definition at_work :: "sample_conn conn_state \<Rightarrow> (sample_conn, nat) endpoint \<Rightarrow> bool" where
  "at_work s ep \<longleftrightarrow> ep_connections ep = [(sample_handle, s)] \<and> ep_outbound ep = [] \<and> ep_events ep = []"

definition serving :: "sample_conn conn_state \<Rightarrow> tagged list \<Rightarrow> answer list \<Rightarrow> (sample_conn, nat) driver \<times> bool \<Rightarrow> bool" where
  "serving s q as = (\<lambda>(d, up). up \<and> at_work s (dv_core d) \<and> dv_parked d = [(sample_handle, parked_new)]
     \<and> dv_cmds d = q \<and> dv_log d = map Answer as)"

lemma quiet_pass:
  assumes w: "at_work s ep" and q: "quiet s"
  shows "\<exists>ep'. service_connections sample_deps (\<lambda>hs. hs) now ep = Some ep' \<and> at_work (clear_dirty s) ep'"
proof -
  let ?ep = "ep\<lparr>ep_last_service := Some now\<rparr>"
  have f: "sm_events (cs_conn s) = []" "sm_output (cs_conn s) = []" "\<not> sm_closed (cs_conn s)" using q by (simp_all add: quiet_def)
  then have e: "(cs_conn s)\<lparr>sm_events := []\<rparr> = cs_conn s" "(cs_conn s)\<lparr>sm_output := []\<rparr> = cs_conn s" by (cases "cs_conn s"; simp)+
  have "poll_conn sample_deps (s, progress_default) = (None, (s, progress_default))"
    using f e by (simp add: poll_conn_def sample_deps_def sample_quinn_def quinn_conn.defs)
  then have streams: "service_streams sample_deps s = Some (progress_default, s)"
    unfolding service_streams_def by (simp add: while_some_stop)
  have drain: "drain_transmits sample_deps now (cs_conn s) [] = Some ([], cs_conn s)"
    using f e by (subst drain_transmits.simps) (simp add: sample_deps_def sample_quinn_def quinn_conn.defs)
  have nd: "\<not> is_drained sample_deps s" using f by (simp add: is_drained_def sample_deps_def sample_quinn_def quinn_conn.defs)
  have one: "service_one sample_deps now \<lparr>ps_ep = ?ep, ps_events = [], ps_transmits = [], ps_lost = []\<rparr> sample_handle =
      Some \<lparr>ps_ep = ?ep\<lparr>ep_connections := [(sample_handle, clear_dirty s)]\<rparr>, ps_events = [], ps_transmits = [], ps_lost = []\<rparr>"
    using w streams drain nd by (simp add: at_work_def service_one_def progress_events_def progress_default_def)
  show ?thesis using w one by (simp add: at_work_def service_connections_def sample_route refresh_next_timeout_def)
qed

lemma quiet_pump:
  assumes "at_work s (dv_core d)" "quiet s"
  shows "\<exists>ep. pump sample_deps (\<lambda>hs. hs) clk d = Some (d\<lparr>dv_core := ep\<rparr>) \<and> at_work (clear_dirty s) ep"
proof -
  have "next_event (False, d) = (None, False, d)" using assms(1) by (simp add: next_event_def poll_event_def at_work_def)
  then have drain: "drain_events sample_deps (False, d) = Some (False, d)" unfolding drain_events_def by (rule while_some_stop)
  obtain ep where s: "service_connections sample_deps (\<lambda>hs. hs) (clk 0) (dv_core d) = Some ep" and w: "at_work (clear_dirty s) ep"
    using quiet_pass [OF assms] by blast
  have "poll_transmit sample_deps (\<lambda>hs. hs) (clk 0) (dv_core d) = Some (None, ep)"
    using assms(1) s w by (simp add: poll_transmit_def pop_outbound_def at_work_def)
  then have "flush sample_deps (\<lambda>hs. hs) (clk 0) (dv_core d) [] = Some ([], ep)" by (subst flush.simps) simp
  then have "flush_transmits sample_deps (\<lambda>hs. hs) (clk 0) (False, d) = Some (False, d\<lparr>dv_core := ep\<rparr>)"
    by (simp add: flush_transmits_def emit_def)
  with drain have "pump sample_deps (\<lambda>hs. hs) clk d = Some (d\<lparr>dv_core := ep\<rparr>)" by (subst pump.simps) simp
  with w show ?thesis by blast
qed

abbreviation serves_next :: "server_move world_op" where
  "serves_next \<equiv> HostMoves (ServerOp (NextCommand 0 (\<lambda>n. n)))"

lemma serving_command:
  assumes d: "serving s (t # q) as d" and t: "tg_handle t = sample_handle"
    and a: "apply_cmd sample_deps 0 (tg_cmd t) parked_new s = Some (outs, parked_new, s')" "quiet s'"
  shows "\<exists>d'. h_exec (server_host sample_deps (\<lambda>hs. hs)) d (ServerOp (NextCommand 0 (\<lambda>n. n))) = Some d'
    \<and> serving (clear_dirty s') q (as @ outs) d'"
proof -
  obtain e where e: "d = (e, True)" using d by (cases d) (simp add: serving_def)
  let ?d = "emit (map Answer outs) (e\<lparr>dv_cmds := q, dv_parked := [(sample_handle, parked_new)], dv_core := put_conn sample_handle s' (dv_core e)\<rparr>)"
  have w: "at_work s' (dv_core ?d)" using d e by (simp add: serving_def at_work_def put_conn_def emit_def)
  have "on_command sample_deps 0 t (e\<lparr>dv_cmds := q\<rparr>) = Some ?d"
    using d e t a by (simp add: on_command_def with_conn_def serving_def at_work_def conn_mut_def)
  with quiet_pump [OF w a(2), of "\<lambda>n. n"] d e show ?thesis
    by (auto simp: server_host_def serving_def emit_def)
qed

lemma world_run_cat: "world_run Q H w ops = Moved v \<Longrightarrow> world_run Q H w (ops @ ops') = world_run Q H v ops'"
  by (induction ops arbitrary: w) (auto split: moved.splits)

text \<open>The steps of a task that goes along a path.\<close>

inductive_cases path_CreatedE: "path m (Created_channel r # ds) n"
inductive_cases path_TookE: "path m (Took t # ds) n"
inductive_cases path_HeardE: "path m (Heard a # ds) n"
inductive_cases path_NilE: "path m [] n"

text \<open>
  The world with one task ahead: task \<open>k\<close> is at a future from which \<open>ds\<close> leads to \<open>n\<close>, and the server is serving.
\<close>

definition ahead ::
  "nat \<Rightarrow> deed list \<Rightarrow> handle_value future \<Rightarrow> sample_conn conn_state \<Rightarrow> tagged list \<Rightarrow> answer list \<Rightarrow> reply
     \<Rightarrow> handle_value future option list \<Rightarrow> ((sample_conn, nat) driver \<times> bool) world \<Rightarrow> bool" where
  "ahead k ds n s q as r ts w \<longleftrightarrow> serving s q as (w_host w) \<and> w_next w = r \<and> k < length ts
     \<and> (\<exists>m. path m ds n \<and> w_tasks w = ts[k := Some m])"

abbreviation sample_host :: "((sample_conn, nat) driver \<times> bool, server_move) host" where
  "sample_host \<equiv> server_host sample_deps (\<lambda>hs. hs)"

lemma ahead_channel:
  assumes "ahead k (Created_channel r # ds) n s q as r ts w"
  shows "\<exists>w'. world_exec sample_deps sample_host w (Poll k) = Moved w' \<and> ahead k ds n s q as (Suc r) ts w'"
proof -
  obtain f where "path (f r) ds n" "w_tasks w = ts[k := Some (Channel f)]"
    using assms by (auto simp: ahead_def elim: path_CreatedE)
  with assms show ?thesis by (auto simp: ahead_def)
qed

lemma ahead_took:
  assumes "ahead k (Took t # ds) n s q as r ts w" "length q < CMD_CHANNEL_CAP"
  shows "\<exists>w'. world_exec sample_deps sample_host w (Poll k) = Moved w' \<and> ahead k ds n s (q @ [t]) as r ts w'"
proof -
  obtain f where f: "path (f True) ds n" "w_tasks w = ts[k := Some (Send t f)]"
    using assms by (auto simp: ahead_def elim: path_TookE)
  obtain d where "w_host w = (d, True)" "dv_cmds d = q" using assms by (cases "w_host w") (auto simp: ahead_def serving_def)
  with f assms show ?thesis by (auto simp: ahead_def server_host_def serving_def)
qed

lemma ahead_serves:
  assumes "ahead k ds n s (t # q) as r ts w" "tg_handle t = sample_handle"
    "apply_cmd sample_deps 0 (tg_cmd t) parked_new s = Some (outs, parked_new, s')" "quiet s'"
  shows "\<exists>w'. world_exec sample_deps sample_host w serves_next = Moved w' \<and> ahead k ds n (clear_dirty s') q (as @ outs) r ts w'"
proof -
  have "serving s (t # q) as (w_host w)" using assms(1) by (simp add: ahead_def)
  from serving_command [OF this assms(2-4)] obtain d' where
    "h_exec sample_host (w_host w) (ServerOp (NextCommand 0 (\<lambda>n. n))) = Some d'" "serving (clear_dirty s') q (as @ outs) d'" by blast
  with assms(1) show ?thesis by (auto simp: ahead_def)
qed

lemma ahead_heard:
  assumes "ahead k (Heard a # ds) n s q as r ts w" "List.find (\<lambda>b. answer_to b = answer_to a) as = Some a"
  shows "\<exists>w'. world_exec sample_deps sample_host w (Poll k) = Moved w' \<and> ahead k ds n s q as r ts w'"
proof -
  obtain f m where f: "path m ds n" "w_tasks w = ts[k := Some (Await (answer_to a) f)]" "f a = Some m"
    using assms by (auto simp: ahead_def elim: path_HeardE)
  have "answers (map Answer as) = as" by (induction as) auto
  then have "received (h_log sample_host (w_host w)) (answer_to a) = Some a"
    using assms by (cases "w_host w") (simp add: ahead_def serving_def received_def server_host_def)
  with f assms show ?thesis by (auto simp: ahead_def)
qed

text \<open>A request that is served at once, and its answer.\<close>

lemma ahead_sent:
  assumes w: "ahead k (exchange_of r t a @ ds) n s [] as r ts w"
    and t: "tg_handle t = sample_handle" "apply_cmd sample_deps 0 (tg_cmd t) parked_new s = Some ([a], parked_new, s')" "quiet s'"
  shows "\<exists>w'. world_run sample_deps sample_host w [Poll k, Poll k, serves_next] = Moved w'
    \<and> ahead k (Heard a # ds) n (clear_dirty s') [] (as @ [a]) (Suc r) ts w'"
proof -
  obtain w1 where w1: "world_exec sample_deps sample_host w (Poll k) = Moved w1" "ahead k (Took t # Heard a # ds) n s [] as (Suc r) ts w1"
    using ahead_channel w unfolding exchange_of_def by fastforce
  from ahead_took [OF w1(2)] obtain w2 where w2: "world_exec sample_deps sample_host w1 (Poll k) = Moved w2"
    "ahead k (Heard a # ds) n s [t] as (Suc r) ts w2" by (auto simp: CMD_CHANNEL_CAP_def)
  from ahead_serves [OF w2(2) t] w1(1) w2(1) show ?thesis by auto
qed

lemma ahead_hears:
  assumes "ahead k (Heard a # ds) n s q (as @ [a]) r ts w" "answer_to a \<notin> answer_to ` set as"
  shows "\<exists>w'. world_exec sample_deps sample_host w (Poll k) = Moved w' \<and> ahead k ds n s q (as @ [a]) r ts w'"
proof (rule ahead_heard [OF assms(1)])
  show "List.find (\<lambda>b. answer_to b = answer_to a) (as @ [a]) = Some a" using assms(2) by (induction as) auto
qed

lemma ahead_asks:
  assumes w: "ahead k (exchange_of r t a @ ds) n s [] as r ts w"
    and t: "tg_handle t = sample_handle" "apply_cmd sample_deps 0 (tg_cmd t) parked_new s = Some ([a], parked_new, s')" "quiet s'"
    and a: "answer_to a \<notin> answer_to ` set as"
  shows "\<exists>w'. world_run sample_deps sample_host w [Poll k, Poll k, serves_next, Poll k] = Moved w'
    \<and> ahead k ds n (clear_dirty s') [] (as @ [a]) (Suc r) ts w'"
proof -
  obtain w1 where w1: "world_run sample_deps sample_host w [Poll k, Poll k, serves_next] = Moved w1"
    "ahead k (Heard a # ds) n (clear_dirty s') [] (as @ [a]) (Suc r) ts w1" using ahead_sent [OF w t] by blast
  from ahead_hears [OF w1(2) a] world_run_cat [OF w1(1), of "[Poll k]"] show ?thesis by auto
qed

text \<open>What the sample connection does with the commands of the examples.\<close>

lemma sample_applies_accept:
  "cs_ready_accepts s = [] \<Longrightarrow> sm_streams (cs_conn s) = i # is \<Longrightarrow>
     apply_cmd sample_deps now (AcceptBi r) pk s = Some ([StreamReply r (Inr i)], pk, s\<lparr>cs_conn := (cs_conn s)\<lparr>sm_streams := is\<rparr>\<rparr>)"
  by (simp add: accept_bi_def sample_deps_def sample_quinn_def quinn_conn.defs)

lemma sample_applies_write:
  "bs \<noteq> [] \<Longrightarrow> apply_cmd sample_deps now (Write i bs r) pk s = Some ([UnitReply r (Inr ())], pk, s\<lparr>cs_dirty := True\<rparr>)"
  by (simp add: offer_write_def pump_write.simps [of _ i] stream_write_def sample_deps_def sample_quinn_def quinn_conn.defs)

lemma sample_applies_finish:
  "cs_send_fins s i = None \<Longrightarrow> apply_cmd sample_deps now (Finish i r) pk s =
     Some ([UnitReply r (Inr ())], pk, s\<lparr>cs_dirty := True, cs_send_fins := (cs_send_fins s)(i \<mapsto> Queued)\<rparr>)"
  by (simp add: stream_finish_def sample_deps_def sample_quinn_def quinn_conn.defs)

text \<open>Two bytes to read, and then the stream is finished.\<close>

lemma sample_reads_two:
  assumes "2 < length buf" "sm_input (cs_conn s) = [a, b]" "i \<notin> cs_finished_reads s"
  shows "\<exists>buf'. stream_read sample_deps i buf s = Some (Inr (Read 2), buf',
      s\<lparr>cs_dirty := True, cs_conn := (cs_conn s)\<lparr>sm_input := []\<rparr>, cs_finished_reads := insert i (cs_finished_reads s)\<rparr>) \<and> take 2 buf' = [a, b]"
proof -
  let ?c = "(cs_conn s)\<lparr>sm_input := []\<rparr>"
  have q: "qc_chunks_next sample_deps j n c = (if sm_input c = [] then (Inr None, c)
      else (Inr (Some (take (min n 2) (sm_input c))), c\<lparr>sm_input := drop (min n 2) (sm_input c)\<rparr>))"
    "qc_read sample_deps j ordered c = (Inr (), c)" "qc_chunks_finalize sample_deps j c = c" for j n c ordered
    by (simp_all add: sample_deps_def sample_quinn_def quinn_conn.defs)
  have m: "min (length buf) 2 = 2" using assms(1) by simp
  have "length (copy_at buf 0 [a, b]) = length buf" using assms(1) by simp
  then have "read_chunks sample_deps i ?c (copy_at buf 0 [a, b]) 2 = Some (?c, copy_at buf 0 [a, b], 2, True, None)"
    using assms(1) by (subst read_chunks.simps) (simp add: q)
  moreover have "read_chunks sample_deps i (cs_conn s) buf 0 = read_chunks sample_deps i ?c (copy_at buf 0 [a, b]) 2"
    using assms(1,2) by (subst read_chunks.simps) (simp add: q m, auto simp: numeral_2_eq_2)
  ultimately have r: "read_chunks sample_deps i (cs_conn s) buf 0 = Some (?c, copy_at buf 0 [a, b], 2, True, None)" by simp
  have "take 2 (copy_at buf 0 [a, b]) = [a, b]" by (simp add: copy_at_def)
  moreover have "buf \<noteq> []" using assms(1) by auto
  ultimately show ?thesis using assms(3) r by (simp add: stream_read_def q)
qed

lemma sample_applies_read:
  assumes "sm_input (cs_conn s) = [a, b]" "i \<notin> cs_finished_reads s"
  shows "apply_cmd sample_deps now (ReadToEnd i ECHO_LIMIT r) pk s =
      Some ([BytesReply r (Inr [a, b])], pk, s\<lparr>cs_dirty := True, cs_conn := (cs_conn s)\<lparr>sm_input := []\<rparr>\<rparr>)"
    and "apply_cmd sample_deps now (ReadCmd i (16 * 1024) r) pk s =
      Some ([BytesReply r (Inr [a, b])], pk, s\<lparr>cs_dirty := True, cs_conn := (cs_conn s)\<lparr>sm_input := []\<rparr>, cs_finished_reads := insert i (cs_finished_reads s)\<rparr>)"
proof -
  let ?s = "s\<lparr>cs_dirty := True, cs_conn := (cs_conn s)\<lparr>sm_input := []\<rparr>, cs_finished_reads := insert i (cs_finished_reads s)\<rparr>"
  have e: "forget_recv i ?s = s\<lparr>cs_dirty := True, cs_conn := (cs_conn s)\<lparr>sm_input := []\<rparr>\<rparr>"
    using assms(2) by (simp add: forget_recv_def)
  let ?p = "\<lparr>pr_buf = [], pr_end_limit = Some ECHO_LIMIT, pr_max = None, pr_reply = r\<rparr>"
  have "2 < length (replicate (read_request ?p) (0 :: u8))" by (simp add: read_request_def saturating_add_def ECHO_LIMIT_def READ_CHUNK_def)
  from sample_reads_two [OF this assms] obtain buf' where b: "stream_read sample_deps i (replicate (read_request ?p) 0) s = Some (Inr (Read 2), buf', ?s)"
    "take 2 buf' = [a, b]" by blast
  have "over_limit (?p\<lparr>pr_buf := [a, b]\<rparr>) = None" by (simp add: over_limit_def ECHO_LIMIT_def)
  moreover have "pump_read sample_deps i (?p\<lparr>pr_buf := [a, b]\<rparr>) ?s = Some (Some (BytesReply r (Inr [a, b])), ?p, forget_recv i ?s)"
    by (subst pump_read.simps) (simp add: stream_read_def)
  ultimately have "pump_read sample_deps i ?p s = Some (Some (BytesReply r (Inr [a, b])), ?p, forget_recv i ?s)"
    using b by (subst pump_read.simps) simp
  then show "apply_cmd sample_deps now (ReadToEnd i ECHO_LIMIT r) pk s =
      Some ([BytesReply r (Inr [a, b])], pk, s\<lparr>cs_dirty := True, cs_conn := (cs_conn s)\<lparr>sm_input := []\<rparr>\<rparr>)"
    by (simp add: offer_read_def e)
  let ?p = "\<lparr>pr_buf = [], pr_end_limit = None, pr_max = Some (max (16 * 1024) 1), pr_reply = r\<rparr>"
  have "2 < length (replicate (read_request ?p) (0 :: u8))" by (simp add: read_request_def READ_CHUNK_def max_def word_le_nat_alt)
  from sample_reads_two [OF this assms] obtain buf' where b: "stream_read sample_deps i (replicate (read_request ?p) 0) s = Some (Inr (Read 2), buf', ?s)"
    "take 2 buf' = [a, b]" by blast
  have "over_limit (?p\<lparr>pr_buf := [a, b]\<rparr>) = None" by (simp add: over_limit_def)
  then have "pump_read sample_deps i ?p s = Some (Some (BytesReply r (Inr [a, b])), ?p, ?s)"
    using b by (subst pump_read.simps) simp
  then show "apply_cmd sample_deps now (ReadCmd i (16 * 1024) r) pk s = Some ([BytesReply r (Inr [a, b])], pk, ?s)"
    by (simp add: offer_read_def)
qed

text \<open>A stream that is known to be finished reads as empty.\<close>

lemma sample_applies_read_end:
  "i \<in> cs_finished_reads s \<Longrightarrow> apply_cmd sample_deps now (ReadCmd i (16 * 1024) r) pk s = Some ([BytesReply r (Inr [])], pk, s)"
  by (simp add: offer_read_def pump_read.simps [of _ i] stream_read_def)

definition two_bytes :: sample_conn where
  "two_bytes = idle_conn\<lparr>sm_streams := [4], sm_input := [7, 8]\<rparr>"

definition working_server :: "(sample_conn, nat) driver" where
  "working_server = (driver_new (sample_server\<lparr>ep_connections := [(sample_handle, conn_new two_bytes)]\<rparr>) 32)
     \<lparr>dv_parked := [(sample_handle, parked_new)]\<rparr>"

lemma working_server_serves: "serving (conn_new two_bytes) [] [] (working_server, True)"
  by (simp add: serving_def at_work_def working_server_def driver_new_def sample_server_def endpoint_literal_def)

abbreviation echo_round :: "server_move world_op list" where
  "echo_round \<equiv> [Poll 0, Poll 0, serves_next, Poll 0]"

lemma sample_tags [simp]:
  "tg_handle (cmd_tagged (connection_cmds sample_connection) x) = sample_handle" "tg_cmd (cmd_tagged cmds x) = x"
  "tg_handle (cmd_tagged (cmd_sender_new h) x) = h"
  by (simp_all add: cmd_tagged_def connection_cmds_def cmd_sender_new_def)

lemmas sample_state_defs = two_bytes_def idle_conn_def conn_new_def clear_dirty_def quiet_def

lemma echo_session_runs:
  "\<exists>u. world_run sample_deps sample_host (world_new (working_server, True))
       (Spawn (EchoServer sample_connection) # echo_round @ echo_round @ echo_round @ echo_round @ [Poll 0]) = Moved u
     \<and> w_tasks u ! 0 = Some (Ready (VMain (Inr ())))"
proof -
  let ?p = "program_future sample_deps (EchoServer sample_connection)" and ?n = "Ready (VMain (Inr ()))"
  let ?w = "(world_new (working_server, True))\<lparr>w_tasks := [Some ?p]\<rparr>"
  define d where "d = Took (cmd_tagged (connection_cmds sample_connection) (CloseCmd 0 []))"
  define d4 where "d4 = asks sample_connection (Finish 4 3) 3 (UnitReply 3 (Inr ())) @ [d]"
  define d3 where "d3 = asks sample_connection (Write 4 [7, 8] 2) 2 (UnitReply 2 (Inr ())) @ d4"
  define d2 where "d2 = asks sample_connection (ReadToEnd 4 ECHO_LIMIT 1) 1 (BytesReply 1 (Inr [7, 8])) @ d3"
  have "closing sample_deps sample_connection d"
    by (simp add: d_def closing_def varint_def sample_deps_def sample_quinn_def quinn_conn.defs)
  then have "ends (echo_server_session sample_deps sample_connection) (asks sample_connection (AcceptBi 0) 0 (StreamReply 0 (Inr 4)) @ d2) (Inr ())"
    unfolding echo_server_ends d2_def d3_def d4_def by blast
  then have p: "path ?p (asks sample_connection (AcceptBi 0) 0 (StreamReply 0 (Inr 4)) @ d2) ?n"
    unfolding program_future.simps by (subst ends_and_then) (auto simp: path_simps)
  have w0: "ahead 0 (asks sample_connection (AcceptBi 0) 0 (StreamReply 0 (Inr 4)) @ d2) ?n (conn_new two_bytes) [] [] 0 [None] ?w"
    using p working_server_serves by (auto simp: ahead_def world_new_def)
  define s1 where "s1 = clear_dirty ((conn_new two_bytes)\<lparr>cs_conn := two_bytes\<lparr>sm_streams := []\<rparr>\<rparr>)"
  define s2 where "s2 = clear_dirty (s1\<lparr>cs_dirty := True, cs_conn := (cs_conn s1)\<lparr>sm_input := []\<rparr>\<rparr>)"
  define s3 where "s3 = clear_dirty (s2\<lparr>cs_dirty := True\<rparr>)"
  define s4 where "s4 = clear_dirty (s3\<lparr>cs_dirty := True, cs_send_fins := (cs_send_fins s3)(4 \<mapsto> Queued)\<rparr>)"
  note [simp] = sample_state_defs and [simp del] = apply_cmd.simps
  have "\<exists>w1. world_run sample_deps sample_host ?w echo_round = Moved w1 \<and> ahead 0 d2 ?n s1 [] ([] @ [StreamReply 0 (Inr 4)]) (Suc 0) [None] w1"
    unfolding s1_def by (rule ahead_asks [OF w0]) (simp_all add: sample_applies_accept)
  then obtain w1 where w1: "world_run sample_deps sample_host ?w echo_round = Moved w1"
    "ahead 0 d2 ?n s1 [] [StreamReply 0 (Inr 4)] 1 [None] w1" by auto
  have "\<exists>w2. world_run sample_deps sample_host w1 echo_round = Moved w2
      \<and> ahead 0 d3 ?n s2 [] ([StreamReply 0 (Inr 4)] @ [BytesReply 1 (Inr [7, 8])]) (Suc 1) [None] w2"
    unfolding s2_def by (rule ahead_asks [OF w1(2) [unfolded d2_def]]) (simp_all add: s1_def sample_applies_read)
  then obtain w2 where w2: "world_run sample_deps sample_host w1 echo_round = Moved w2"
    "ahead 0 d3 ?n s2 [] [StreamReply 0 (Inr 4), BytesReply 1 (Inr [7, 8])] 2 [None] w2" by (auto simp: numeral_2_eq_2)
  have "\<exists>w3. world_run sample_deps sample_host w2 echo_round = Moved w3
      \<and> ahead 0 d4 ?n s3 [] ([StreamReply 0 (Inr 4), BytesReply 1 (Inr [7, 8])] @ [UnitReply 2 (Inr ())]) (Suc 2) [None] w3"
    unfolding s3_def by (rule ahead_asks [OF w2(2) [unfolded d3_def]]) (simp_all add: s2_def s1_def sample_applies_write)
  then obtain w3 where w3: "world_run sample_deps sample_host w2 echo_round = Moved w3"
    "ahead 0 d4 ?n s3 [] [StreamReply 0 (Inr 4), BytesReply 1 (Inr [7, 8]), UnitReply 2 (Inr ())] 3 [None] w3" by (auto simp: numeral_3_eq_3)
  have "\<exists>w4. world_run sample_deps sample_host w3 echo_round = Moved w4
      \<and> ahead 0 [d] ?n s4 [] ([StreamReply 0 (Inr 4), BytesReply 1 (Inr [7, 8]), UnitReply 2 (Inr ())] @ [UnitReply 3 (Inr ())]) (Suc 3) [None] w4"
    unfolding s4_def by (rule ahead_asks [OF w3(2) [unfolded d4_def]]) (simp_all add: s3_def s2_def s1_def sample_applies_finish)
  then obtain w4 as r where w4: "world_run sample_deps sample_host w3 echo_round = Moved w4" "ahead 0 [d] ?n s4 [] as r [None] w4" by blast
  from ahead_took [OF w4(2) [unfolded d_def]] obtain u q where
    u: "world_exec sample_deps sample_host w4 (Poll 0) = Moved u" "ahead 0 [] ?n s4 q as r [None] u" by (auto simp: CMD_CHANNEL_CAP_def)
  then have "w_tasks u ! 0 = Some ?n" by (auto simp: ahead_def elim: path_NilE)
  moreover have "world_run sample_deps sample_host ?w (echo_round @ echo_round @ echo_round @ echo_round @ [Poll 0]) = Moved u"
    unfolding world_run_cat [OF w1(1)] world_run_cat [OF w2(1)] world_run_cat [OF w3(1)] world_run_cat [OF w4(1)] using u(1) by simp
  ultimately show ?thesis by (simp add: world_new_def)
qed

end
