(* ===== verification/Logs.thy ===== *)
theory Logs
  imports Client
begin

text \<open>
  The drivers only ever add to their logs: what was sent, answered, published or delivered stays so.
\<close>

section \<open>The server's driver\<close>

definition extends :: "effect list \<Rightarrow> effect list \<Rightarrow> bool" where
  "extends es fs \<longleftrightarrow> (\<exists>gs. fs = es @ gs)"

lemma extends_refl [simp]: "extends es es"
  by (simp add: extends_def)

lemma extends_add [simp]: "extends es fs \<Longrightarrow> extends es (fs @ gs)"
  by (auto simp: extends_def)

lemma extends_trans: "extends es fs \<Longrightarrow> extends fs gs \<Longrightarrow> extends es gs"
  by (auto simp: extends_def)

lemma extends_answers: "extends es fs \<Longrightarrow> set (answers es) \<subseteq> set (answers fs)"
  by (auto simp: extends_def)

lemma emit_log [simp]: "dv_log (emit es d) = dv_log d @ es"
  by (simp add: emit_def)

lemma with_conn_log: "with_conn ch f otherwise d = Some d' \<Longrightarrow> extends (dv_log d) (dv_log d')"
  by (auto simp: with_conn_def bind_eq_Some_conv split: option.splits)

lemma on_event_log: "on_event D e d = Some d' \<Longrightarrow> extends (dv_log d) (dv_log d')"
  by (cases e) (auto simp: surface_def on_lost_def Let_def split: if_splits option.splits prod.splits dest: with_conn_log)

lemma drain_events_log:
  assumes "drain_events D (b, d) = Some (b', d')"
  shows "extends (dv_log d) (dv_log d')"
proof -
  have "extends (dv_log d) (dv_log (snd (b', d')))"
  proof (rule while_some_invariant [OF assms [unfolded drain_events_def], where I = "\<lambda>pd. extends (dv_log d) (dv_log (snd pd))"])
    fix u x u' v assume a: "extends (dv_log d) (dv_log (snd u))" "next_event u = (Some x, u')" "react D x u' = Some v"
    have "dv_log (snd u') = dv_log (snd u)" using a(2) by (auto simp: next_event_def split: prod.splits)
    with a(1,3) show "extends (dv_log d) (dv_log (snd v))"
      by (cases u') (auto simp: react_def, metis on_event_log extends_trans)
  qed (auto simp: next_event_def split: prod.splits)
  then show ?thesis by simp
qed

lemma pump_log:
  assumes "pump D iter clk d = Some d'"
  shows "extends (dv_log d) (dv_log d')"
proof (rule pump.raw_induct [where P = "\<lambda>D iter clk d d'. extends (dv_log d) (dv_log d')", OF _ assms], goal_cases)
  case (1 pump D iter clk d d')
  obtain b d1 progressed d2 where e: "drain_events D (False, d) = Some (b, d1)" and f: "flush_transmits D iter (clk 0) (b, d1) = Some (progressed, d2)"
    and p: "(if progressed then pump D iter (\<lambda>n. clk (Suc n)) d2 else Some d2) = Some d'"
    using 1(2) by (auto simp: bind_eq_Some_conv)
  have "extends (dv_log d) (dv_log d2)"
    using drain_events_log [OF e] f by (auto simp: flush_transmits_def bind_eq_Some_conv)
  with p 1(1) show ?case by (auto split: if_splits intro: extends_trans)
qed

lemma driver_exec_log:
  assumes "driver_exec D iter d op = Some d'"
  shows "extends (dv_log d) (dv_log d')"
proof (cases op)
  case (NextCommand now clk)
  with assms show ?thesis
    by (cases "dv_cmds d") (auto simp: bind_eq_Some_conv on_command_def dest!: with_conn_log pump_log intro: extends_trans)
next
  case (Deliver clk)
  have "extends (dv_log d) (dv_log (deliver d))" by (auto simp: deliver_def split: list.splits)
  with Deliver assms show ?thesis by (auto split: if_splits dest: pump_log intro: extends_trans)
qed (use assms in \<open>auto simp: bind_eq_Some_conv split: if_splits dest: pump_log\<close>)

lemma driver_drop_log: "extends (dv_log d) (dv_log (driver_drop d))"
  by (simp add: driver_drop_def)

section \<open>The client's driver\<close>

lemma client_emit_log [simp]: "cd_log (client_emit es d) = cd_log d @ es"
  by (simp add: client_emit_def)

lemma take_connected_log [simp]: "cd_log (take_connected r d) = cd_log d"
  by (simp add: take_connected_def)

lemma with_own_log: "with_own f otherwise d = Some d' \<Longrightarrow> extends (cd_log d) (cd_log d')"
  by (auto simp: with_own_def bind_eq_Some_conv split: option.splits)

lemma client_on_event_log: "client_on_event D e d = Some (b, d') \<Longrightarrow> extends (cd_log d) (cd_log d')"
  by (cases e) (auto simp: client_on_event_def client_surface_def client_lost_def Let_def split: if_splits prod.splits dest: with_own_log)

lemma client_drain_events_log:
  assumes "client_drain_events D (b, l, d) = Some (b', l', d')"
  shows "extends (cd_log d) (cd_log d')"
proof -
  have "extends (cd_log d) (cd_log (snd (snd (b', l', d'))))"
  proof (rule while_some_invariant [OF assms [unfolded client_drain_events_def], where I = "\<lambda>pd. extends (cd_log d) (cd_log (snd (snd pd)))"])
    fix u x u' v assume a: "extends (cd_log d) (cd_log (snd (snd u)))" "client_next_event u = (Some x, u')" "client_react D x u' = Some v"
    have "cd_log (snd (snd u')) = cd_log (snd (snd u))" using a(2) by (auto simp: client_next_event_def split: prod.splits)
    with a(1,3) show "extends (cd_log d) (cd_log (snd (snd v)))"
      by (cases u') (auto simp: client_react_def, metis client_on_event_log extends_trans)
  qed (auto simp: client_next_event_def split: prod.splits)
  then show ?thesis by simp
qed

lemma client_pump_log:
  assumes "client_pump D iter clk d = Some y"
  shows "extends (cd_log d) (cd_log (snd y))"
proof (rule client_pump.raw_induct [where P = "\<lambda>D iter clk d y. extends (cd_log d) (cd_log (snd y))", OF _ assms], goal_cases)
  case (1 pump D iter clk d y)
  obtain progressed lost d1 sent core where e: "client_drain_events D (False, False, d) = Some (progressed, lost, d1)"
    and f: "flush D iter (clk 0) (cd_core d1) [] = Some (sent, core)"
    using 1(2) by (auto simp: bind_eq_Some_conv)
  let ?d = "client_emit (map send_to sent) (d1\<lparr>cd_core := core\<rparr>)"
  have "extends (cd_log d) (cd_log ?d)" using client_drain_events_log [OF e] by simp
  moreover have "extends (cd_log ?d) (cd_log (snd y))" if "pump D iter (\<lambda>n. clk (Suc n)) ?d = Some y" by (rule 1(1) [OF that])
  ultimately show ?case using 1(2) e f by (auto simp: Let_def split: if_splits intro: extends_trans)
qed

lemma client_drop_log: "extends (cd_log d) (cd_log (client_drop d))"
  by (simp add: client_drop_def)

lemma client_turn_log: "client_turn D iter clk d = Some d' \<Longrightarrow> extends (cd_log d) (cd_log d')"
  by (auto simp: client_turn_def dest!: client_pump_log intro: extends_trans [OF _ client_drop_log])

lemma client_exec_log:
  assumes "client_exec D iter d op = Some d'"
  shows "extends (cd_log d) (cd_log d')"
proof (cases op)
  case (ClientNextCommand now clk)
  show ?thesis
  proof (cases "cd_cmds d")
    case (Cons t ts)
    then obtain d1 where c: "client_on_command D now t (d\<lparr>cd_cmds := ts\<rparr>) = Some d1" "client_turn D iter clk d1 = Some d'"
      using assms ClientNextCommand by (auto simp: bind_eq_Some_conv)
    have "extends (cd_log d) (cd_log d1)" using c(1) by (auto simp: client_on_command_def split: if_splits dest: with_own_log)
    with client_turn_log [OF c(2)] show ?thesis by (rule extends_trans [rotated])
  qed (use assms ClientNextCommand in simp)
qed (use assms client_drop_log [of d] in \<open>auto simp: bind_eq_Some_conv split: if_splits dest: client_turn_log\<close>)

end
