(* ===== verification/Programs.thy ===== *)
theory Programs
  imports AtWork Logs
begin

text \<open>
  The example programs beside a driver. What a task does in a run is a path of its future, and what it hears
  is in the driver's log; so what the echo sessions and the full-duplex pattern end with can be read off
  what the driver answered.
\<close>

section \<open>What a task has done\<close>

definition heard_in :: "effect list \<Rightarrow> deed list \<Rightarrow> bool" where
  "heard_in es ds \<longleftrightarrow> (\<forall>a. Heard a \<in> set ds \<longrightarrow> a \<in> set (answers es))"

lemma heard_in_simps [simp]:
  "heard_in es []" "heard_in es (ds @ ds') \<longleftrightarrow> heard_in es ds \<and> heard_in es ds'"
  "heard_in es (Heard a # ds) \<longleftrightarrow> a \<in> set (answers es) \<and> heard_in es ds"
  "heard_in es (Created_channel r # ds) \<longleftrightarrow> heard_in es ds" "heard_in es (Took t # ds) \<longleftrightarrow> heard_in es ds"
  "heard_in es (Refused t # ds) \<longleftrightarrow> heard_in es ds"
  by (auto simp: heard_in_def)

lemma heard_in_extends: "heard_in es ds \<Longrightarrow> extends es fs \<Longrightarrow> heard_in fs ds"
  using extends_answers by (auto simp: heard_in_def)

text \<open>
  The deeds of task \<open>k\<close> in a run, read off the run itself: what each of its polls does, in order. A poll that finds the
  command channel full, or no answer yet, does nothing.
\<close>

fun future_deeds :: "('d, 'op) host \<Rightarrow> 'd world \<Rightarrow> handle_value future \<Rightarrow> deed list" where
  "future_deeds H w (Ready v) = []"
| "future_deeds H w (Channel f) = [Created_channel (w_next w)]"
| "future_deeds H w (Send t f) =
     (if \<not> h_running H (w_host w) then [Refused t]
      else if length (h_queue H (w_host w)) < CMD_CHANNEL_CAP then [Took t] else [])"
| "future_deeds H w (Await r f) = (case received (h_log H (w_host w)) r of None \<Rightarrow> [] | Some a \<Rightarrow> [Heard a])"

fun op_deeds :: "('d, 'op) host \<Rightarrow> nat \<Rightarrow> 'd world \<Rightarrow> 'op world_op \<Rightarrow> deed list" where
  "op_deeds H k w (Poll j) =
     (if j = k \<and> k < length (w_tasks w) then case w_tasks w ! k of None \<Rightarrow> [] | Some m \<Rightarrow> future_deeds H w m else [])"
| "op_deeds H k w _ = []"

fun deeds ::
  "('c, 'v, 'n, 'z) quinn_conn_scheme \<Rightarrow> ('d, 'op) host \<Rightarrow> nat \<Rightarrow> 'd world \<Rightarrow> 'op world_op list \<Rightarrow> deed list" where
  "deeds Q H k w [] = []"
| "deeds Q H k w (op # ops) =
     op_deeds H k w op @ (case world_exec Q H w op of Moved w' \<Rightarrow> deeds Q H k w' ops | _ \<Rightarrow> [])"

definition channels_of :: "deed list \<Rightarrow> reply list" where
  "channels_of ds = List.map_filter (\<lambda>d. case d of Created_channel r \<Rightarrow> Some r | _ \<Rightarrow> None) ds"

lemma channels_of_simps [simp]:
  "channels_of [] = []" "channels_of (Created_channel r # ds) = r # channels_of ds" "channels_of (Took t # ds) = channels_of ds"
  "channels_of (Refused t # ds) = channels_of ds" "channels_of (Heard a # ds) = channels_of ds"
  "channels_of (ds @ ds') = channels_of ds @ channels_of ds'"
  by (simp_all add: channels_of_def map_filter_def)

lemma path_one:
  "path (Channel f) [Created_channel r] (f r)" "path (Send t g) [Took t] (g True)" "path (Send t g) [Refused t] (g False)"
  by (rule path.intros, rule path.stay)+

text \<open>A task creates its channels in order, none of them known before.\<close>

lemma exec_next: "world_exec Q H w op = Moved w' \<Longrightarrow> w_next w \<le> w_next w' \<and> (channels_of (op_deeds H k w op) = []
    \<or> channels_of (op_deeds H k w op) = [w_next w] \<and> w_next w' = Suc (w_next w))"
proof (cases op)
  case (Poll j)
  assume "world_exec Q H w op = Moved w'"
  with Poll show ?thesis
  proof (cases "j < length (w_tasks w) \<and> w_tasks w ! j \<noteq> None")
    case True
    then obtain m where "w_tasks w ! j = Some m" by blast
    with True Poll \<open>world_exec Q H w op = Moved w'\<close> show ?thesis by (cases m) (auto split: if_splits option.splits)
  qed (auto split: if_splits option.splits)
qed (auto split: option.splits)

lemma run_next:
  "world_run Q H w ops = Moved u \<Longrightarrow> sorted_wrt (<) (channels_of (deeds Q H k w ops))
     \<and> (\<forall>r\<in>set (channels_of (deeds Q H k w ops)). w_next w \<le> r \<and> r < w_next u) \<and> w_next w \<le> w_next u"
proof (induction ops arbitrary: w)
  case (Cons op ops)
  then obtain w1 where w1: "world_exec Q H w op = Moved w1" "world_run Q H w1 ops = Moved u" by (auto split: moved.splits)
  from Cons.IH [OF w1(2)] exec_next [OF w1(1), of k] show ?case by (auto simp: w1(1) sorted_wrt_append)
qed simp

text \<open>A host whose log only grows, and does not change when a command is queued.\<close>

locale log_host =
  fixes H :: "('d, 'op) host"
  assumes log_moves: "h_exec H d op = Some d' \<Longrightarrow> extends (h_log H d) (h_log H d')"
    and log_queue: "h_log H (h_set_queue H q d) = h_log H d"
begin

lemma exec_log: "world_exec Q H w op = Moved w' \<Longrightarrow> extends (h_log H (w_host w)) (h_log H (w_host w'))"
proof (cases op)
  case (Poll k)
  assume "world_exec Q H w op = Moved w'"
  with Poll obtain m where "w' = w \<or> poll_future H w k m = Moved w'" by (auto split: if_splits option.splits)
  then show ?thesis by (cases m) (auto simp: log_queue split: if_splits option.splits)
qed (auto simp: log_queue log_moves split: option.splits)

lemma run_log: "world_run Q H w ops = Moved u \<Longrightarrow> extends (h_log H (w_host w)) (h_log H (w_host u))"
proof (induction ops arbitrary: w)
  case (Cons op ops)
  then obtain w1 where w1: "world_exec Q H w op = Moved w1" "world_run Q H w1 ops = Moved u" by (auto split: moved.splits)
  from exec_log [OF w1(1)] Cons.IH [OF w1(2)] show ?case by (rule extends_trans)
qed simp

lemma poll_path:
  assumes "poll_future H w k m = Moved w'" "k < length (w_tasks w)"
  shows "length (w_tasks w') = length (w_tasks w) \<and> (\<forall>j. j \<noteq> k \<longrightarrow> w_tasks w' ! j = w_tasks w ! j)
    \<and> (\<forall>m'. w_tasks w ! k = Some m \<longrightarrow> w_tasks w' ! k = Some m' \<longrightarrow>
         path m (future_deeds H w m) m' \<and> heard_in (h_log H (w_host w)) (future_deeds H w m))"
proof (cases m)
  case (Await r f)
  show ?thesis
  proof (cases "received (h_log H (w_host w)) r")
    case None
    with assms Await show ?thesis by (auto intro: path.stay)
  next
    case (Some a)
    then have a: "a \<in> set (answers (h_log H (w_host w)))" "answer_to a = r" by (auto simp: received_def find_Some_iff)
    with assms Await Some show ?thesis by (auto split: option.splits intro: path.intros)
  qed
qed (use assms in \<open>auto split: if_splits intro: path.stay path_one\<close>)

text \<open>One step: the task goes along its deeds, or is cancelled for good.\<close>

lemma exec_path:
  assumes x: "world_exec Q H w op = Moved w'" and k: "k < length (w_tasks w)"
  shows "k < length (w_tasks w')" and "w_tasks w ! k = None \<Longrightarrow> w_tasks w' ! k = None"
    and "w_tasks w ! k = Some m \<Longrightarrow> w_tasks w' ! k = Some n \<Longrightarrow>
      path m (op_deeds H k w op) n \<and> heard_in (h_log H (w_host w')) (op_deeds H k w op)"
proof -
  have "k < length (w_tasks w') \<and> (w_tasks w ! k = None \<longrightarrow> w_tasks w' ! k = None)
    \<and> (w_tasks w ! k = Some m \<longrightarrow> w_tasks w' ! k = Some n \<longrightarrow> path m (op_deeds H k w op) n \<and> heard_in (h_log H (w_host w)) (op_deeds H k w op))"
  proof (cases op)
    case (Poll j)
    show ?thesis
    proof (cases "j < length (w_tasks w) \<and> w_tasks w ! j \<noteq> None")
      case True
      then obtain l where l: "w_tasks w ! j = Some l" "poll_future H w j l = Moved w'" using x Poll by auto
      from poll_path [OF l(2)] True l(1) k Poll show ?thesis by (cases "j = k") (auto intro: path.stay)
    qed (use x Poll k in \<open>auto split: if_splits option.splits intro: path.stay\<close>)
  next
    case (Cancel j)
    with x k show ?thesis by (cases "j = k") (auto intro: path.stay)
  qed (use x k in \<open>auto split: option.splits simp: nth_append intro: path.stay\<close>)
  then show "k < length (w_tasks w')" and "w_tasks w ! k = None \<Longrightarrow> w_tasks w' ! k = None"
    and "w_tasks w ! k = Some m \<Longrightarrow> w_tasks w' ! k = Some n \<Longrightarrow>
      path m (op_deeds H k w op) n \<and> heard_in (h_log H (w_host w')) (op_deeds H k w op)"
    using heard_in_extends [OF _ exec_log [OF x]] by blast+
qed

lemma run_cancelled: "world_run Q H w ops = Moved u \<Longrightarrow> k < length (w_tasks w) \<Longrightarrow> w_tasks w ! k = None \<Longrightarrow> w_tasks u ! k = None"
proof (induction ops arbitrary: w)
  case (Cons op ops)
  then obtain w1 where "world_exec Q H w op = Moved w1" "world_run Q H w1 ops = Moved u" by (auto split: moved.splits)
  with Cons exec_path(1,2) show ?case by blast
qed simp

lemma run_path:
  "world_run Q H w ops = Moved u \<Longrightarrow> k < length (w_tasks w) \<Longrightarrow> w_tasks w ! k = Some m \<Longrightarrow> w_tasks u ! k = Some n \<Longrightarrow>
     path m (deeds Q H k w ops) n \<and> heard_in (h_log H (w_host u)) (deeds Q H k w ops)"
proof (induction ops arbitrary: w m)
  case (Cons op ops)
  then obtain w1 where w1: "world_exec Q H w op = Moved w1" "world_run Q H w1 ops = Moved u" by (auto split: moved.splits)
  have k: "k < length (w_tasks w1)" using exec_path(1) [OF w1(1) Cons.prems(2)] .
  then obtain l where l: "w_tasks w1 ! k = Some l" using run_cancelled [OF w1(2) k] Cons.prems(4) by fastforce
  note step = exec_path(3) [OF w1(1) Cons.prems(2,3) l] and rest = Cons.IH [OF w1(2) k l Cons.prems(4)]
  have "path m (op_deeds H k w op @ deeds Q H k w1 ops) n" using step rest path_trans by blast
  moreover have "heard_in (h_log H (w_host u)) (op_deeds H k w op)" using step heard_in_extends [OF _ run_log [OF w1(2)]] by blast
  ultimately show ?case using rest by (simp add: w1(1))
qed (auto intro: path.stay)

text \<open>
  From the moment a program is started: its deeds are a path of the program, the channels it creates are new and in
  order, and what it hears on them was answered in the run, if no channel had been answered before it existed.
\<close>

lemma program_path:
  assumes r: "world_run Q H w (Spawn p # ops) = Moved u" and n: "w_tasks u ! length (w_tasks w) = Some n"
    and ds: "ds = deeds Q H (length (w_tasks w)) w (Spawn p # ops)"
  shows "path (program_future Q p) ds n" "heard_in (h_log H (w_host u)) ds"
    "sorted_wrt (<) (channels_of ds)" "\<forall>r\<in>set (channels_of ds). w_next w \<le> r"
proof -
  let ?w = "w\<lparr>w_tasks := w_tasks w @ [Some (program_future Q p)]\<rparr>"
  have "world_run Q H ?w ops = Moved u" using r by simp
  from run_path [OF this, of "length (w_tasks w)"] n ds
  show "path (program_future Q p) ds n" "heard_in (h_log H (w_host u)) ds" by simp_all
  show "sorted_wrt (<) (channels_of ds)" "\<forall>r\<in>set (channels_of ds). w_next w \<le> r" using run_next [OF r] ds by blast+
qed

end

lemma server_moves_log: "server_moves D iter s m = Some s' \<Longrightarrow> extends (dv_log (fst s)) (dv_log (fst s'))"
  by (induction D iter s m rule: server_moves.induct) (auto simp: driver_drop_log dest: driver_exec_log simp del: driver_exec.simps)

interpretation server_log: log_host "server_host D iter" for D :: "('c, 'v, 'n, 'e, 'i) deps" and iter
  by unfold_locales (auto simp: server_host_def dest: server_moves_log split: prod.splits)

interpretation client_log: log_host "client_host D iter" for D :: "('c, 'v, 'n, 'e, 'i) deps" and iter
proof
  fix d d' :: "('c, 'e) client_driver" and m q
  show "h_exec (client_host D iter) d m = Some d' \<Longrightarrow> extends (h_log (client_host D iter) d) (h_log (client_host D iter) d')"
    by (cases m) (auto simp: client_host_def client_exec_log simp del: client_exec.simps)
  show "h_log (client_host D iter) (h_set_queue (client_host D iter) q d) = h_log (client_host D iter) d" by (simp add: client_host_def)
qed

section \<open>Joining the two halves\<close>

text \<open>
  \<open>exchange\<close> joins its two branches in one task: \<open>try_join!\<close> polls them in turn, gives up with the first error,
  dropping both, and otherwise ends when both have. The branches are tasks \<open>i\<close> and \<open>j\<close>; a turn polls one of
  them, and between turns anything else may happen.
\<close>

fun branch_error :: "handle_value future option \<Rightarrow> conn_error option" where
  "branch_error (Some (Ready (VBytes (Inl e)))) = Some e"
| "branch_error (Some (Ready (VUnit (Inl e)))) = Some e"
| "branch_error _ = None"

fun both_done :: "handle_value future option \<Rightarrow> handle_value future option \<Rightarrow> bytes option" where
  "both_done (Some (Ready (VBytes (Inr response)))) (Some (Ready (VUnit (Inr _)))) = Some response"
| "both_done _ _ = None"

datatype 'op exchange_event = Elsewhere "'op world_op" | ReceiveTurn | SendTurn

definition exchange_turn ::
  "('c, 'v, 'n, 'z) quinn_conn_scheme \<Rightarrow> ('d, 'op) host \<Rightarrow> nat \<Rightarrow> nat \<Rightarrow> nat \<Rightarrow> 'd world \<Rightarrow> 'd world moved \<times> (conn_error + bytes) option" where
  "exchange_turn Q H i j k w =
     (case world_exec Q H w (Poll k) of
        Moved w' \<Rightarrow>
          (case branch_error (w_tasks w' ! k) of
             Some e \<Rightarrow> (world_run Q H w' [Cancel i, Cancel j], Some (Inl e))
           | None \<Rightarrow> (Moved w', map_option Inr (both_done (w_tasks w' ! i) (w_tasks w' ! j))))
      | x \<Rightarrow> (x, None))"

fun exchange_run ::
  "('c, 'v, 'n, 'z) quinn_conn_scheme \<Rightarrow> ('d, 'op) host \<Rightarrow> nat \<Rightarrow> nat \<Rightarrow> 'd world \<Rightarrow> 'op exchange_event list
     \<Rightarrow> 'd world moved \<times> (conn_error + bytes) option" where
  "exchange_run Q H i j w [] = (Moved w, None)"
| "exchange_run Q H i j w (Elsewhere op # evs) =
     (case world_exec Q H w op of Moved w' \<Rightarrow> exchange_run Q H i j w' evs | x \<Rightarrow> (x, None))"
| "exchange_run Q H i j w (ReceiveTurn # evs) =
     (case exchange_turn Q H i j i w of (Moved w', None) \<Rightarrow> exchange_run Q H i j w' evs | r \<Rightarrow> r)"
| "exchange_run Q H i j w (SendTurn # evs) =
     (case exchange_turn Q H i j j w of (Moved w', None) \<Rightarrow> exchange_run Q H i j w' evs | r \<Rightarrow> r)"

text \<open>The branches are started, and joined.\<close>

definition exchange ::
  "('c, 'v, 'n, 'z) quinn_conn_scheme \<Rightarrow> ('d, 'op) host \<Rightarrow> send_stream \<Rightarrow> recv_stream \<Rightarrow> 'd world \<Rightarrow> 'op exchange_event list
     \<Rightarrow> 'd world moved \<times> (conn_error + bytes) option" where
  "exchange Q H send recv w evs =
     (case world_run Q H w [Spawn (ExchangeReceive recv), Spawn (ExchangeSend send)] of
        Moved w' \<Rightarrow> exchange_run Q H (length (w_tasks w)) (Suc (length (w_tasks w))) w' evs
      | x \<Rightarrow> (x, None))"

lemma both_done_Some: "both_done a b = Some response \<longleftrightarrow> a = Some (Ready (VBytes (Inr response))) \<and> b = Some (Ready (VUnit (Inr ())))"
  by (cases "(a, b)" rule: both_done.cases) auto

lemma exchange_turn_None: "exchange_turn Q H i j k w = (Moved w', None) \<Longrightarrow> world_exec Q H w (Poll k) = Moved w'"
  by (auto simp: exchange_turn_def split: moved.splits option.splits)

lemma exchange_turn_done:
  "exchange_turn Q H i j k w = (Moved w', Some (Inr response)) \<Longrightarrow>
     world_exec Q H w (Poll k) = Moved w' \<and> both_done (w_tasks w' ! i) (w_tasks w' ! j) = Some response"
  by (auto simp: exchange_turn_def split: moved.splits option.splits)

lemma exchange_turn_cases:
  assumes "(case exchange_turn Q H i j k w of (Moved w', None) \<Rightarrow> f w' | r \<Rightarrow> r) = (Moved u, Some (Inr response))"
  obtains w' where "world_exec Q H w (Poll k) = Moved w'" "exchange_turn Q H i j k w = (Moved w', None)" "f w' = (Moved u, Some (Inr response))"
  | "world_exec Q H w (Poll k) = Moved u" "both_done (w_tasks u ! i) (w_tasks u ! j) = Some response"
proof -
  obtain m r where t: "exchange_turn Q H i j k w = (m, r)" by fastforce
  show thesis
  proof (cases r)
    case None
    with t assms that(1) exchange_turn_None [of Q H i j k w] show thesis by (cases m) auto
  next
    case (Some x)
    with t assms have "m = Moved u" "r = Some (Inr response)" by (cases m; simp)+
    with t exchange_turn_done [of Q H i j k w u response] that(2) show thesis by simp
  qed
qed

text \<open>What the joined task does of a list of events, as steps of the world.\<close>

fun turn_op :: "nat \<Rightarrow> nat \<Rightarrow> 'op exchange_event \<Rightarrow> 'op world_op" where
  "turn_op i j (Elsewhere op) = op"
| "turn_op i j ReceiveTurn = Poll i"
| "turn_op i j SendTurn = Poll j"

lemma exchange_run_done:
  "exchange_run Q H i j w evs = (Moved u, Some (Inr response)) \<Longrightarrow>
     \<exists>n. world_run Q H w (map (turn_op i j) (take n evs)) = Moved u \<and> both_done (w_tasks u ! i) (w_tasks u ! j) = Some response"
proof (induction Q H i j w evs rule: exchange_run.induct)
  case (2 Q H i j w op evs)
  then obtain w' n where "world_exec Q H w op = Moved w'" "world_run Q H w' (map (turn_op i j) (take n evs)) = Moved u"
    "both_done (w_tasks u ! i) (w_tasks u ! j) = Some response"
    by (auto split: moved.splits)
  then show ?case by (intro exI [of _ "Suc n"]) simp
next
  case (3 Q H i j w evs)
  from 3(2) [unfolded exchange_run.simps] show ?case
  proof (cases rule: exchange_turn_cases)
    case (1 w')
    with 3(1) [OF 1(2) [symmetric] refl refl 1(3)] obtain n where
      "world_run Q H w' (map (turn_op i j) (take n evs)) = Moved u" "both_done (w_tasks u ! i) (w_tasks u ! j) = Some response" by blast
    with 1(1) show ?thesis by (intro exI [of _ "Suc n"]) simp
  next
    case 2
    then show ?thesis by (intro exI [of _ 1]) simp
  qed
next
  case (4 Q H i j w evs)
  from 4(2) [unfolded exchange_run.simps] show ?case
  proof (cases rule: exchange_turn_cases)
    case (1 w')
    with 4(1) [OF 1(2) [symmetric] refl refl 1(3)] obtain n where
      "world_run Q H w' (map (turn_op i j) (take n evs)) = Moved u" "both_done (w_tasks u ! i) (w_tasks u ! j) = Some response" by blast
    with 1(1) show ?thesis by (intro exI [of _ "Suc n"]) simp
  next
    case 2
    then show ?thesis by (intro exI [of _ 1]) simp
  qed
qed simp

section \<open>Properties\<close>

lemma server_host_log: "h_log (server_host D iter) s = dv_log (fst s)"
  by (cases s) (simp add: server_host_def)

lemma client_host_log: "h_log (client_host D iter) d = cd_log d"
  by (simp add: client_host_def)

lemma ends_gives: "path (gives v m) ds (Ready (v x)) \<Longrightarrow> (\<And>y. v y = v x \<Longrightarrow> y = x) \<Longrightarrow> ends m ds x"
  by (auto simp: ends_and_then path_simps)

lemma channels_of_reads: "channels_of (reads rs xs) = map fst xs"
  by (induction xs) (auto simp: exchange_of_def)

lemma heard_in_reads: "heard_in es (reads rs xs) \<longleftrightarrow> (\<lambda>(x, c). BytesReply x (Inr c)) ` set xs \<subseteq> set (answers es)"
  by (induction xs) (auto simp: exchange_of_def)

lemma nonempty_chunks: "[] \<notin> snd ` set xs \<Longrightarrow> length xs \<le> length (concat (map snd xs))"
proof (induction xs)
  case (Cons y ys)
  then show ?case by (cases "snd y") auto
qed simp

text \<open>No answer to a channel that does not exist yet; so what is heard on a channel created later was answered later.\<close>

definition no_early_answers :: "effect list \<Rightarrow> reply \<Rightarrow> bool" where
  "no_early_answers es n \<longleftrightarrow> (\<forall>a\<in>set (answers es). answer_to a < n)"

lemma answered_later:
  assumes "no_early_answers es n" "A \<subseteq> set (answers fs)" "\<forall>a\<in>A. n \<le> answer_to a"
  shows "A \<subseteq> set (answers fs) - set (answers es)"
  using assms by (force simp: no_early_answers_def)

text \<open>
  C21. The echo example sends back what it received. When a session of \<open>echo_server\<close>, started in any world in which no
  channel was answered before it existed, has ended well after a run, whatever else happened in that run, then what
  this session did in it was, in order: it asked for a stream and got one; asked for the whole of it, within the limit,
  and got some bytes; wrote exactly those bytes to the same stream, and the driver acknowledged the write; finished it,
  and the driver acknowledged that; and closed the connection. Nothing else was asked of the driver; the four requests
  had four different channels, and each answer was given by the driver in this run.
\<close>

theorem echo_server_returns_the_bytes:
  assumes r: "world_run D (server_host D iter) w (Spawn (EchoServer conn) # ops) = Moved u"
    and n: "w_tasks u ! length (w_tasks w) = Some (Ready (VMain (Inr ())))"
    and early: "no_early_answers (dv_log (fst (w_host w))) (w_next w)"
  shows "\<exists>i got r1 r2 r3 r4 d. closing D conn d \<and> r1 < r2 \<and> r2 < r3 \<and> r3 < r4
    \<and> deeds D (server_host D iter) (length (w_tasks w)) w (Spawn (EchoServer conn) # ops) =
        asks conn (AcceptBi r1) r1 (StreamReply r1 (Inr i)) @ asks conn (ReadToEnd i ECHO_LIMIT r2) r2 (BytesReply r2 (Inr got))
           @ asks conn (Write i got r3) r3 (UnitReply r3 (Inr ())) @ asks conn (Finish i r4) r4 (UnitReply r4 (Inr ())) @ [d]
    \<and> {StreamReply r1 (Inr i), BytesReply r2 (Inr got), UnitReply r3 (Inr ()), UnitReply r4 (Inr ())}
        \<subseteq> set (answers (dv_log (fst (w_host u)))) - set (answers (dv_log (fst (w_host w))))"
proof -
  define ds where "ds = deeds D (server_host D iter) (length (w_tasks w)) w (Spawn (EchoServer conn) # ops)"
  note p = server_log.program_path [OF r n ds_def, unfolded server_host_log]
  have "ends (echo_server_session D conn) ds (Inr ())" using p(1) ends_gives [where v = VMain] by fastforce
  then obtain i got r1 r2 r3 r4 d where c: "closing D conn d"
    and ds: "ds = asks conn (AcceptBi r1) r1 (StreamReply r1 (Inr i)) @ asks conn (ReadToEnd i ECHO_LIMIT r2) r2 (BytesReply r2 (Inr got))
           @ asks conn (Write i got r3) r3 (UnitReply r3 (Inr ())) @ asks conn (Finish i r4) r4 (UnitReply r4 (Inr ())) @ [d]"
    unfolding echo_server_ends by blast
  have ch: "channels_of ds = [r1, r2, r3, r4]" using c by (auto simp: ds exchange_of_def closing_def)
  have "{StreamReply r1 (Inr i), BytesReply r2 (Inr got), UnitReply r3 (Inr ()), UnitReply r4 (Inr ())} \<subseteq> set (answers (dv_log (fst (w_host u))))"
    using p(2) unfolding ds by (simp add: exchange_of_def)
  from answered_later [OF early this] p(4) have "{StreamReply r1 (Inr i), BytesReply r2 (Inr got), UnitReply r3 (Inr ()), UnitReply r4 (Inr ())}
      \<subseteq> set (answers (dv_log (fst (w_host u)))) - set (answers (dv_log (fst (w_host w))))" by (simp add: ch)
  moreover have "r1 < r2" "r2 < r3" "r3 < r4" using p(3) by (simp_all add: ch)
  ultimately show ?thesis using c ds unfolding ds_def [symmetric] by blast
qed

text \<open>Witness: a sample server with a connection on which two bytes arrive serves the session to its end.\<close>

theorem echo_server_returns_the_bytes_witness:
  "\<exists>i got r1 r2 r3 r4 d. r1 < r2 \<and> r2 < r3 \<and> r3 < r4
    \<and> deeds sample_deps sample_host 0 (world_new (working_server, True))
        (Spawn (EchoServer sample_connection) # echo_round @ echo_round @ echo_round @ echo_round @ [Poll 0]) =
      asks sample_connection (AcceptBi r1) r1 (StreamReply r1 (Inr i)) @ asks sample_connection (ReadToEnd i ECHO_LIMIT r2) r2 (BytesReply r2 (Inr got))
        @ asks sample_connection (Write i got r3) r3 (UnitReply r3 (Inr ())) @ asks sample_connection (Finish i r4) r4 (UnitReply r4 (Inr ())) @ [d]"
proof -
  let ?w = "world_new (working_server, True)"
  have z: "length (w_tasks ?w) = 0" "no_early_answers (dv_log (fst (w_host ?w))) (w_next ?w)"
    by (simp_all add: world_new_def no_early_answers_def working_server_def driver_new_def)
  obtain u where u: "world_run sample_deps sample_host ?w (Spawn (EchoServer sample_connection) # echo_round @ echo_round @ echo_round @ echo_round @ [Poll 0]) = Moved u"
    "w_tasks u ! length (w_tasks ?w) = Some (Ready (VMain (Inr ())))" using echo_session_runs unfolding z(1) by blast
  from echo_server_returns_the_bytes [OF u z(2)] show ?thesis unfolding z(1) by (elim exE conjE, intro exI conjI) assumption+
qed

text \<open>
  The session of \<open>echo_client\<close> ends well only if the driver delivered exactly the message that was written, on the
  stream it was written to.
\<close>

lemma echo_client_checks_the_echo:
  assumes r: "world_run D (client_host D iter) w (Spawn (EchoClient conn message) # ops) = Moved u"
    and n: "w_tasks u ! length (w_tasks w) = Some (Ready (VMain (Inr ())))"
  shows "\<exists>i r1 r2 r3 r4 d. closing D conn d \<and> r1 < r2 \<and> r2 < r3 \<and> r3 < r4
    \<and> deeds D (client_host D iter) (length (w_tasks w)) w (Spawn (EchoClient conn message) # ops) =
        asks conn (OpenBi r1) r1 (StreamReply r1 (Inr i)) @ asks conn (Write i (utf8 message) r2) r2 (UnitReply r2 (Inr ()))
           @ asks conn (Finish i r3) r3 (UnitReply r3 (Inr ())) @ asks conn (ReadToEnd i ECHO_LIMIT r4) r4 (BytesReply r4 (Inr (utf8 message)))
           @ [d]
    \<and> {StreamReply r1 (Inr i), UnitReply r2 (Inr ()), UnitReply r3 (Inr ()), BytesReply r4 (Inr (utf8 message))}
        \<subseteq> set (answers (cd_log (w_host u)))"
proof -
  define ds where "ds = deeds D (client_host D iter) (length (w_tasks w)) w (Spawn (EchoClient conn message) # ops)"
  note p = client_log.program_path [OF r n ds_def, unfolded client_host_log]
  have "ends (echo_client_session D conn message) ds (Inr ())" using p(1) ends_gives [where v = VMain] by fastforce
  then obtain i r1 r2 r3 r4 d where c: "closing D conn d"
    and ds: "ds = asks conn (OpenBi r1) r1 (StreamReply r1 (Inr i)) @ asks conn (Write i (utf8 message) r2) r2 (UnitReply r2 (Inr ()))
           @ asks conn (Finish i r3) r3 (UnitReply r3 (Inr ())) @ asks conn (ReadToEnd i ECHO_LIMIT r4) r4 (BytesReply r4 (Inr (utf8 message))) @ [d]"
    unfolding echo_client_ends by blast
  have ch: "channels_of ds = [r1, r2, r3, r4]" using c by (auto simp: ds exchange_of_def closing_def)
  have "{StreamReply r1 (Inr i), UnitReply r2 (Inr ()), UnitReply r3 (Inr ()), BytesReply r4 (Inr (utf8 message))}
      \<subseteq> set (answers (cd_log (w_host u)))"
    using p(2) unfolding ds by (simp add: exchange_of_def)
  moreover have "r1 < r2" "r2 < r3" "r3 < r4" using p(3) by (simp_all add: ch)
  ultimately show ?thesis using c ds unfolding ds_def [symmetric] by blast
qed

text \<open>
  C22. The full-duplex pattern is bounded and loses nothing. When \<open>exchange\<close>, started in any world in which no channel
  was answered before it existed, ends well, then the run it made of its events is a run of the world with its two
  branches as tasks, and in that run its receive branch did nothing but read chunks, in order, until an empty one
  marked the end of the stream: its response is the concatenation of the others, none of them empty, and has at most a
  mebibyte, so at most that many reads were made before the last; and its send branch wrote the request, had the write
  acknowledged, then finished the stream and had that acknowledged. Every request had a channel of its own, and
  each answer was given by the driver in this run.
\<close>

theorem exchange_bounded_and_complete:
  assumes "exchange D (server_host D iter) send recv w evs = (Moved u, Some (Inr response))"
    and early: "no_early_answers (dv_log (fst (w_host w))) (w_next w)"
  shows "\<exists>n ops xs r r1 r2.
      ops = Spawn (ExchangeReceive recv) # Spawn (ExchangeSend send)
        # map (turn_op (length (w_tasks w)) (Suc (length (w_tasks w)))) (take n evs)
    \<and> world_run D (server_host D iter) w ops = Moved u
    \<and> deeds D (server_host D iter) (length (w_tasks w)) w ops = reads recv (xs @ [(r, [])])
    \<and> response = concat (map snd xs) \<and> [] \<notin> snd ` set xs \<and> length response \<le> EXCHANGE_LIMIT \<and> length xs \<le> EXCHANGE_LIMIT
    \<and> sorted_wrt (<) (map fst (xs @ [(r, [])]))
    \<and> deeds D (server_host D iter) (Suc (length (w_tasks w))) w ops =
        exchange_of r1 (cmd_tagged (tx_cmds send) (Write (tx_id send) (utf8 ''request'') r1)) (UnitReply r1 (Inr ()))
        @ exchange_of r2 (cmd_tagged (tx_cmds send) (Finish (tx_id send) r2)) (UnitReply r2 (Inr ()))
    \<and> r1 < r2
    \<and> (\<lambda>(x, c). BytesReply x (Inr c)) ` set (xs @ [(r, [])]) \<union> {UnitReply r1 (Inr ()), UnitReply r2 (Inr ())}
        \<subseteq> set (answers (dv_log (fst (w_host u)))) - set (answers (dv_log (fst (w_host w))))"
proof -
  let ?H = "server_host D iter" and ?n = "length (w_tasks w)"
  let ?w1 = "w\<lparr>w_tasks := w_tasks w @ [Some (program_future D (ExchangeReceive recv))]\<rparr>"
  have "exchange_run D ?H ?n (Suc ?n) (?w1\<lparr>w_tasks := w_tasks ?w1 @ [Some (program_future D (ExchangeSend send))]\<rparr>) evs = (Moved u, Some (Inr response))"
    using assms(1) by (simp add: exchange_def)
  from exchange_run_done [OF this] obtain n where
    run: "world_run D ?H ?w1 (Spawn (ExchangeSend send) # map (turn_op ?n (Suc ?n)) (take n evs)) = Moved u"
    and "both_done (w_tasks u ! ?n) (w_tasks u ! Suc ?n) = Some response" by auto
  then have tr: "w_tasks u ! ?n = Some (Ready (VBytes (Inr response)))" and ts: "w_tasks u ! length (w_tasks ?w1) = Some (Ready (VUnit (Inr ())))"
    by (simp_all add: both_done_Some)
  define ops where "ops = Spawn (ExchangeReceive recv) # Spawn (ExchangeSend send) # map (turn_op ?n (Suc ?n)) (take n evs)"
  have run': "world_run D ?H w ops = Moved u" using run by (simp add: ops_def)
  define ds where "ds = deeds D ?H ?n w ops"
  define es where "es = deeds D ?H (Suc ?n) w ops"
  note p = server_log.program_path [OF run' [unfolded ops_def] tr ds_def [unfolded ops_def], unfolded server_host_log]
  have "es = deeds D ?H (length (w_tasks ?w1)) ?w1 (Spawn (ExchangeSend send) # map (turn_op ?n (Suc ?n)) (take n evs))"
    by (simp add: es_def ops_def)
  note q = server_log.program_path [OF run ts this, unfolded server_host_log]
  have "ends (exchange_receive recv) ds (Inr response)" using p(1) ends_gives [where v = VBytes] by fastforce
  with receive_from_ends [of recv "[]" ds response] obtain xs x where
    xs: "ds = reads recv (xs @ [(x, [])])" "[] \<notin> snd ` set xs" "response = concat (map snd xs)" "length response \<le> EXCHANGE_LIMIT"
    by (auto simp: exchange_receive_def)
  have "ends (exchange_send_request send) es (Inr ())" using q(1) ends_gives [where v = VUnit] by fastforce
  then obtain r1 r2 where es: "es = exchange_of r1 (cmd_tagged (tx_cmds send) (Write (tx_id send) (utf8 ''request'') r1)) (UnitReply r1 (Inr ()))
         @ exchange_of r2 (cmd_tagged (tx_cmds send) (Finish (tx_id send) r2)) (UnitReply r2 (Inr ()))"
    unfolding exchange_send_request_def ends_then_Inr send_write_all_def send_finish_def ends_unit by auto
  have ce: "channels_of es = [r1, r2]" by (simp add: es exchange_of_def)
  have cd: "channels_of ds = map fst (xs @ [(x, [])])" unfolding xs(1) by (rule channels_of_reads)
  have "(\<lambda>(x, c). BytesReply x (Inr c)) ` set (xs @ [(x, [])]) \<union> {UnitReply r1 (Inr ()), UnitReply r2 (Inr ())} \<subseteq> set (answers (dv_log (fst (w_host u))))"
    using p(2) q(2) unfolding xs(1) es heard_in_reads by (simp add: exchange_of_def)
  moreover have "\<forall>a\<in>(\<lambda>(x, c). BytesReply x (Inr c)) ` set (xs @ [(x, [])]) \<union> {UnitReply r1 (Inr ()), UnitReply r2 (Inr ())}. w_next w \<le> answer_to a"
    using p(4) q(4) unfolding ce cd by auto
  ultimately have "(\<lambda>(x, c). BytesReply x (Inr c)) ` set (xs @ [(x, [])]) \<union> {UnitReply r1 (Inr ()), UnitReply r2 (Inr ())}
      \<subseteq> set (answers (dv_log (fst (w_host u)))) - set (answers (dv_log (fst (w_host w))))" by (rule answered_later [OF early])
  moreover have "length xs \<le> EXCHANGE_LIMIT" using nonempty_chunks [OF xs(2)] xs(3,4) by simp
  moreover have "r1 < r2" "sorted_wrt (<) (map fst (xs @ [(x, [])]))" using q(3) p(3) unfolding ce cd by simp_all
  ultimately show ?thesis using run' xs es unfolding ds_def es_def
    by - (rule exI [of _ n], rule exI [of _ ops], rule exI [of _ xs], rule exI [of _ x], rule exI [of _ r1], rule exI [of _ r2],
        intro conjI; (rule ops_def | assumption))
qed

text \<open>
  For the witness: as long as neither branch has failed and not both have ended, a turn is a step of the world; and since
  a future that has ended stays as it is, that holds of every step before one after which it holds.
\<close>

definition unfinished :: "nat \<Rightarrow> nat \<Rightarrow> 'd world \<Rightarrow> bool" where
  "unfinished i j w \<longleftrightarrow> branch_error (w_tasks w ! i) = None \<and> branch_error (w_tasks w ! j) = None
     \<and> both_done (w_tasks w ! i) (w_tasks w ! j) = None"

fun plain_event :: "'op exchange_event \<Rightarrow> bool" where
  "plain_event (Elsewhere (HostMoves m)) = True"
| "plain_event (Elsewhere op) = False"
| "plain_event _ = True"

lemma ended_stays:
  assumes "plain_event ev" "world_exec Q H w (turn_op i j ev) = Moved w'" "w_tasks w ! k = Some (Ready v)"
  shows "w_tasks w' ! k = Some (Ready v)"
proof -
  have "w_tasks w' ! k = Some (Ready v)" if x: "world_exec Q H w (Poll l) = Moved w'" for l
  proof (cases "l < length (w_tasks w) \<and> w_tasks w ! l \<noteq> None")
    case True
    then obtain m where "w_tasks w ! l = Some m" "poll_future H w l m = Moved w'" using x by auto
    with assms(3) show ?thesis by (cases m; cases "l = k") (auto split: if_splits option.splits)
  qed (use x assms(3) in \<open>auto split: if_splits option.splits\<close>)
  with assms show ?thesis by (cases ev rule: plain_event.cases) (auto split: option.splits)
qed

lemma branch_error_Some: "branch_error t = Some e \<longleftrightarrow> t = Some (Ready (VBytes (Inl e))) \<or> t = Some (Ready (VUnit (Inl e)))"
  by (cases t rule: branch_error.cases) auto

lemma unfinished_before:
  assumes "plain_event ev" "world_exec Q H w (turn_op i j ev) = Moved w'" "unfinished i j w'"
  shows "unfinished i j w"
proof -
  note e = ended_stays [OF assms(1,2)]
  have "branch_error (w_tasks w ! k) = None" if "k \<in> {i, j}" for k
    using e [of k] assms(3) that unfolding unfinished_def by (metis branch_error_Some empty_iff insert_iff not_Some_eq)
  moreover have "both_done (w_tasks w ! i) (w_tasks w ! j) = None"
    using e [of i] e [of j] assms(3) unfolding unfinished_def by (metis both_done_Some not_Some_eq)
  ultimately show ?thesis by (simp add: unfinished_def)
qed

lemma exchange_steps:
  "world_run Q H w (map (turn_op i j) evs) = Moved w' \<Longrightarrow> unfinished i j w' \<Longrightarrow> list_all plain_event evs \<Longrightarrow>
     unfinished i j w \<and> exchange_run Q H i j w (evs @ evs') = exchange_run Q H i j w' evs'"
proof (induction evs arbitrary: w)
  case (Cons ev evs)
  then obtain w1 where w1: "world_exec Q H w (turn_op i j ev) = Moved w1" "world_run Q H w1 (map (turn_op i j) evs) = Moved w'"
    by (auto split: moved.splits)
  from Cons.IH [OF w1(2)] Cons.prems have ih: "unfinished i j w1" "exchange_run Q H i j w1 (evs @ evs') = exchange_run Q H i j w' evs'" by auto
  moreover have "exchange_run Q H i j w (ev # evs @ evs') = exchange_run Q H i j w1 (evs @ evs')"
    using w1(1) ih(1) by (cases ev) (auto simp: exchange_turn_def unfinished_def)
  ultimately show ?case using unfinished_before [OF _ w1(1)] Cons.prems(3) by simp
qed simp

abbreviation sample_sender :: send_stream where
  "sample_sender \<equiv> \<lparr>tx_id = 4, tx_cmds = cmd_sender_new sample_handle\<rparr>"

abbreviation sample_receiver :: recv_stream where
  "sample_receiver \<equiv> \<lparr>rx_id = 4, rx_cmds = cmd_sender_new sample_handle\<rparr>"

abbreviation receive_round :: "server_move exchange_event list" where
  "receive_round \<equiv> [ReceiveTurn, ReceiveTurn, Elsewhere serves_next, ReceiveTurn]"

abbreviation send_round :: "server_move exchange_event list" where
  "send_round \<equiv> [SendTurn, SendTurn, Elsewhere serves_next]"

abbreviation exchange_turns :: "server_move exchange_event list" where
  "exchange_turns \<equiv> (receive_round @ receive_round @ send_round @ SendTurn # send_round) @ [SendTurn]"

abbreviation sample_cmd :: "cmd \<Rightarrow> tagged" where
  "sample_cmd \<equiv> cmd_tagged (cmd_sender_new sample_handle)"

lemma sample_receive_path:
  "path (program_future sample_deps (ExchangeReceive sample_receiver))
     (exchange_of 0 (sample_cmd (ReadCmd 4 (16 * 1024) 0)) (BytesReply 0 (Inr [7, 8]))
      @ exchange_of 1 (sample_cmd (ReadCmd 4 (16 * 1024) 1)) (BytesReply 1 (Inr [])) @ []) (Ready (VBytes (Inr [7, 8])))"
proof -
  have "ends (receive_from sample_receiver [7, 8]) (reads sample_receiver [(1, [])]) (Inr [7, 8])"
    unfolding receive_from_turn [of sample_receiver "[7, 8]"] by blast
  then have "\<exists>r c fs. reads sample_receiver [(0, [7, 8])] @ reads sample_receiver [(1, [])] = reads sample_receiver [(r, c)] @ fs
      \<and> length ([] @ c) \<le> EXCHANGE_LIMIT \<and> c \<noteq> [] \<and> ends (receive_from sample_receiver ([] @ c)) fs (Inr [7, 8])"
    by (intro exI [of _ "[7, 8]"] exI [of _ 0] exI [of _ "reads sample_receiver [(1, [])]"]) (simp add: EXCHANGE_LIMIT_def)
  then have "ends (exchange_receive sample_receiver) (reads sample_receiver [(0, [7, 8])] @ reads sample_receiver [(1, [])]) (Inr [7, 8])"
    unfolding exchange_receive_def receive_from_turn [of sample_receiver "[]"] by blast
  then show ?thesis unfolding program_future.simps by (subst ends_and_then) (auto simp: path_simps)
qed

lemma sample_send_path:
  "path (program_future sample_deps (ExchangeSend sample_sender))
     (exchange_of 2 (sample_cmd (Write 4 (utf8 ''request'') 2)) (UnitReply 2 (Inr ()))
      @ exchange_of 3 (sample_cmd (Finish 4 3)) (UnitReply 3 (Inr ())) @ []) (Ready (VUnit (Inr ())))"
proof -
  have "ends (exchange_send_request sample_sender) (exchange_of 2 (sample_cmd (Write 4 (utf8 ''request'') 2)) (UnitReply 2 (Inr ()))
      @ exchange_of 3 (sample_cmd (Finish 4 3)) (UnitReply 3 (Inr ()))) (Inr ())"
    unfolding exchange_send_request_def ends_then_Inr send_write_all_def send_finish_def ends_unit by auto
  then show ?thesis unfolding program_future.simps by (subst ends_and_then) (auto simp: path_simps)
qed

lemma exchange_runs:
  "\<exists>u. exchange sample_deps sample_host sample_sender sample_receiver (world_new (working_server, True)) exchange_turns = (Moved u, Some (Inr [7, 8]))"
proof -
  let ?rp = "program_future sample_deps (ExchangeReceive sample_receiver)" and ?rn = "Ready (VBytes (Inr [7, 8]))"
  let ?sp = "program_future sample_deps (ExchangeSend sample_sender)" and ?sn = "Ready (VUnit (Inr ()))"
  let ?w = "(world_new (working_server, True))\<lparr>w_tasks := [Some ?rp, Some ?sp]\<rparr>"
  define r1 where "r1 = exchange_of 1 (sample_cmd (ReadCmd 4 (16 * 1024) 1)) (BytesReply 1 (Inr [])) @ []"
  define e1 where "e1 = exchange_of 3 (sample_cmd (Finish 4 3)) (UnitReply 3 (Inr ())) @ []"
  note rp = sample_receive_path [folded r1_def] and sp = sample_send_path [folded e1_def]
  define s1 where "s1 = clear_dirty ((conn_new two_bytes)\<lparr>cs_dirty := True, cs_conn := (cs_conn (conn_new two_bytes))\<lparr>sm_input := []\<rparr>,
    cs_finished_reads := insert 4 (cs_finished_reads (conn_new two_bytes))\<rparr>)"
  define s2 where "s2 = clear_dirty (s1\<lparr>cs_dirty := True\<rparr>)"
  define s3 where "s3 = clear_dirty (s2\<lparr>cs_dirty := True, cs_send_fins := (cs_send_fins s2)(4 \<mapsto> Queued)\<rparr>)"
  note [simp] = sample_state_defs and [simp del] = apply_cmd.simps
  have chunk: "(16 * 1024 :: usize) = 16384" by simp
  have "ahead 0 (exchange_of 0 (sample_cmd (ReadCmd 4 (16 * 1024) 0)) (BytesReply 0 (Inr [7, 8])) @ r1) ?rn (conn_new two_bytes) [] [] 0 [None, Some ?sp] ?w"
    using rp working_server_serves by (auto simp: ahead_def world_new_def)
  note w0 = this
  have "\<exists>w1. world_run sample_deps sample_host ?w [Poll 0, Poll 0, serves_next, Poll 0] = Moved w1
      \<and> ahead 0 r1 ?rn s1 [] ([] @ [BytesReply 0 (Inr [7, 8])]) (Suc 0) [None, Some ?sp] w1"
    unfolding s1_def by (rule ahead_asks [OF w0]) (simp_all add: sample_applies_read(2) [unfolded chunk])
  then obtain w1 where w1: "world_run sample_deps sample_host ?w [Poll 0, Poll 0, serves_next, Poll 0] = Moved w1"
    "ahead 0 r1 ?rn s1 [] [BytesReply 0 (Inr [7, 8])] 1 [None, Some ?sp] w1" by auto
  have "\<exists>w2. world_run sample_deps sample_host w1 [Poll 0, Poll 0, serves_next, Poll 0] = Moved w2
      \<and> ahead 0 [] ?rn (clear_dirty s1) [] ([BytesReply 0 (Inr [7, 8])] @ [BytesReply 1 (Inr [])]) (Suc 1) [None, Some ?sp] w2"
    by (rule ahead_asks [OF w1(2) [unfolded r1_def]]) (simp_all add: s1_def sample_applies_read_end [unfolded chunk])
  then obtain w2 where w2: "world_run sample_deps sample_host w1 [Poll 0, Poll 0, serves_next, Poll 0] = Moved w2"
    "ahead 0 [] ?rn s1 [] [BytesReply 0 (Inr [7, 8]), BytesReply 1 (Inr [])] 2 [None, Some ?sp] w2" by (auto simp: s1_def numeral_2_eq_2)
  then have "ahead 1 (exchange_of 2 (sample_cmd (Write 4 (utf8 ''request'') 2)) (UnitReply 2 (Inr ())) @ e1) ?sn s1 []
      [BytesReply 0 (Inr [7, 8]), BytesReply 1 (Inr [])] 2 [Some ?rn, None] w2"
    using sp by (auto simp: ahead_def elim!: path_NilE)
  note w2' = this
  have "\<exists>w3. world_run sample_deps sample_host w2 [Poll 1, Poll 1, serves_next, Poll 1] = Moved w3
      \<and> ahead 1 e1 ?sn s2 [] ([BytesReply 0 (Inr [7, 8]), BytesReply 1 (Inr [])] @ [UnitReply 2 (Inr ())]) (Suc 2) [Some ?rn, None] w3"
    unfolding s2_def by (rule ahead_asks [OF w2']) (simp_all add: s1_def sample_applies_write utf8_def utf8_char_def)
  then obtain w3 where w3: "world_run sample_deps sample_host w2 [Poll 1, Poll 1, serves_next, Poll 1] = Moved w3"
    "ahead 1 e1 ?sn s2 [] [BytesReply 0 (Inr [7, 8]), BytesReply 1 (Inr []), UnitReply 2 (Inr ())] 3 [Some ?rn, None] w3" by (auto simp: numeral_3_eq_3)
  have "\<exists>w4. world_run sample_deps sample_host w3 [Poll 1, Poll 1, serves_next] = Moved w4
      \<and> ahead 1 [Heard (UnitReply 3 (Inr ()))] ?sn s3 [] ([BytesReply 0 (Inr [7, 8]), BytesReply 1 (Inr []), UnitReply 2 (Inr ())] @ [UnitReply 3 (Inr ())])
           (Suc 3) [Some ?rn, None] w4"
    unfolding s3_def by (rule ahead_sent [OF w3(2) [unfolded e1_def]]) (simp_all add: s2_def s1_def sample_applies_finish)
  then obtain w4 where w4: "world_run sample_deps sample_host w3 [Poll 1, Poll 1, serves_next] = Moved w4"
    "ahead 1 [Heard (UnitReply 3 (Inr ()))] ?sn s3 [] ([BytesReply 0 (Inr [7, 8]), BytesReply 1 (Inr []), UnitReply 2 (Inr ())] @ [UnitReply 3 (Inr ())])
       (Suc 3) [Some ?rn, None] w4" by blast
  from ahead_hears [OF w4(2)] obtain u where u: "world_exec sample_deps sample_host w4 (Poll 1) = Moved u" "w_tasks u = [Some ?rn, Some ?sn]"
    by (auto simp: ahead_def elim!: path_NilE)
  have un: "unfinished 0 1 w4" using w4(2) by (auto simp: ahead_def unfinished_def elim!: path_HeardE)
  have "world_run sample_deps sample_host ?w (map (turn_op 0 1) (receive_round @ receive_round @ send_round @ SendTurn # send_round)) = Moved w4"
    using world_run_cat [OF w1(1)] world_run_cat [OF w2(1)] world_run_cat [OF w3(1)] w4(1)
    by (simp only: list.map append.simps turn_op.simps)
  from exchange_steps [OF this un, of "[SendTurn]"] u
  have "exchange_run sample_deps sample_host 0 1 ?w exchange_turns = (Moved u, Some (Inr [7, 8]))"
    by (simp add: exchange_turn_def)
  then show ?thesis by (auto simp: exchange_def world_new_def)
qed

text \<open>Witness: a sample server with a connection on which two bytes arrive, and then the end of the stream.\<close>

theorem exchange_bounded_and_complete_witness:
  "\<exists>u n xs r. exchange sample_deps sample_host sample_sender sample_receiver (world_new (working_server, True)) exchange_turns = (Moved u, Some (Inr [7, 8]))
     \<and> deeds sample_deps sample_host 0 (world_new (working_server, True)) (Spawn (ExchangeReceive sample_receiver) # Spawn (ExchangeSend sample_sender)
          # map (turn_op 0 1) (take n exchange_turns)) = reads sample_receiver (xs @ [(r, [])])
     \<and> [7, 8] = concat (map snd xs) \<and> [] \<notin> snd ` set xs"
proof -
  let ?w = "world_new (working_server, True)"
  have z: "length (w_tasks ?w) = 0" "no_early_answers (dv_log (fst (w_host ?w))) (w_next ?w)"
    by (simp_all add: world_new_def no_early_answers_def working_server_def driver_new_def)
  obtain u where u: "exchange sample_deps sample_host sample_sender sample_receiver ?w exchange_turns = (Moved u, Some (Inr [7, 8]))"
    using exchange_runs by blast
  from exchange_bounded_and_complete [OF u z(2), unfolded z(1)] u show ?thesis
    by (elim exE conjE) (intro exI conjI, assumption, simp only: One_nat_def, assumption+)
qed

end
