(* ===== verification/Pair.thy ===== *)
theory Pair
  imports Drive InitialKeys
begin

text \<open>
  \<open>proto/src/testing.rs\<close>: the in-memory pair, a client and a server endpoint whose datagrams are carried
  by hand. It is the smallest complete driver of the core: it polls, delivers and collects events in
  turns until nothing moves. \<open>Inl\<close> is a panic with its message, less the cause it quotes; \<open>None\<close> is a call
  that does not return, or a panic inside the core.
  The wall clock that the server's pre-filter reads is an argument, by pass and datagram.
\<close>

section \<open>State\<close>

definition TESTING_PSK_HEX :: string where
  "TESTING_PSK_HEX = ''00000000000000000000000000000000000000000000000000000000000000ab''"

definition CLIENT_ADDR :: string where "CLIENT_ADDR = ''127.0.0.1:41001''"
definition SERVER_ADDR :: string where "SERVER_ADDR = ''127.0.0.1:41002''"
definition MAX_PASSES :: nat where "MAX_PASSES = 256"
definition PAIR_READ_CHUNK :: nat where "PAIR_READ_CHUNK = 4096"

record ('c, 'e) pair =
  tp_client :: "('c, 'e) endpoint"
  tp_server :: "('c, 'e) endpoint"
  tp_client_ch :: connection_handle
  tp_server_ch :: "connection_handle option"
  tp_client_addr :: socket_addr
  tp_server_addr :: socket_addr
  tp_to_server :: "bytes list"
  tp_to_client :: "bytes list"
  tp_client_events :: "event list"
  tp_server_events :: "event list"
  tp_now :: instant

text \<open>
  What \<open>new_at\<close> calls outside this crate: the TOML decoder at its two types, and what building the server's
  and the client's TLS and quinn parts gives. \<open>TOML\<close> text has line feeds and quotes.
\<close>

record 'e pair_env =
  pe_parse_server :: "string \<Rightarrow> string + server_secrets"
  pe_parse_client :: "string \<Rightarrow> string + client_config_file"
  pe_build :: build_env
  pe_server_inner :: 'e
  pe_client_inner :: 'e
  pe_crypto_err :: "string option"
  pe_nonce :: bytes

definition NL :: char where "NL = CHR 10"
definition QUOTE :: char where "QUOTE = CHR 34"

definition server_toml :: "string \<Rightarrow> string" where
  "server_toml server_addr =
     ''listen = '' @ [QUOTE] @ server_addr @ [QUOTE, NL] @ ''[[clients]]'' @ [NL]
     @ ''client_id = '' @ [QUOTE] @ ''testing'' @ [QUOTE, NL] @ ''psk = '' @ [QUOTE] @ TESTING_PSK_HEX @ [QUOTE, NL]"

definition client_toml :: "string \<Rightarrow> string" where
  "client_toml server_addr =
     ''client_id = '' @ [QUOTE] @ ''testing'' @ [QUOTE, NL] @ ''psk = '' @ [QUOTE] @ TESTING_PSK_HEX @ [QUOTE, NL]
     @ ''server = '' @ [QUOTE] @ server_addr @ [QUOTE, NL]"

text \<open>The two addresses, parsed: 127.0.0.1 with either port.\<close>

definition client_socket_addr :: socket_addr where "client_socket_addr = AddrV4 0x7F000001 41001"
definition server_socket_addr :: socket_addr where "server_socket_addr = AddrV4 0x7F000001 41002"

definition pair_new_at ::
  "('c, 'v, 'n, 'e, 'i) deps \<Rightarrow> 'e pair_env \<Rightarrow> u32 \<Rightarrow> instant \<Rightarrow> (string + ('c, 'e) pair) option" where
  "pair_new_at D E minutes epoch =
     (case pe_parse_server E (server_toml SERVER_ADDR) of
        Inl e \<Rightarrow> Some (Inl ''parse server secrets'')
      | Inr secrets \<Rightarrow>
          case new_server (pe_build E) (pe_server_inner E) secrets of
            Inl e \<Rightarrow> Some (Inl ''server endpoint'')
          | Inr server \<Rightarrow>
              case pe_parse_client E (client_toml SERVER_ADDR) of
                Inl e \<Rightarrow> Some (Inl ''parse client config'')
              | Inr cfg \<Rightarrow>
                  do {
                    r \<leftarrow> new_client D (pe_client_inner E) (pe_crypto_err E) (pe_nonce E) epoch minutes cfg;
                    Some (case r of
                            Inl e \<Rightarrow> Inl ''client endpoint''
                          | Inr (client, client_ch) \<Rightarrow>
                              Inr \<lparr>tp_client = client, tp_server = server, tp_client_ch = client_ch, tp_server_ch = None,
                                tp_client_addr = client_socket_addr, tp_server_addr = server_socket_addr,
                                tp_to_server = [], tp_to_client = [], tp_client_events = [], tp_server_events = [],
                                tp_now = epoch\<rparr>)
                  })"

section \<open>Looking at a pair\<close>

definition pair_now :: "('c, 'e) pair \<Rightarrow> instant" where
  "pair_now p = tp_now p"

definition pair_client :: "('c, 'e) pair \<Rightarrow> ('c, 'e) endpoint" where
  "pair_client p = tp_client p"

definition pair_server :: "('c, 'e) pair \<Rightarrow> ('c, 'e) endpoint" where
  "pair_server p = tp_server p"

definition pair_client_ch :: "('c, 'e) pair \<Rightarrow> connection_handle" where
  "pair_client_ch p = tp_client_ch p"

definition pair_server_ch :: "('c, 'e) pair \<Rightarrow> string + connection_handle" where
  "pair_server_ch p = (case tp_server_ch p of None \<Rightarrow> Inl ''the server has admitted a connection'' | Some ch \<Rightarrow> Inr ch)"

definition pair_conn :: "side \<Rightarrow> ('c, 'e) pair \<Rightarrow> string + 'c conn_state" where
  "pair_conn sd p =
     (case sd of
        Client \<Rightarrow>
          (case conn_mut (tp_client p) (tp_client_ch p) of None \<Rightarrow> Inl ''live client connection'' | Some s \<Rightarrow> Inr s)
      | Server \<Rightarrow>
          (case pair_server_ch p of
             Inl e \<Rightarrow> Inl e
           | Inr ch \<Rightarrow> (case conn_mut (tp_server p) ch of None \<Rightarrow> Inl ''live server connection'' | Some s \<Rightarrow> Inr s)))"

text \<open>The caller's work on the borrowed connection, written backs.\<close>

definition pair_put :: "side \<Rightarrow> 'c conn_state \<Rightarrow> ('c, 'e) pair \<Rightarrow> ('c, 'e) pair" where
  "pair_put sd s p =
     (case sd of
        Client \<Rightarrow> p\<lparr>tp_client := put_conn (tp_client_ch p) s (tp_client p)\<rparr>
      | Server \<Rightarrow> (case tp_server_ch p of None \<Rightarrow> p | Some ch \<Rightarrow> p\<lparr>tp_server := put_conn ch s (tp_server p)\<rparr>))"

definition pair_events :: "side \<Rightarrow> ('c, 'e) pair \<Rightarrow> event list" where
  "pair_events sd p = (case sd of Client \<Rightarrow> tp_client_events p | Server \<Rightarrow> tp_server_events p)"

definition pair_take_events :: "side \<Rightarrow> ('c, 'e) pair \<Rightarrow> event list \<times> ('c, 'e) pair" where
  "pair_take_events sd p =
     (case sd of
        Client \<Rightarrow> (tp_client_events p, p\<lparr>tp_client_events := []\<rparr>)
      | Server \<Rightarrow> (tp_server_events p, p\<lparr>tp_server_events := []\<rparr>))"

section \<open>Driving\<close>

text \<open>\<open>while let Some(e) = poll_event()\<close> into a side's buffer.\<close>

definition collect :: "('c, 'e) endpoint \<Rightarrow> event list \<Rightarrow> (('c, 'e) endpoint \<times> event list) option" where
  "collect ep evs =
     while_some (\<lambda>(ep, evs). let (e, ep') = poll_event ep in (e, ep', evs)) (\<lambda>e (ep, evs). Some (ep, evs @ [e])) (ep, evs)"

definition collect_events :: "('c, 'e) pair \<Rightarrow> ('c, 'e) pair option" where
  "collect_events p =
     do {
       (client, client_events) \<leftarrow> collect (tp_client p) (tp_client_events p);
       (server, server_events) \<leftarrow> collect (tp_server p) (tp_server_events p);
       Some (p\<lparr>tp_client := client, tp_client_events := client_events, tp_server := server, tp_server_events := server_events\<rparr>)
     }"

text \<open>One side's transmits into the queue to the other, each to the one address it may go to.\<close>

partial_function (option) drain_into ::
  "('c, 'v, 'n, 'e, 'i) deps \<Rightarrow> order \<Rightarrow> instant \<Rightarrow> socket_addr \<Rightarrow> string \<Rightarrow> ('c, 'e) endpoint \<Rightarrow> bytes list \<Rightarrow> bool
     \<Rightarrow> (string + ('c, 'e) endpoint \<times> bytes list \<times> bool) option" where
  "drain_into D iter now addr msg ep queue moved =
     Option.bind (poll_transmit D iter now ep) (\<lambda>(t, ep').
       case t of
         None \<Rightarrow> Some (Inr (ep', queue, moved))
       | Some tr \<Rightarrow> if destination tr = addr then drain_into D iter now addr msg ep' (queue @ [contents tr]) True else Some (Inl msg))"

text \<open>The queued datagrams into the other side; the server's side remembers the connection it accepted.\<close>

fun deliver_all ::
  "('c, 'v, 'n, 'e, 'i) deps \<Rightarrow> order \<Rightarrow> (nat \<Rightarrow> nat option) \<Rightarrow> instant \<Rightarrow> socket_addr \<Rightarrow> bytes list \<Rightarrow> ('c, 'e) endpoint
     \<Rightarrow> (datagram_outcome list \<times> ('c, 'e) endpoint) option" where
  "deliver_all D iter clk now from [] ep = Some ([], ep)"
| "deliver_all D iter clk now from (dg # dgs) ep =
     do {
       (outcome, ep1) \<leftarrow> handle_datagram D iter (clk 0) now from dg ep;
       (outcomes, ep2) \<leftarrow> deliver_all D iter (\<lambda>n. clk (Suc n)) now from dgs ep1;
       Some (outcome # outcomes, ep2)
     }"

fun last_accepted :: "connection_handle option \<Rightarrow> datagram_outcome list \<Rightarrow> connection_handle option" where
  "last_accepted ch [] = ch"
| "last_accepted ch (Accepted ch' # os) = last_accepted (Some ch') os"
| "last_accepted ch (_ # os) = last_accepted ch os"

definition CLIENT_STRAYS :: string where
  "CLIENT_STRAYS = ''the client only ever transmits to the server it dialed''"
definition SERVER_STRAYS :: string where
  "SERVER_STRAYS = ''the server only ever transmits to the peer that reached it''"

definition pair_pass ::
  "('c, 'v, 'n, 'e, 'i) deps \<Rightarrow> order \<Rightarrow> (nat \<Rightarrow> nat option) \<Rightarrow> ('c, 'e) pair \<Rightarrow> (string + bool \<times> ('c, 'e) pair) option" where
  "pair_pass D iter clk p =
     do {
       r \<leftarrow> drain_into D iter (tp_now p) (tp_server_addr p) CLIENT_STRAYS (tp_client p) (tp_to_server p) False;
       case r of
         Inl e \<Rightarrow> Some (Inl e)
       | Inr (client, to_server, moved) \<Rightarrow>
           do {
             r' \<leftarrow> drain_into D iter (tp_now p) (tp_client_addr p) SERVER_STRAYS (tp_server p) (tp_to_client p) moved;
             case r' of
               Inl e \<Rightarrow> Some (Inl e)
             | Inr (server, to_client, moved') \<Rightarrow>
                 do {
                   (outcomes, server') \<leftarrow> deliver_all D iter clk (tp_now p) (tp_client_addr p) to_server server;
                   (_, client') \<leftarrow> deliver_all D iter clk (tp_now p) (tp_server_addr p) to_client client;
                   p' \<leftarrow> collect_events (p\<lparr>tp_client := client', tp_server := server', tp_to_server := [], tp_to_client := [],
                           tp_server_ch := last_accepted (tp_server_ch p) outcomes\<rparr>);
                   Some (Inr (moved' \<or> to_server \<noteq> [] \<or> to_client \<noteq> [], p'))
                 }
           }
     }"

fun drive_passes ::
  "('c, 'v, 'n, 'e, 'i) deps \<Rightarrow> order \<Rightarrow> (nat \<Rightarrow> nat \<Rightarrow> nat option) \<Rightarrow> nat \<Rightarrow> ('c, 'e) pair \<Rightarrow> (string + ('c, 'e) pair) option" where
  "drive_passes D iter clk 0 p = Some (Inl ''the in-memory cloaked pair did not quiesce within 256 passes'')"
| "drive_passes D iter clk (Suc n) p =
     do {
       r \<leftarrow> pair_pass D iter (clk 0) p;
       case r of
         Inl e \<Rightarrow> Some (Inl e)
       | Inr (moved, p') \<Rightarrow> if moved then drive_passes D iter (\<lambda>n. clk (Suc n)) n p' else Some (Inr p')
     }"

definition drive ::
  "('c, 'v, 'n, 'e, 'i) deps \<Rightarrow> order \<Rightarrow> (nat \<Rightarrow> nat \<Rightarrow> nat option) \<Rightarrow> ('c, 'e) pair \<Rightarrow> (string + ('c, 'e) pair) option" where
  "drive D iter clk p = drive_passes D iter clk MAX_PASSES p"

definition connected_pair_at ::
  "('c, 'v, 'n, 'e, 'i) deps \<Rightarrow> order \<Rightarrow> 'e pair_env \<Rightarrow> (nat \<Rightarrow> nat \<Rightarrow> nat option) \<Rightarrow> u32 \<Rightarrow> instant \<Rightarrow> (string + ('c, 'e) pair) option" where
  "connected_pair_at D iter E clk minutes epoch =
     do {
       r \<leftarrow> pair_new_at D E minutes epoch;
       case r of
         Inl e \<Rightarrow> Some (Inl e)
       | Inr p \<Rightarrow>
           do {
             r' \<leftarrow> drive D iter clk p;
             Some (case r' of
                     Inl e \<Rightarrow> Inl e
                   | Inr p' \<Rightarrow> if tp_server_ch p' \<noteq> None then Inr p'
                              else Inl ''the server never admitted the cloaked client'')
           }
     }"

text \<open>\<open>now\<close> is what the clock reads.\<close>

definition connected_pair ::
  "('c, 'v, 'n, 'e, 'i) deps \<Rightarrow> order \<Rightarrow> 'e pair_env \<Rightarrow> (nat \<Rightarrow> nat \<Rightarrow> nat option) \<Rightarrow> u32 \<Rightarrow> instant \<Rightarrow> (string + ('c, 'e) pair) option" where
  "connected_pair D iter E clk minutes now = connected_pair_at D iter E clk minutes now"

definition fire_timers :: "('c, 'v, 'n, 'e, 'i) deps \<Rightarrow> order \<Rightarrow> ('c, 'e) pair \<Rightarrow> ('c, 'e) pair option" where
  "fire_timers D iter p =
     (case min_opt (List.map_filter (\<lambda>t. t) [next_timeout (tp_client p), next_timeout (tp_server p)]) of
        None \<Rightarrow> Some p
      | Some deadline \<Rightarrow>
          do {
            let now = max (tp_now p) deadline;
            client \<leftarrow> handle_timeout D iter now (tp_client p);
            server \<leftarrow> handle_timeout D iter now (tp_server p);
            collect_events (p\<lparr>tp_now := now, tp_client := client, tp_server := server\<rparr>)
          })"

section \<open>Streams\<close>

definition pair_open_bi :: "('c, 'v, 'n, 'e, 'i) deps \<Rightarrow> side \<Rightarrow> ('c, 'e) pair \<Rightarrow> string + stream_id \<times> ('c, 'e) pair" where
  "pair_open_bi D sd p =
     (case pair_conn sd p of
        Inl e \<Rightarrow> Inl e
      | Inr s \<Rightarrow> (case open_bi D s of (Inl e, s1) \<Rightarrow> Inl ''open_bi'' | (Inr i, s1) \<Rightarrow> Inr (i, pair_put sd s1 p)))"

text \<open>The loops that drive in between: \<open>n\<close> rounds are left; \<open>clk\<close> is the wall clock by round, pass and datagram.\<close>

fun accept_rounds ::
  "('c, 'v, 'n, 'e, 'i) deps \<Rightarrow> order \<Rightarrow> (nat \<Rightarrow> nat \<Rightarrow> nat \<Rightarrow> nat option) \<Rightarrow> side \<Rightarrow> nat \<Rightarrow> ('c, 'e) pair
     \<Rightarrow> (string + stream_id \<times> ('c, 'e) pair) option" where
  "accept_rounds D iter clk sd 0 p = Some (Inl ''no stream was accepted within 256 passes'')"
| "accept_rounds D iter clk sd (Suc n) p =
     (case pair_conn sd p of
        Inl e \<Rightarrow> Some (Inl e)
      | Inr s \<Rightarrow>
          (case accept_bi D s of
             (Inl e, s1) \<Rightarrow> Some (Inl ''accept_bi'')
           | (Inr (Some i), s1) \<Rightarrow> Some (Inr (i, pair_put sd s1 p))
           | (Inr None, s1) \<Rightarrow>
               do {
                 r \<leftarrow> drive D iter (clk 0) (pair_put sd s1 p);
                 case r of Inl e \<Rightarrow> Some (Inl e) | Inr p' \<Rightarrow> accept_rounds D iter (\<lambda>n. clk (Suc n)) sd n p'
               }))"

definition pair_accept_bi where
  "pair_accept_bi D iter clk sd p = accept_rounds D iter clk sd MAX_PASSES p"

fun write_rounds ::
  "('c, 'v, 'n, 'e, 'i) deps \<Rightarrow> order \<Rightarrow> (nat \<Rightarrow> nat \<Rightarrow> nat \<Rightarrow> nat option) \<Rightarrow> side \<Rightarrow> stream_id \<Rightarrow> bytes \<Rightarrow> nat \<Rightarrow> nat \<Rightarrow> ('c, 'e) pair
     \<Rightarrow> (string + ('c, 'e) pair) option" where
  "write_rounds D iter clk sd i bs sent 0 p = Some (Inl ''write_all did not complete within 256 passes'')"
| "write_rounds D iter clk sd i bs sent (Suc n) p =
     (if sent = length bs then Some (Inr p)
      else case pair_conn sd p of
             Inl e \<Rightarrow> Some (Inl e)
           | Inr s \<Rightarrow>
               (case stream_write D i (drop sent bs) s of
                  (Inr (Wrote k), s1) \<Rightarrow> write_rounds D iter (\<lambda>n. clk (Suc n)) sd i bs (sent + k) n (pair_put sd s1 p)
                | (Inr WriteBlocked, s1) \<Rightarrow>
                    do {
                      r \<leftarrow> drive D iter (clk 0) (pair_put sd s1 p);
                      case r of Inl e \<Rightarrow> Some (Inl e) | Inr p' \<Rightarrow> write_rounds D iter (\<lambda>n. clk (Suc n)) sd i bs sent n p'
                    }
                | (Inl e, s1) \<Rightarrow> Some (Inl ''stream_write failed'')))"

definition pair_write_all where
  "pair_write_all D iter clk sd i bs p = write_rounds D iter clk sd i bs 0 MAX_PASSES p"

fun read_rounds ::
  "('c, 'v, 'n, 'e, 'i) deps \<Rightarrow> order \<Rightarrow> (nat \<Rightarrow> nat \<Rightarrow> nat \<Rightarrow> nat option) \<Rightarrow> side \<Rightarrow> stream_id \<Rightarrow> bytes \<Rightarrow> bytes \<Rightarrow> nat \<Rightarrow> ('c, 'e) pair
     \<Rightarrow> (string + bytes \<times> ('c, 'e) pair) option" where
  "read_rounds D iter clk sd i got buf 0 p = Some (Inl ''pump_until_read never reached end-of-stream within 256 passes'')"
| "read_rounds D iter clk sd i got buf (Suc n) p =
     (case pair_conn sd p of
        Inl e \<Rightarrow> Some (Inl e)
      | Inr s \<Rightarrow>
          do {
            (outcome, buf', s1) \<leftarrow> stream_read D i buf s;
            case outcome of
              Inr (Read k) \<Rightarrow> read_rounds D iter (\<lambda>n. clk (Suc n)) sd i (got @ take k buf') buf' n (pair_put sd s1 p)
            | Inr ReadBlocked \<Rightarrow>
                do {
                  r \<leftarrow> drive D iter (clk 0) (pair_put sd s1 p);
                  case r of Inl e \<Rightarrow> Some (Inl e) | Inr p' \<Rightarrow> read_rounds D iter (\<lambda>n. clk (Suc n)) sd i got buf' n p'
                }
            | Inr ReadFinished \<Rightarrow> Some (Inr (got, pair_put sd s1 p))
            | Inl e \<Rightarrow> Some (Inl ''stream_read failed'')
          })"

definition pair_pump_until_read where
  "pair_pump_until_read D iter clk sd i p = read_rounds D iter clk sd i [] (replicate PAIR_READ_CHUNK 0) MAX_PASSES p"

section \<open>What a pass does\<close>

lemma collect_takes: "collect ep evs = Some (ep\<lparr>ep_events := []\<rparr>, evs @ ep_events ep)"
proof (induction "ep_events ep" arbitrary: ep evs)
  case Nil
  then show ?case by (simp add: collect_def poll_event_def while_some_stop)
next
  case (Cons e es)
  have "collect ep evs = collect (ep\<lparr>ep_events := es\<rparr>) (evs @ [e])"
    unfolding collect_def using Cons.hyps(2) [symmetric] 
    by (intro while_some_step [where x = e and s' = "(ep\<lparr>ep_events := es\<rparr>, evs)"]) (simp_all add: poll_event_def)
  with Cons.hyps(1) [of "ep\<lparr>ep_events := es\<rparr>" "evs @ [e]"] Cons.hyps(2) [symmetric] show ?case by simp
qed

lemma collect_events_takes:
  "collect_events p = Some (p\<lparr>tp_client := (tp_client p)\<lparr>ep_events := []\<rparr>, tp_client_events := tp_client_events p @ ep_events (tp_client p),
     tp_server := (tp_server p)\<lparr>ep_events := []\<rparr>, tp_server_events := tp_server_events p @ ep_events (tp_server p)\<rparr>)"
  by (simp add: collect_events_def collect_takes)

text \<open>Draining into a queue is draining, with each datagram's destination checked.\<close>

lemma drain_into_flush:
  assumes "flush D iter now ep sent = Some y"
  shows "\<exists>ts. fst y = sent @ ts \<and> (\<forall>queue moved. drain_into D iter now addr msg ep queue moved =
     Some (if \<forall>t\<in>set ts. destination t = addr then Inr (snd y, queue @ map contents ts, moved \<or> ts \<noteq> []) else Inl msg))"
proof (rule flush.raw_induct [where P = "\<lambda>D iter now ep sent y. \<exists>ts. fst y = sent @ ts \<and> (\<forall>queue moved. drain_into D iter now addr msg ep queue moved =
     Some (if \<forall>t\<in>set ts. destination t = addr then Inr (snd y, queue @ map contents ts, moved \<or> ts \<noteq> []) else Inl msg))", OF _ assms], goal_cases)
  case (1 fl D iter now ep sent y)
  then obtain t ep' where t: "poll_transmit D iter now ep = Some (t, ep')" by (auto simp: bind_eq_Some_conv)
  show ?case
  proof (cases t)
    case None
    with 1(2) t show ?thesis by (intro exI [of _ "[]"]) (auto simp: drain_into.simps)
  next
    case (Some tr)
    with 1(2) t have "fl D iter now ep' (sent @ [tr]) = Some y" by simp
    from 1(1) [OF this] obtain ts where ts: "fst y = sent @ tr # ts"
      "\<And>queue moved. drain_into D iter now addr msg ep' queue moved =
         Some (if \<forall>t\<in>set ts. destination t = addr then Inr (snd y, queue @ map contents ts, moved \<or> ts \<noteq> []) else Inl msg)"
      by auto
    with t Some show ?thesis by (intro exI [of _ "tr # ts"]) (auto simp: drain_into.simps)
  qed
qed

abbreviation queued_from :: "('c, 'e) endpoint \<Rightarrow> ('c, 'e) endpoint \<Rightarrow> bool" where
  "queued_from ep ep' \<equiv> \<exists>evs. ep_events ep' = ep_events ep @ evs"

lemma moves_queued: "moves L ep ep' \<Longrightarrow> queued_from ep ep'"
  by (auto simp: moves_def)

lemma deliver_all_returns:
  assumes E: "driver_env D iter W M w k"
  shows "endpoint_ok M ep \<Longrightarrow> unat (ep_next_generation ep) + length dgs < 2 ^ 64 \<Longrightarrow>
    \<exists>os ep'. deliver_all D iter clk now from dgs ep = Some (os, ep') \<and> length os = length dgs \<and> endpoint_ok M ep' \<and> queued_from ep ep'"
proof (induction dgs arbitrary: ep clk)
  case (Cons dg dgs)
  have "ep_next_generation ep \<noteq> - 1"
    using Cons.prems(2) by (auto simp: unsigned_minus_1_eq_mask mask_eq_exp_minus_1)
  then obtain out ep1 L where h: "handle_datagram D iter (clk 0) now from dg ep = Some (out, ep1)" "endpoint_ok M ep1" "advances ep ep1" "moves L ep ep1"
    using handle_datagram_moves [OF driver_envD(1) [OF E] Cons.prems(1), of "clk 0" now "from" dg] by blast
  have "unat (ep_next_generation ep1) + length dgs < 2 ^ 64" using h(3) Cons.prems(2) by (simp add: advances_def)
  from Cons.IH [OF h(2) this, of "\<lambda>n. clk (Suc n)"] obtain os ep2 where
    "deliver_all D iter (\<lambda>n. clk (Suc n)) now from dgs ep1 = Some (os, ep2)" "length os = length dgs" "endpoint_ok M ep2" "queued_from ep1 ep2"
    by blast
  with h(1) moves_queued [OF h(4)] show ?case by auto
qed simp

lemma flush_queued:
  assumes E: "driver_env D iter W M w k" and ok: "endpoint_ok M ep"
  shows "\<exists>ts ep'. flush D iter now ep [] = Some (ts, ep') \<and> endpoint_ok M ep' \<and> quiescent ep' \<and> queued_from ep ep'"
proof -
  let ?I = "\<lambda>x. endpoint_ok M x \<and> queued_from ep x"
  have "?I ep'" if "?I x" "poll_transmit D iter now x = Some (t, ep')" for x t ep'
    using that moves_queued [OF poll_transmit_moves [OF driver_envD(1) [OF E] _ that(2)]]
      poll_transmit_keeps [OF driver_envD(1) [OF E], of x now] by fastforce
  then have "\<exists>ts ep'. flush D iter now ep [] = Some ([] @ ts, ep') \<and> ?I ep' \<and> quiescent ep' \<and> pot w ep' + length ts \<le> pot w ep"
    using ok by (intro flush_rests [OF E]) blast+
  then show ?thesis by auto
qed

text \<open>
  What a pass leaves that carried \<open>out\<close>, sent by the client, and \<open>backs\<close>, sent by the server: each side has
  handled what was in flight to it followed by what the other sent; nothing is in flight; the events
  queued before and during the pass are at the end of the side's buffer; with nothing carried, both
  sides are at rest.
\<close>

definition carried ::
  "('c, 'v, 'n, 'e, 'i) deps \<Rightarrow> order \<Rightarrow> (nat \<Rightarrow> nat option) \<Rightarrow> transmit list \<times> ('c, 'e) endpoint \<Rightarrow> transmit list \<times> ('c, 'e) endpoint
     \<Rightarrow> ('c, 'e) pair \<Rightarrow> bool \<Rightarrow> ('c, 'e) pair \<Rightarrow> bool" where
  "carried D iter clk = (\<lambda>(out, client) (backs, server) p moved p'. \<exists>os server' os' client'.
     deliver_all D iter clk (tp_now p) (tp_client_addr p) (tp_to_server p @ map contents out) server = Some (os, server')
   \<and> deliver_all D iter clk (tp_now p) (tp_server_addr p) (tp_to_client p @ map contents backs) client = Some (os', client')
   \<and> tp_server p' = server'\<lparr>ep_events := []\<rparr> \<and> tp_client p' = client'\<lparr>ep_events := []\<rparr>
   \<and> tp_server_ch p' = last_accepted (tp_server_ch p) os \<and> tp_to_server p' = [] \<and> tp_to_client p' = []
   \<and> tp_client_events p' = tp_client_events p @ ep_events client' \<and> queued_from (tp_client p) client'
   \<and> tp_server_events p' = tp_server_events p @ ep_events server' \<and> queued_from (tp_server p) server'
   \<and> (\<not> moved \<longrightarrow> quiescent (tp_client p') \<and> quiescent (tp_server p')))"

definition all_for :: "socket_addr \<Rightarrow> transmit list \<Rightarrow> bool" where
  "all_for addr ts \<longleftrightarrow> (\<forall>t\<in>set ts. destination t = addr)"

text \<open>The two drains of a pass, done.\<close>

lemma pass_drained:
  assumes "flush D iter (tp_now p) (tp_client p) [] = Some (out, client)" "flush D iter (tp_now p) (tp_server p) [] = Some (backs, server)"
  shows "pair_pass D iter clk p =
    (if all_for (tp_server_addr p) out then
       if all_for (tp_client_addr p) backs then
         do {
           (outcomes, server') \<leftarrow> deliver_all D iter clk (tp_now p) (tp_client_addr p) (tp_to_server p @ map contents out) server;
           (_, client') \<leftarrow> deliver_all D iter clk (tp_now p) (tp_server_addr p) (tp_to_client p @ map contents backs) client;
           p' \<leftarrow> collect_events (p\<lparr>tp_client := client', tp_server := server', tp_to_server := [], tp_to_client := [],
                   tp_server_ch := last_accepted (tp_server_ch p) outcomes\<rparr>);
           Some (Inr (((False \<or> out \<noteq> []) \<or> backs \<noteq> []) \<or> tp_to_server p @ map contents out \<noteq> [] \<or> tp_to_client p @ map contents backs \<noteq> [], p'))
         }
       else Some (Inl SERVER_STRAYS)
     else Some (Inl CLIENT_STRAYS))"
proof -
  have c: "drain_into D iter (tp_now p) addr msg (tp_client p) queue moved
      = Some (if all_for addr out then Inr (client, queue @ map contents out, moved \<or> out \<noteq> []) else Inl msg)" for addr msg queue moved
    using drain_into_flush [OF assms(1), of addr msg] by (auto simp: all_for_def)
  have s: "drain_into D iter (tp_now p) addr msg (tp_server p) queue moved
      = Some (if all_for addr backs then Inr (server, queue @ map contents backs, moved \<or> backs \<noteq> []) else Inl msg)" for addr msg queue moved
    using drain_into_flush [OF assms(2), of addr msg] by (auto simp: all_for_def)
  show ?thesis
    unfolding pair_pass_def c s
    by (cases "all_for (tp_server_addr p) out"; cases "all_for (tp_client_addr p) backs")
      (simp_all only: if_True if_False Option.bind_lunit sum.case prod.case)
qed

section \<open>Properties\<close>

text \<open>
  C34. A pass of the in-memory pair carries everything, once and in order: draining either side returns,
  with \<open>out\<close> and \<open>backs\<close> to send; and while the generation counters can number the datagrams in flight, the
  pass returns. It panics exactly when some datagram was not meant for the peer. Otherwise each side has
  handled what was in flight to it followed by all that the other had to send, no queue holds anything
  any more, each side's events are at the end of its buffer in order, and if nothing moved both
  endpoints are at rest.
\<close>

theorem pair_pass_exact:
  assumes E: "driver_env D iter W M w k" and ok: "endpoint_ok M (tp_client p)" "endpoint_ok M (tp_server p)"
  shows "\<exists>out client backs server.
    flush D iter (tp_now p) (tp_client p) [] = Some (out, client) \<and> flush D iter (tp_now p) (tp_server p) [] = Some (backs, server)
    \<and> (unat (ep_next_generation server) + length (tp_to_server p @ map contents out) < 2 ^ 64 \<longrightarrow>
       unat (ep_next_generation client) + length (tp_to_client p @ map contents backs) < 2 ^ 64 \<longrightarrow>
       (if all_for (tp_server_addr p) out \<and> all_for (tp_client_addr p) backs
        then \<exists>moved p'. pair_pass D iter clk p = Some (Inr (moved, p')) \<and> carried D iter clk (out, client) (backs, server) p moved p'
        else \<exists>msg. pair_pass D iter clk p = Some (Inl msg)))"
proof -
  obtain out client where c: "flush D iter (tp_now p) (tp_client p) [] = Some (out, client)" "endpoint_ok M client" "quiescent client" "queued_from (tp_client p) client"
    using flush_queued [OF E ok(1)] by blast
  obtain backs server where s: "flush D iter (tp_now p) (tp_server p) [] = Some (backs, server)" "endpoint_ok M server" "quiescent server" "queued_from (tp_server p) server"
    using flush_queued [OF E ok(2)] by blast
  have "\<exists>moved p'. pair_pass D iter clk p = Some (Inr (moved, p')) \<and> carried D iter clk (out, client) (backs, server) p moved p'"
    if room: "unat (ep_next_generation server) + length (tp_to_server p @ map contents out) < 2 ^ 64"
      "unat (ep_next_generation client) + length (tp_to_client p @ map contents backs) < 2 ^ 64"
      and for_peer: "all_for (tp_server_addr p) out" "all_for (tp_client_addr p) backs"
  proof -
    obtain os server' where d: "deliver_all D iter clk (tp_now p) (tp_client_addr p) (tp_to_server p @ map contents out) server = Some (os, server')" "queued_from server server'"
      using deliver_all_returns [OF E s(2) room(1)] by blast
    obtain os' client' where d': "deliver_all D iter clk (tp_now p) (tp_server_addr p) (tp_to_client p @ map contents backs) client = Some (os', client')" "queued_from client client'"
      using deliver_all_returns [OF E c(2) room(2)] by blast
    let ?moved = "(out \<noteq> [] \<or> backs \<noteq> []) \<or> tp_to_server p @ map contents out \<noteq> [] \<or> tp_to_client p @ map contents backs \<noteq> []"
    have "\<not> ?moved \<Longrightarrow> client' = client \<and> server' = server" using d(1) d'(1) by auto
    then have "\<not> ?moved \<Longrightarrow> quiescent (client'\<lparr>ep_events := []\<rparr>) \<and> quiescent (server'\<lparr>ep_events := []\<rparr>)"
      using c(3) s(3) by (auto simp: quiescent_def)
    moreover have "queued_from (tp_client p) client'" "queued_from (tp_server p) server'" using c(4) d'(2) s(4) d(2) by auto
    ultimately show ?thesis
      unfolding pass_drained [OF c(1) s(1)] carried_def using for_peer d(1) d'(1) by (auto simp: collect_events_takes)
  qed
  moreover have "\<exists>msg. pair_pass D iter clk p = Some (Inl msg)" if "\<not> (all_for (tp_server_addr p) out \<and> all_for (tp_client_addr p) backs)"
    unfolding pass_drained [OF c(1) s(1)] using that by auto
  ultimately show ?thesis using c(1) s(1) by auto
qed

text \<open>Witness: the sample server, beside itself.\<close>

definition sample_pair :: "(sample_conn, nat) pair" where
  "sample_pair = \<lparr>tp_client = sample_server, tp_server = sample_server, tp_client_ch = ConnectionHandle 0 1, tp_server_ch = None,
     tp_client_addr = client_socket_addr, tp_server_addr = server_socket_addr, tp_to_server = [], tp_to_client = [],
     tp_client_events = [], tp_server_events = [], tp_now = 0\<rparr>"

lemma sample_flush: "\<exists>ep. flush sample_deps (\<lambda>hs. hs) 0 sample_server [] = Some ([], ep) \<and> ep_next_generation ep = 1"
proof -
  have "\<exists>ep. poll_transmit sample_deps (\<lambda>hs. hs) 0 sample_server = Some (None, ep) \<and> ep_next_generation ep = 1"
    by (simp add: poll_transmit_def pop_outbound_def new_server_ok [OF new_sample_server] service_connections_def
        refresh_next_timeout_def sweep_orphan_cids_def Let_def split: list.splits)
  then show ?thesis by (auto simp: flush.simps [of _ _ _ sample_server])
qed

theorem pair_pass_exact_witness:
  "\<exists>moved p'. pair_pass sample_deps (\<lambda>hs. hs) (\<lambda>n. Some 0) sample_pair = Some (Inr (moved, p')) \<and> tp_to_server p' = []"
proof -
  have f: "tp_client sample_pair = sample_server" "tp_server sample_pair = sample_server" "tp_now sample_pair = 0"
    "tp_to_server sample_pair = []" "tp_to_client sample_pair = []" by (simp_all add: sample_pair_def)
  have "endpoint_ok sample_drawn (tp_client sample_pair)" "endpoint_ok sample_drawn (tp_server sample_pair)"
    using new_server_ok(1) [OF new_sample_server, where M = sample_drawn] by (simp_all add: f)
  from pair_pass_exact [OF sample_driver_env this, of "\<lambda>n. Some 0"] sample_flush
  obtain ep moved p' where p': "pair_pass sample_deps (\<lambda>hs. hs) (\<lambda>n. Some 0) sample_pair = Some (Inr (moved, p'))"
    "carried sample_deps (\<lambda>hs. hs) (\<lambda>n. Some 0) ([], ep) ([], ep) sample_pair moved p'"
    by (auto simp: f all_for_def)
  then have "tp_to_server p' = []" by (auto simp: carried_def)
  with p'(1) show ?thesis by blast
qed

end
