(* ===== verification/PollLoop.thy ===== *)
theory PollLoop
  imports Drive
begin

text \<open>
  \<open>proto/examples/poll_loop.rs\<close>: the hand-rolled, zero-timeout event loop that the core's driving contract
  is documented with. One pass feeds what the two sockets hold, services the timers, drains events and does
  the stream work, and flushes last. What the sockets deliver is an argument; an \<open>Err\<close> that \<open>main\<close> returns
  and a failed assertion are values of \<open>loop_exit\<close>; \<open>None\<close> is a pass that does not return, or a panic inside
  the core.
\<close>

definition PAYLOAD :: bytes where
  "PAYLOAD = map (\<lambda>c. of_char c) ''hello from a hand-rolled event loop''"

definition LOOP_MAX_PASSES :: nat where "LOOP_MAX_PASSES = 20000"

datatype received_io = GotDatagram socket_addr bytes | WouldBlock | RecvError

datatype loop_exit = Panicked string | Failed conn_error | OutOfPasses

section \<open>A peer\<close>

fun ingest_socket ::
  "('c, 'v, 'n, 'e, 'i) deps \<Rightarrow> order \<Rightarrow> (nat \<Rightarrow> nat option) \<Rightarrow> instant \<Rightarrow> received_io list \<Rightarrow> ('c, 'e) endpoint \<Rightarrow> ('c, 'e) endpoint option" where
  "ingest_socket D iter clk now [] ep = Some ep"
| "ingest_socket D iter clk now (GotDatagram from data # ios) ep =
     do {
       (outcome, ep') \<leftarrow> handle_datagram D iter (clk 0) now from data ep;
       ingest_socket D iter (\<lambda>n. clk (Suc n)) now ios ep'
     }"
| "ingest_socket D iter clk now (WouldBlock # ios) ep = Some ep"
| "ingest_socket D iter clk now (RecvError # ios) ep = Some ep"

definition ingest ::
  "('c, 'v, 'n, 'e, 'i) deps \<Rightarrow> order \<Rightarrow> (nat \<Rightarrow> nat option) \<Rightarrow> instant \<Rightarrow> received_io list \<Rightarrow> ('c, 'e) endpoint \<Rightarrow> ('c, 'e) endpoint option" where
  "ingest D iter clk now ios ep =
     do {
       ep' \<leftarrow> ingest_socket D iter clk now ios ep;
       if (case next_timeout ep' of None \<Rightarrow> False | Some t \<Rightarrow> t \<le> now) then handle_timeout D iter now ep' else Some ep'
     }"

text \<open>What is sent, and the endpoint afterwards; an error of the socket is only printed.\<close>

definition peer_flush ::
  "('c, 'v, 'n, 'e, 'i) deps \<Rightarrow> order \<Rightarrow> instant \<Rightarrow> ('c, 'e) endpoint \<Rightarrow> (transmit list \<times> ('c, 'e) endpoint) option" where
  "peer_flush D iter now ep = flush D iter now ep []"

section \<open>The stream work\<close>

record ('c, 'e) loop_state =
  lp_client :: "('c, 'e) endpoint"
  lp_server :: "('c, 'e) endpoint"
  lp_client_conn :: connection_handle
  lp_client_stream :: "stream_id option"
  lp_server_stream :: "(connection_handle \<times> stream_id) option"
  lp_received :: bytes
  lp_done :: bool

text \<open>The handshake is done: open a stream, send, half-close.\<close>

definition on_connected ::
  "('c, 'v, 'n, 'e, 'i) deps \<Rightarrow> connection_handle \<Rightarrow> ('c, 'e) loop_state \<Rightarrow> loop_exit + ('c, 'e) loop_state" where
  "on_connected D ch st =
     (if ch \<noteq> lp_client_conn st then Inl (Panicked ''Connected names the dialled connection'')
      else case conn_mut (lp_client st) ch of
             None \<Rightarrow> Inl (Panicked ''live connection'')
           | Some s \<Rightarrow>
               (case open_bi D s of
                  (Inl e, s1) \<Rightarrow> Inl (Failed e)
                | (Inr i, s1) \<Rightarrow>
                    (case stream_write D i PAYLOAD s1 of
                       (Inl e, s2) \<Rightarrow> Inl (Failed e)
                     | (Inr _, s2) \<Rightarrow>
                         (case stream_finish D i s2 of
                            (Inl e, s3) \<Rightarrow> Inl (Failed e)
                          | (Inr _, s3) \<Rightarrow>
                              Inr (st\<lparr>lp_client := put_conn ch s3 (lp_client st), lp_client_stream := Some i\<rparr>)))))"

text \<open>The events of a side, oldest first, while the loop goes on.\<close>

fun client_events ::
  "('c, 'v, 'n, 'e, 'i) deps \<Rightarrow> event list \<Rightarrow> ('c, 'e) loop_state \<Rightarrow> loop_exit + ('c, 'e) loop_state" where
  "client_events D [] st = Inr st"
| "client_events D (Connected ch # es) st =
     (case on_connected D ch st of Inl e \<Rightarrow> Inl e | Inr st' \<Rightarrow> client_events D es st')"
| "client_events D (_ # es) st = client_events D es st"

definition server_event :: "event \<Rightarrow> ('c, 'e) loop_state \<Rightarrow> ('c, 'e) loop_state" where
  "server_event e st =
     (case e of
        StreamOpened conn i dir \<Rightarrow> st\<lparr>lp_server_stream := Some (conn, i)\<rparr>
      | ConnectionLost conn reason \<Rightarrow>
          if map_option fst (lp_server_stream st) = Some conn then st\<lparr>lp_server_stream := None\<rparr> else st
      | _ \<Rightarrow> st)"

text \<open>The read loop: the chunk buffer, what has been received, and whether the stream is finished.\<close>

partial_function (option) read_available ::
  "('c, 'v, 'n, 'e, 'i) deps \<Rightarrow> stream_id \<Rightarrow> bytes \<Rightarrow> bytes \<Rightarrow> bool \<Rightarrow> 'c conn_state \<Rightarrow> (conn_error + bytes \<times> bool \<times> 'c conn_state) option" where
  "read_available D i chunk got fin s =
     Option.bind (stream_read D i chunk s) (\<lambda>(outcome, chunk', s1).
       case outcome of
         Inl e \<Rightarrow> Some (Inl e)
       | Inr (Read n) \<Rightarrow> read_available D i chunk' (got @ take n chunk') fin s1
       | Inr ReadBlocked \<Rightarrow> Some (Inr (got, fin, s1))
       | Inr ReadFinished \<Rightarrow> Some (Inr (got, True, s1)))"

definition read_stream ::
  "('c, 'v, 'n, 'e, 'i) deps \<Rightarrow> ('c, 'e) loop_state \<Rightarrow> (loop_exit + ('c, 'e) loop_state) option" where
  "read_stream D st =
     (case lp_server_stream st of
        None \<Rightarrow> Some (Inr st)
      | Some (conn, i) \<Rightarrow>
          (case conn_mut (lp_server st) conn of
             None \<Rightarrow> Some (Inr st)
           | Some s \<Rightarrow>
               do {
                 r \<leftarrow> read_available D i (replicate 4096 0) (lp_received st) (lp_done st) s;
                 Some (case r of
                         Inl e \<Rightarrow> Inl (Failed e)
                       | Inr (got, fin, s') \<Rightarrow>
                           Inr (st\<lparr>lp_server := put_conn conn s' (lp_server st), lp_received := got, lp_done := fin\<rparr>))
               }))"

section \<open>A pass\<close>

text \<open>
  \<open>io\<close> is what the two sockets and the clocks give in this pass. The events are those in the queue when the
  drain begins: reacting to one adds none.
\<close>

record pass_io =
  io_now :: instant
  io_client :: "received_io list"
  io_server :: "received_io list"
  io_client_clock :: "nat \<Rightarrow> nat option"
  io_server_clock :: "nat \<Rightarrow> nat option"

definition poll_pass ::
  "('c, 'v, 'n, 'e, 'i) deps \<Rightarrow> order \<Rightarrow> pass_io \<Rightarrow> ('c, 'e) loop_state
     \<Rightarrow> (loop_exit + (transmit list \<times> transmit list \<times> ('c, 'e) loop_state)) option" where
  "poll_pass D iter io st =
     do {
       client \<leftarrow> ingest D iter (io_client_clock io) (io_now io) (io_client io) (lp_client st);
       server \<leftarrow> ingest D iter (io_server_clock io) (io_now io) (io_server io) (lp_server st);
       case client_events D (ep_events client) (st\<lparr>lp_client := client\<lparr>ep_events := []\<rparr>, lp_server := server\<rparr>) of
         Inl e \<Rightarrow> Some (Inl e)
       | Inr st1 \<Rightarrow>
           do {
             let st2 = fold server_event (ep_events server) (st1\<lparr>lp_server := server\<lparr>ep_events := []\<rparr>\<rparr>);
             r \<leftarrow> read_stream D st2;
             case r of
               Inl e \<Rightarrow> Some (Inl e)
             | Inr st3 \<Rightarrow>
                 do {
                   (out1, client') \<leftarrow> peer_flush D iter (io_now io) (lp_client st3);
                   (out2, server') \<leftarrow> peer_flush D iter (io_now io) (lp_server st3);
                   Some (Inr (out1, out2, st3\<lparr>lp_client := client', lp_server := server'\<rparr>))
                 }
           }
     }"

text \<open>The loop ends when the stream is finished: with its bytes and whether a client stream was opened.\<close>

fun poll_loop ::
  "('c, 'v, 'n, 'e, 'i) deps \<Rightarrow> order \<Rightarrow> pass_io list \<Rightarrow> nat \<Rightarrow> ('c, 'e) loop_state \<Rightarrow> (loop_exit + ('c, 'e) loop_state) option" where
  "poll_loop D iter ios 0 st = Some (Inl OutOfPasses)"
| "poll_loop D iter [] (Suc n) st = Some (Inl OutOfPasses)"
| "poll_loop D iter (io # ios) (Suc n) st =
     do {
       r \<leftarrow> poll_pass D iter io st;
       case r of
         Inl e \<Rightarrow> Some (Inl e)
       | Inr (_, _, st') \<Rightarrow>
           if lp_done st'
           then Some (if lp_received st' \<noteq> PAYLOAD then Inl (Panicked ''payload must round-trip intact'')
                      else if lp_client_stream st' = None then Inl (Panicked ''client should have opened a stream'')
                      else Inr st')
           else poll_loop D iter ios n st'
     }"

section \<open>Setting up\<close>

definition LOOP_PSK_HEX :: string where
  "LOOP_PSK_HEX = ''00000000000000000000000000000000000000000000000000000000000000bb''"

definition loop_setting :: "string \<Rightarrow> string \<Rightarrow> string" where
  "loop_setting key v = key @ ''='' @ [CHR 0x22] @ v @ [CHR 0x22, CHR 0x0A]"

definition loop_server_toml :: "string \<Rightarrow> string" where
  "loop_server_toml server_addr =
     ''listen = '' @ [CHR 0x22] @ server_addr @ [CHR 0x22, CHR 0x0A] @ ''[[clients]]'' @ [CHR 0x0A]
     @ loop_setting ''client_id'' ''demo'' @ loop_setting ''psk'' LOOP_PSK_HEX"

definition loop_client_toml :: "string \<Rightarrow> string" where
  "loop_client_toml server_addr =
     loop_setting ''client_id'' ''demo'' @ loop_setting ''psk'' LOOP_PSK_HEX @ loop_setting ''server'' server_addr"

text \<open>
  What \<open>main\<close> calls on its way to the loop: binding each socket and making it non-blocking, with the local
  address of the server's (an error is its message), rendering that address, the TOML decoder at its two
  types, and what building the two endpoints needs.
\<close>

record 'e loop_env =
  le_server_socket :: "string + socket_addr"
  le_client_socket :: "string option"
  le_fmt :: "socket_addr \<Rightarrow> string"
  le_parse_server :: "string \<Rightarrow> string + server_secrets"
  le_parse_client :: "string \<Rightarrow> string + client_config_file"
  le_build :: build_env
  le_server_inner :: 'e
  le_client_inner :: 'e
  le_crypto_err :: "string option"
  le_nonce :: bytes

datatype setup_error = SocketFailed string | TomlFailed string | ConfigFailed config_error

definition loop_setup ::
  "('c, 'v, 'n, 'e, 'i) deps \<Rightarrow> 'e loop_env \<Rightarrow> instant \<Rightarrow> u32 \<Rightarrow> (setup_error + ('c, 'e) loop_state) option" where
  "loop_setup D E now minutes =
     (case le_server_socket E of
        Inl e \<Rightarrow> Some (Inl (SocketFailed e))
      | Inr server_addr \<Rightarrow>
          case le_parse_server E (loop_server_toml (le_fmt E server_addr)) of
            Inl e \<Rightarrow> Some (Inl (TomlFailed e))
          | Inr secrets \<Rightarrow>
              case new_server (le_build E) (le_server_inner E) secrets of
                Inl e \<Rightarrow> Some (Inl (ConfigFailed e))
              | Inr server \<Rightarrow>
                  case le_client_socket E of
                    Some e \<Rightarrow> Some (Inl (SocketFailed e))
                  | None \<Rightarrow>
                      case le_parse_client E (loop_client_toml (le_fmt E server_addr)) of
                        Inl e \<Rightarrow> Some (Inl (TomlFailed e))
                      | Inr cfg \<Rightarrow>
                          do {
                            r \<leftarrow> new_client D (le_client_inner E) (le_crypto_err E) (le_nonce E) now minutes cfg;
                            Some (case r of
                                    Inl e \<Rightarrow> Inl (ConfigFailed e)
                                  | Inr (client, client_conn) \<Rightarrow>
                                      Inr \<lparr>lp_client = client, lp_server = server, lp_client_conn = client_conn, lp_client_stream = None,
                                        lp_server_stream = None, lp_received = [], lp_done = False\<rparr>)
                          })"

definition poll_main ::
  "('c, 'v, 'n, 'e, 'i) deps \<Rightarrow> order \<Rightarrow> 'e loop_env \<Rightarrow> instant \<Rightarrow> u32 \<Rightarrow> pass_io list \<Rightarrow> ((setup_error + loop_exit) + ('c, 'e) loop_state) option" where
  "poll_main D iter E now minutes ios =
     do {
       r \<leftarrow> loop_setup D E now minutes;
       case r of
         Inl e \<Rightarrow> Some (Inl (Inl e))
       | Inr st \<Rightarrow> map_option (\<lambda>x. case x of Inl e \<Rightarrow> Inl (Inr e) | Inr st' \<Rightarrow> Inr st') (poll_loop D iter ios LOOP_MAX_PASSES st)
     }"

section \<open>Reading what is there\<close>

text \<open>
  What a connection has received and not yet delivered is finite: \<open>m c\<close> bounds it in bytes; delivering a
  chunk takes its length off, and no other part of a read adds to it.
\<close>

definition buffered :: "('c, 'v, 'n, 'z) quinn_conn_scheme \<Rightarrow> ('c \<Rightarrow> nat) \<Rightarrow> bool" where
  "buffered Q m \<longleftrightarrow>
     (\<forall>i b c. m (snd (qc_read Q i b c)) \<le> m c) \<and> (\<forall>i c. m (qc_chunks_finalize Q i c) \<le> m c)
   \<and> (\<forall>i n c. m (snd (qc_chunks_next Q i n c))
        + (case fst (qc_chunks_next Q i n c) of Inr (Some bs) \<Rightarrow> length bs | _ \<Rightarrow> 0) \<le> m c)"

lemma buffered_next:
  assumes "buffered Q m"
  shows "m (snd (qc_chunks_next Q i n c)) + (case fst (qc_chunks_next Q i n c) of Inr (Some bs) \<Rightarrow> length bs | _ \<Rightarrow> 0) \<le> m c"
  using assms unfolding buffered_def by blast

lemma delivered_buffered:
  assumes B: "buffered Q m"
  shows "delivered Q i cap c bs c' \<Longrightarrow> m c' + length bs \<le> m c"
proof (induction rule: delivered.induct)
  case (chunk cap c bs c1 rest c2)
  with buffered_next [OF B, of i cap c] show ?case by simp
qed simp

lemma stream_read_buffered:
  assumes B: "buffered Q m" and C: "chunks_bounded Q" and r: "stream_read Q i buf s = Some (Inr (Read n), b, s')"
  shows "m (cs_conn s') + n \<le> m (cs_conn s)"
proof -
  obtain c where x: "qc_read Q i True (cs_conn s) = (Inr (), c)"
    using r by (cases "qc_read Q i True (cs_conn s)") (auto simp: stream_read_def Let_def split: if_splits sum.splits q_readable_error.splits)
  obtain bs c0 e where rc: "read_chunks Q i c buf 0 = Some (fst e, copy_at buf 0 bs, length bs, snd e)"
    and d: "delivered Q i (length buf) c bs c0" and e: "read_end Q i (length buf - length bs) c0 e"
    using read_chunks_delivers [OF C, of 0 buf i c] by auto
  obtain c1 fin err where e1: "e = (c1, fin, err)" by (cases e)
  have "m c1 \<le> m c0"
    using e buffered_next [OF B, of i "length buf - length bs" c0]
    by (auto simp: e1 split: if_splits option.splits conn_error.splits)
  moreover have "m c \<le> m (cs_conn s)" "m (qc_chunks_finalize Q i c1) \<le> m c1"
    using B x unfolding buffered_def by (metis snd_conv, blast)
  moreover have "n = length bs \<and> cs_conn s' = qc_chunks_finalize Q i c1"
    using r x rc e1 by (auto simp: stream_read_def Let_def split: if_splits option.splits)
  ultimately show ?thesis using delivered_buffered [OF B d] by simp
qed

lemma read_available_returns:
  assumes B: "buffered D m" and C: "chunks_bounded D"
  shows "\<exists>r. read_available D i chunk got fin s = Some r
    \<and> (\<forall>got' fin' s'. r = Inr (got', fin', s') \<longrightarrow> (\<exists>more. got' = got @ more))"
proof (induction "m (cs_conn s)" arbitrary: chunk got s rule: less_induct)
  case less
  obtain o1 chunk' s1 where r: "stream_read D i chunk s = Some (o1, chunk', s1)"
    and n: "\<And>n. o1 = Inr (Read n) \<Longrightarrow> 0 < n"
    using stream_read_returns [OF C, of i chunk s] by blast
  show ?case
  proof (cases "\<exists>n. o1 = Inr (Read n)")
    case True
    then obtain k where k: "o1 = Inr (Read k)" by blast
    have "m (cs_conn s1) < m (cs_conn s)" using stream_read_buffered [OF B C] r k n [OF k] by fastforce
    from less.hyps [OF this, of chunk' "got @ take k chunk'"] r k show ?thesis
      by (subst read_available.simps) (auto simp: read_available.simps [of _ _ chunk])
  next
    case False
    with r show ?thesis by (cases o1; cases "projr o1") (auto simp: read_available.simps)
  qed
qed

section \<open>Endpoints stay in order\<close>

text \<open>An endpoint in order, whose generation counter has room for \<open>n\<close> more connections.\<close>

definition sound :: "('e \<Rightarrow> cid set) \<Rightarrow> nat \<Rightarrow> ('c, 'e) endpoint \<Rightarrow> bool" where
  "sound M n ep \<longleftrightarrow> endpoint_ok M ep \<and> unat (ep_next_generation ep) + n < 2 ^ 64"

lemma sound_cong:
  assumes "endpoint_ok M ep' = endpoint_ok M ep" "ep_next_generation ep' = ep_next_generation ep"
  shows "sound M n ep' = sound M n ep"
  using assms by (simp add: sound_def)

lemma service_generation:
  assumes Q: "quinn_ok D iter W M" and ok: "endpoint_ok M ep" and s: "service_connections D iter now ep = Some ep'"
  shows "ep_next_generation ep' = ep_next_generation ep"
proof -
  have "mints_fresh D M" "iter_ok iter" "books_ok M ep" "handles_ok ep" using Q ok by (simp_all add: quinn_ok_def endpoint_ok_def)
  from service_connections_keeps(4) [OF this(1,2) s this(3,4)] show ?thesis by (simp add: config_def)
qed

lemma handle_timeout_sound:
  assumes E: "driver_env D iter W M w k" and ok: "sound M n ep"
  shows "\<exists>ep'. handle_timeout D iter now ep = Some ep' \<and> sound M n ep'"
proof -
  note Q = driver_envD(1) [OF E]
  let ?ep = "ep\<lparr>ep_connections := map (\<lambda>(ch, s). (ch, expire D now s)) (ep_connections ep)\<rparr>"
  have e: "endpoint_ok M ?ep" using ok endpoint_ok_cong(1) [where ep = ep and ep' = ?ep and M = M] by (simp add: sound_def config_def o_def case_prod_beta)
  obtain ep' where h: "handle_timeout D iter now ep = Some ep'" "endpoint_ok M ep'"
    using handle_timeout_keeps [OF Q, of ep now] ok by (auto simp: sound_def)
  then have "service_connections D iter now ?ep = Some ep'" by (simp add: handle_timeout_def)
  from service_generation [OF Q e this] h ok show ?thesis by (simp add: sound_def)
qed

lemma poll_transmit_sound:
  assumes E: "driver_env D iter W M w k" and ok: "sound M n ep" and t: "poll_transmit D iter now ep = Some (t, ep')"
  shows "sound M n ep'"
proof -
  note Q = driver_envD(1) [OF E]
  have e: "endpoint_ok M ep" using ok by (simp add: sound_def)
  have "endpoint_ok M ep'" using poll_transmit_keeps [OF Q e, of now] t by auto
  with poll_transmit_side(1) [OF Q e t] ok show ?thesis by (simp add: sound_def config_def)
qed

lemma ingest_returns:
  assumes E: "driver_env D iter W M w k"
  shows "sound M (n + length ios) ep \<Longrightarrow> \<exists>ep'. ingest_socket D iter clk now ios ep = Some ep' \<and> sound M n ep'"
proof (induction ios arbitrary: ep clk)
  case (Cons x ios)
  show ?case
  proof (cases x)
    case (GotDatagram a bs)
    have "ep_next_generation ep \<noteq> - 1"
      using Cons.prems by (auto simp: sound_def unsigned_minus_1_eq_mask mask_eq_exp_minus_1)
    then obtain out ep1 where h: "handle_datagram D iter (clk 0) now a bs ep = Some (out, ep1)" "endpoint_ok M ep1" "advances ep ep1"
      using handle_datagram_moves [OF driver_envD(1) [OF E], of ep "clk 0" now a bs] Cons.prems by (auto simp: sound_def)
    have "sound M (n + length ios) ep1" using h(2,3) Cons.prems by (simp add: sound_def advances_def)
    from Cons.IH [OF this] h(1) GotDatagram show ?thesis by simp
  qed (use Cons.prems in \<open>simp_all add: sound_def\<close>)
qed simp

lemma ingest_ok:
  assumes E: "driver_env D iter W M w k" and ok: "sound M (n + length ios) ep"
  shows "\<exists>ep'. ingest D iter clk now ios ep = Some ep' \<and> sound M n ep'"
proof -
  obtain ep1 where "ingest_socket D iter clk now ios ep = Some ep1" "sound M n ep1" using ingest_returns [OF E ok] by blast
  with handle_timeout_sound [OF E, of n ep1 now] show ?thesis by (auto simp: ingest_def)
qed

lemma taken_events_ok: "sound M n (ep\<lparr>ep_events := es\<rparr>) = sound M n ep"
  by (rule sound_cong [OF endpoint_ok_cong(1)]) (simp_all add: config_def)

lemma put_conn_sound [simp]: "sound M n (put_conn ch s ep) = sound M n ep"
  by (rule sound_cong) (simp_all add: put_conn_keeps)

lemma on_connected_ok:
  assumes "on_connected D ch st = Inr st'"
  shows "sound M n (lp_client st') = sound M n (lp_client st) \<and> lp_server st' = lp_server st \<and> lp_received st' = lp_received st"
  using assms by (auto simp: on_connected_def split: if_splits option.splits prod.splits sum.splits)

lemma client_events_ok:
  "client_events D es st = Inr st' \<Longrightarrow>
    sound M n (lp_client st') = sound M n (lp_client st) \<and> lp_server st' = lp_server st \<and> lp_received st' = lp_received st"
proof (induction D es st rule: client_events.induct)
  case (2 D ch es st)
  then obtain st1 where o: "on_connected D ch st = Inr st1" "client_events D es st1 = Inr st'" by (auto split: sum.splits)
  from 2(1) [OF o] on_connected_ok [OF o(1), of M n] show ?case by simp
qed simp_all

lemma server_events_same:
  "lp_client (fold server_event es st) = lp_client st \<and> lp_server (fold server_event es st) = lp_server st
    \<and> lp_received (fold server_event es st) = lp_received st"
  by (induction es arbitrary: st) (simp_all add: server_event_def split: event.split)

lemma read_stream_returns:
  assumes B: "buffered D m" and C: "chunks_bounded D"
  shows "\<exists>r. read_stream D st = Some r \<and> (\<forall>st'. r = Inr st' \<longrightarrow> lp_client st' = lp_client st
    \<and> sound M n (lp_server st') = sound M n (lp_server st) \<and> (\<exists>more. lp_received st' = lp_received st @ more))"
proof (cases "\<exists>conn i s. lp_server_stream st = Some (conn, i) \<and> conn_mut (lp_server st) conn = Some s")
  case True
  then obtain conn i s where c: "lp_server_stream st = Some (conn, i)" "conn_mut (lp_server st) conn = Some s" by blast
  obtain r where r: "read_available D i (replicate 4096 0) (lp_received st) (lp_done st) s = Some r"
    "\<forall>got' fin' s'. r = Inr (got', fin', s') \<longrightarrow> (\<exists>more. got' = lp_received st @ more)"
    using read_available_returns [OF B C] by blast
  then show ?thesis using c by (cases r) (auto simp: read_stream_def)
next
  case False
  then show ?thesis by (cases "lp_server_stream st") (auto simp: read_stream_def split: option.splits)
qed

lemma peer_flush_rests:
  assumes E: "driver_env D iter W M w k" and ok: "sound M n ep"
  shows "\<exists>ts ep'. peer_flush D iter now ep = Some (ts, ep') \<and> sound M n ep' \<and> quiescent ep'"
proof -
  have "\<exists>ts ep'. flush D iter now ep [] = Some ([] @ ts, ep') \<and> sound M n ep' \<and> quiescent ep' \<and> pot w ep' + length ts \<le> pot w ep"
  proof (rule flush_rests [OF E, where I = "sound M n"])
    show "endpoint_ok M ep" if "sound M n ep" for ep using that by (simp add: sound_def)
    show "sound M n ep'" if "sound M n ep" "poll_transmit D iter now ep = Some (t, ep')" for ep t ep'
      using that by (rule poll_transmit_sound [OF E])
  qed (rule ok)
  then show ?thesis by (auto simp: peer_flush_def)
qed

section \<open>The contract of the loop\<close>

text \<open>
  A pass of the documented loop returns and, unless it ends the program, leaves both endpoints at rest with
  their real deadlines: it flushes last. What the server has received only grows at its end.
\<close>

lemma poll_pass_flushes_last:
  assumes E: "driver_env D iter W M w k" and B: "buffered D m"
    and ok: "sound M (a + length (io_client io)) (lp_client st)" "sound M (b + length (io_server io)) (lp_server st)"
  shows "\<exists>r. poll_pass D iter io st = Some r \<and> (\<forall>out1 out2 st'. r = Inr (out1, out2, st') \<longrightarrow>
      quiescent (lp_client st') \<and> quiescent (lp_server st') \<and> sound M a (lp_client st') \<and> sound M b (lp_server st')
      \<and> (\<exists>more. lp_received st' = lp_received st @ more))"
proof -
  obtain client where c: "ingest D iter (io_client_clock io) (io_now io) (io_client io) (lp_client st) = Some client" "sound M a client"
    using ingest_ok [OF E ok(1)] by blast
  obtain server where s: "ingest D iter (io_server_clock io) (io_now io) (io_server io) (lp_server st) = Some server" "sound M b server"
    using ingest_ok [OF E ok(2)] by blast
  let ?st = "st\<lparr>lp_client := client\<lparr>ep_events := []\<rparr>, lp_server := server\<rparr>"
  show ?thesis
  proof (cases "client_events D (ep_events client) ?st")
    case (Inl e)
    with c s show ?thesis by (simp add: poll_pass_def)
  next
    case (Inr st1)
    have e: "sound M a (lp_client st1)" "lp_received st1 = lp_received st"
      using client_events_ok [OF Inr, of M a] c(2) by (simp_all add: taken_events_ok)
    define st2 where "st2 = fold server_event (ep_events server) (st1\<lparr>lp_server := server\<lparr>ep_events := []\<rparr>\<rparr>)"
    have e2: "lp_client st2 = lp_client st1" "sound M b (lp_server st2)" "lp_received st2 = lp_received st"
      using s(2) e(2) by (simp_all add: st2_def taken_events_ok server_events_same)
    obtain r where r: "read_stream D st2 = Some r" "\<forall>st'. r = Inr st' \<longrightarrow> lp_client st' = lp_client st2
        \<and> sound M b (lp_server st') = sound M b (lp_server st2) \<and> (\<exists>more. lp_received st' = lp_received st2 @ more)"
      using read_stream_returns [OF B driver_envD(4) [OF E]] by blast
    show ?thesis
    proof (cases r)
      case (Inl x)
      then show ?thesis by (simp add: poll_pass_def c(1) s(1) Inr st2_def [symmetric] r(1))
    next
      case r3: (Inr st3)
      note r' = r(2) [rule_format, OF r3]
      have ok3: "sound M a (lp_client st3)" "sound M b (lp_server st3)" using r' e(1) e2 by simp_all
      obtain out1 client' where f1: "peer_flush D iter (io_now io) (lp_client st3) = Some (out1, client')" "sound M a client'" "quiescent client'"
        using peer_flush_rests [OF E ok3(1)] by blast
      obtain out2 server' where f2: "peer_flush D iter (io_now io) (lp_server st3) = Some (out2, server')" "sound M b server'" "quiescent server'"
        using peer_flush_rests [OF E ok3(2)] by blast
      have "poll_pass D iter io st = Some (Inr (out1, out2, st3\<lparr>lp_client := client', lp_server := server'\<rparr>))"
        by (simp add: poll_pass_def c(1) s(1) Inr st2_def [symmetric] r(1) r3 f1(1) f2(1))
      with f1 f2 r' e2(3) show ?thesis by simp
    qed
  qed
qed

section \<open>The whole program\<close>

definition datagrams :: "(pass_io \<Rightarrow> received_io list) \<Rightarrow> pass_io list \<Rightarrow> nat" where
  "datagrams f ios = (\<Sum>io\<leftarrow>ios. length (f io))"

definition loop_success :: "('c, 'e) loop_state \<Rightarrow> bool" where
  "loop_success st \<longleftrightarrow> lp_received st = PAYLOAD \<and> lp_client_stream st \<noteq> None \<and> quiescent (lp_client st) \<and> quiescent (lp_server st)"

lemma poll_loop_returns:
  assumes E: "driver_env D iter W M w k" and B: "buffered D m"
  shows "sound M (datagrams io_client ios) (lp_client st) \<Longrightarrow> sound M (datagrams io_server ios) (lp_server st) \<Longrightarrow>
    \<exists>r. poll_loop D iter ios n st = Some r \<and> (\<forall>st'. r = Inr st' \<longrightarrow> loop_success st')"
proof (induction ios arbitrary: n st)
  case Nil
  then show ?case by (cases n) simp_all
next
  case (Cons io ios)
  show ?case
  proof (cases n)
    case (Suc n')
    obtain r where r: "poll_pass D iter io st = Some r" and ok: "\<forall>out1 out2 st'. r = Inr (out1, out2, st') \<longrightarrow>
        quiescent (lp_client st') \<and> quiescent (lp_server st') \<and> sound M (datagrams io_client ios) (lp_client st')
        \<and> sound M (datagrams io_server ios) (lp_server st') \<and> (\<exists>more. lp_received st' = lp_received st @ more)"
      using poll_pass_flushes_last [OF E B, of "datagrams io_client ios" io st "datagrams io_server ios"] Cons.prems
      by (auto simp: datagrams_def add.commute)
    show ?thesis
    proof (cases r)
      case (Inr x)
      obtain out1 out2 st' where x: "x = (out1, out2, st')" by (cases x)
      note o = ok [rule_format, OF Inr [unfolded x]]
      show ?thesis
      proof (cases "lp_done st'")
        case True
        with Suc r Inr x o show ?thesis by (auto simp: loop_success_def)
      next
        case False
        with Cons.IH [of st' n'] o Suc r Inr x show ?thesis by simp
      qed
    qed (use Suc r in simp)
  qed simp
qed

lemma loop_setup_returns: "\<exists>r. loop_setup D L now minutes = Some r"
proof -
  have "\<exists>r. new_client D (le_client_inner L) (le_crypto_err L) (le_nonce L) now minutes cfg = Some r" for cfg
    by (rule new_client_returns)
  then show ?thesis by (auto simp: loop_setup_def bind_eq_Some_conv split: sum.splits option.splits)
qed

lemma loop_setup_sound:
  assumes E: "driver_env D iter W M w k" and l: "loop_setup D L now minutes = Some (Inr st)" and n: "n < 2 ^ 64 - 2"
  shows "sound M n (lp_client st)" "sound M n (lp_server st)"
proof -
  obtain secrets cfg server client ch where s: "new_server (le_build L) (le_server_inner L) secrets = Inr server"
    and c: "new_client D (le_client_inner L) (le_crypto_err L) (le_nonce L) now minutes cfg = Some (Inr (client, ch))"
    and st: "lp_client st = client" "lp_server st = server"
    using l
    apply (auto simp: loop_setup_def bind_eq_Some_conv split: sum.splits option.splits)
    subgoal for _ _ _ _ y by (cases y) auto
    done
  have "le_crypto_err L = None" using c by (cases "le_crypto_err L") (simp_all add: new_client_def)
  with c new_client_ok [OF driver_envD(1) [OF E]] have "endpoint_ok M client" "ep_next_generation client = 2" by auto
  with n st show "sound M n (lp_client st)" by (simp add: sound_def)
  show "sound M n (lp_server st)" using n st new_server_ok(1,3) [OF s] by (simp add: sound_def)
qed

text \<open>
  C35. The documented loop is a program that ends: whatever the sockets deliver, \<open>main\<close> returns, at the latest when
  its passes are used up, and if it returns well, the server received exactly the payload, the client had
  opened its stream, and both endpoints are at rest, with nothing left to send.
\<close>

theorem poll_main_returns:
  assumes E: "driver_env D iter W M w k" and B: "buffered D m"
    and few: "datagrams io_client ios < 2 ^ 64 - 2" "datagrams io_server ios < 2 ^ 64 - 2"
  shows "\<exists>r. poll_main D iter L now minutes ios = Some r \<and> (\<forall>st. r = Inr st \<longrightarrow>
    lp_received st = PAYLOAD \<and> lp_client_stream st \<noteq> None \<and> quiescent (lp_client st) \<and> quiescent (lp_server st))"
proof -
  obtain r where r: "loop_setup D L now minutes = Some r" using loop_setup_returns by blast
  show ?thesis
  proof (cases r)
    case (Inl e)
    with r show ?thesis by (simp add: poll_main_def)
  next
    case (Inr st)
    note l = loop_setup_sound [OF E r [unfolded Inr]]
    from poll_loop_returns [OF E B l(1) [OF few(1)] l(2) [OF few(2)]] obtain x where
      "poll_loop D iter ios LOOP_MAX_PASSES st = Some x" "\<forall>st'. x = Inr st' \<longrightarrow> loop_success st'" by blast
    with r Inr show ?thesis by (cases x) (auto simp: poll_main_def loop_success_def)
  qed
qed

text \<open>Witness: the sample server and client, and two passes in which nothing arrives.\<close>

abbreviation quiet_pass :: pass_io where
  "quiet_pass \<equiv> \<lparr>io_now = 0, io_client = [WouldBlock], io_server = [WouldBlock], io_client_clock = (\<lambda>n. Some 0), io_server_clock = (\<lambda>n. Some 0)\<rparr>"

theorem poll_main_returns_witness:
  "\<exists>r. poll_main sample_deps (\<lambda>hs. hs) \<lparr>le_server_socket = Inr (AddrV4 1 1), le_client_socket = None, le_fmt = (\<lambda>a. ''1''),
       le_parse_server = (\<lambda>t. Inr sample_secrets), le_parse_client = (\<lambda>t. Inr sample_client), le_build = sample_build_env,
       le_server_inner = 0, le_client_inner = 0, le_crypto_err = None, le_nonce = sample_nonce\<rparr> 0 0 [quiet_pass, quiet_pass] = Some r
     \<and> (\<forall>st. r = Inr st \<longrightarrow> lp_received st = PAYLOAD)"
proof -
  have "buffered sample_deps (\<lambda>c. length (sm_input c))"
    by (auto simp: buffered_def sample_deps_def sample_quinn_def quinn_conn.defs)
  moreover have "datagrams io_client [quiet_pass, quiet_pass] < 2 ^ 64 - 2" "datagrams io_server [quiet_pass, quiet_pass] < 2 ^ 64 - 2"
    by (simp_all add: datagrams_def)
  ultimately show ?thesis using poll_main_returns [OF sample_driver_env] by blast
qed

end
