(* ===== verification/KeyMaterial.thy ===== *)
theory KeyMaterial
  imports Endpoint
begin

text \<open>
  \<open>proto/src/crypto.rs\<close>: the keys the endpoint draws and the reset key's signatures, the certificate verifier of
  the client, the building of the TLS configurations, and quinn's endpoint configuration with the recording
  connection-ID generator (\<open>recording_endpoint_config\<close> of \<open>endpoint.rs\<close>; what the generator records is in
  \<open>Registry\<close>). And \<open>src/config.rs\<close>, the loading of the server's secrets. HMAC, rcgen, rustls, quinn's random
  generator, the file system and the TOML decoder are parameters.
\<close>

unbundle bit_operations_syntax

section \<open>The stateless-reset key\<close>

record hmac_prims =
  hmac_sign :: "bytes \<Rightarrow> bytes \<Rightarrow> bytes"
  hmac_verify :: "bytes \<Rightarrow> bytes \<Rightarrow> bytes \<Rightarrow> bool"

text \<open>Documented behaviour of HMAC-SHA-256: tags have 32 bytes, and exactly the tag of a message verifies.\<close>

definition hmac_ok :: "hmac_prims \<Rightarrow> bool" where
  "hmac_ok H \<longleftrightarrow> (\<forall>key m. length (hmac_sign H key m) = 32) \<and> (\<forall>key m t. hmac_verify H key m t \<longleftrightarrow> t = hmac_sign H key m)"

datatype hmac_reset_key = HmacResetKey (reset_secret: bytes)
datatype token_prk = TokenPrk bytes
datatype crypto_error = CryptoError

text \<open>\<open>rng n\<close> is what the system's generator fills a buffer of \<open>n\<close> bytes with.\<close>

definition random_bytes :: "(nat \<Rightarrow> bytes) \<Rightarrow> nat \<Rightarrow> bytes" where
  "random_bytes rng n = rng n"

definition reset_key :: "(nat \<Rightarrow> bytes) \<Rightarrow> hmac_reset_key" where
  "reset_key rng = HmacResetKey (random_bytes rng 64)"

definition token_key :: "(nat \<Rightarrow> bytes) \<Rightarrow> token_prk" where
  "token_key rng = TokenPrk (random_bytes rng 32)"

definition signature_len :: nat where "signature_len = 32"

text \<open>\<open>copy_from_slice\<close> panics, \<open>None\<close>, when the lengths differ.\<close>

definition reset_sign :: "hmac_prims \<Rightarrow> hmac_reset_key \<Rightarrow> bytes \<Rightarrow> bytes \<Rightarrow> bytes option" where
  "reset_sign H k m out =
     (let tag = hmac_sign H (reset_secret k) m in if length out = length tag then Some tag else None)"

definition reset_verify :: "hmac_prims \<Rightarrow> hmac_reset_key \<Rightarrow> bytes \<Rightarrow> bytes \<Rightarrow> crypto_error + unit" where
  "reset_verify H k m signature = (if hmac_verify H (reset_secret k) m signature then Inr () else Inl CryptoError)"

text \<open>
  A buffer of \<open>signature_len\<close> bytes is what \<open>sign\<close> needs, and what it writes is what \<open>verify\<close> accepts and
  nothing else.
\<close>

lemma reset_sign_verify:
  assumes "hmac_ok H"
  shows "reset_sign H k m out \<noteq> None \<longleftrightarrow> length out = signature_len"
    and "length out = signature_len \<Longrightarrow> reset_verify H k m t = Inr () \<longleftrightarrow> reset_sign H k m out = Some t"
  using assms by (auto simp: hmac_ok_def reset_sign_def reset_verify_def signature_len_def Let_def)

section \<open>The client's certificate verifier\<close>

datatype signature_scheme =
    RSA_PKCS1_SHA256 | RSA_PKCS1_SHA384 | RSA_PKCS1_SHA512 | ECDSA_NISTP256_SHA256 | ECDSA_NISTP384_SHA384
  | ED25519 | RSA_PSS_SHA256 | RSA_PSS_SHA384 | RSA_PSS_SHA512

datatype server_cert_verified = ServerCertVerified
datatype handshake_signature_valid = HandshakeSignatureValid

text \<open>It accepts every certificate and every signature: the pre-shared key authenticates the peer.\<close>

definition verify_server_cert :: "bytes \<Rightarrow> bytes list \<Rightarrow> string \<Rightarrow> bytes \<Rightarrow> nat \<Rightarrow> 'err + server_cert_verified" where
  "verify_server_cert end_entity intermediates server_name ocsp_response now = Inr ServerCertVerified"

definition verify_tls12_signature :: "bytes \<Rightarrow> bytes \<Rightarrow> signature_scheme \<times> bytes \<Rightarrow> 'err + handshake_signature_valid" where
  "verify_tls12_signature message cert dss = Inr HandshakeSignatureValid"

definition verify_tls13_signature :: "bytes \<Rightarrow> bytes \<Rightarrow> signature_scheme \<times> bytes \<Rightarrow> 'err + handshake_signature_valid" where
  "verify_tls13_signature message cert dss = Inr HandshakeSignatureValid"

definition supported_verify_schemes :: "signature_scheme list" where
  "supported_verify_schemes = [RSA_PKCS1_SHA256, RSA_PKCS1_SHA384, RSA_PKCS1_SHA512, ECDSA_NISTP256_SHA256,
     ECDSA_NISTP384_SHA384, ED25519, RSA_PSS_SHA256, RSA_PSS_SHA384, RSA_PSS_SHA512]"

section \<open>TLS configurations\<close>

datatype tls_version = TLS12 | TLS13
datatype cert_verifier = SkipServerVerification

text \<open>
  What is called of rcgen and rustls: a certificate and its key in DER for some names; a builder on the
  default provider for some versions; a server configuration without client authentication from a chain
  and a key; a client configuration with a custom verifier and no client authentication; and quinn's
  configurations from these. \<open>'b\<close> and \<open>'d\<close> are builders, \<open>'s\<close> and \<open>'t\<close> rustls configurations.
\<close>

record ('b, 's, 'd, 't) tls_crates =
  generate_simple_self_signed :: "string list \<Rightarrow> string + bytes \<times> bytes"
  server_builder :: "tls_version list \<Rightarrow> string + 'b"
  with_single_cert :: "'b \<Rightarrow> bytes list \<Rightarrow> bytes \<Rightarrow> string + 's"
  quic_server_try_from :: "'s \<Rightarrow> string + bytes"
  client_builder :: "tls_version list \<Rightarrow> string + 'd"
  with_custom_verifier :: "'d \<Rightarrow> cert_verifier \<Rightarrow> 't"
  quic_client_try_from :: "'t \<Rightarrow> string + bytes"

definition self_signed_generate :: "('b, 's, 'd, 't) tls_crates \<Rightarrow> string + self_signed" where
  "self_signed_generate T =
     (case generate_simple_self_signed T [''localhost''] of
        Inl e \<Rightarrow> Inl e
      | Inr (cert, key) \<Rightarrow> Inr \<lparr>sf_cert = cert, sf_key = key\<rparr>)"

definition quic_server_config :: "('b, 's, 'd, 't) tls_crates \<Rightarrow> self_signed \<Rightarrow> string + bytes" where
  "quic_server_config T identity =
     (case server_builder T [TLS13] of
        Inl e \<Rightarrow> Inl e
      | Inr b \<Rightarrow>
          case with_single_cert T b [sf_cert identity] (sf_key identity) of
            Inl e \<Rightarrow> Inl e
          | Inr rustls_config \<Rightarrow> quic_server_try_from T rustls_config)"

definition quic_client_config :: "('b, 's, 'd, 't) tls_crates \<Rightarrow> string + bytes" where
  "quic_client_config T =
     (case client_builder T [TLS13] of
        Inl e \<Rightarrow> Inl e
      | Inr b \<Rightarrow> quic_client_try_from T (with_custom_verifier T b SkipServerVerification))"

text \<open>What \<open>build_clients\<close> and \<open>new_client\<close> are given of this.\<close>

definition tls_build_env :: "('b, 's, 'd, 't) tls_crates \<Rightarrow> (nat \<Rightarrow> bytes) \<Rightarrow> (string \<Rightarrow> string) \<Rightarrow> build_env" where
  "tls_build_env T rng debug_fmt =
     \<lparr>be_debug_fmt = debug_fmt, be_identity = self_signed_generate T, be_quic_server = quic_server_config T,
      be_token_key = (case token_key rng of TokenPrk k \<Rightarrow> k)\<rparr>"

definition client_crypto_error :: "('b, 's, 'd, 't) tls_crates \<Rightarrow> string option" where
  "client_crypto_error T = (case quic_client_config T of Inl e \<Rightarrow> Some e | Inr c \<Rightarrow> None)"

text \<open>
  An unambiguous set of clients is refused only when a crate refuses: the identity first, then the server
  configuration; and a client whose configuration is refused dials no one.
\<close>

lemma build_clients_tls_errors:
  assumes "validate_clients fmt {} {} (ss_clients secrets) = None" and "build_clients (tls_build_env T rng fmt) secrets = Inl e"
  shows "(\<exists>m. self_signed_generate T = Inl m \<and> e = Io (''tls identity: '' @ m))
    \<or> (\<exists>i m. self_signed_generate T = Inr i \<and> quic_server_config T i = Inl m \<and> e = Io (''quic server config: '' @ m))"
  using assms by (auto simp: build_clients_def tls_build_env_def split: sum.splits)

lemma new_client_tls_error:
  assumes "quic_client_config T = Inl m"
  shows "new_client D inner (client_crypto_error T) nonce now minute cfg = Some (Inl (Io (''client crypto: '' @ m)))"
  using assms by (simp add: new_client_def client_crypto_error_def)

section \<open>The endpoint configuration\<close>

text \<open>
  What is called of quinn's random generator. A \<open>RecordingCidGenerator\<close> is one of these; the tables it records
  into are those of the endpoint, so they are not in the record.
\<close>

record 'g random_cid_crate =
  random_cid_new :: "nat \<Rightarrow> 'g"
  random_cid_len :: "'g \<Rightarrow> nat"
  random_cid_lifetime :: "'g \<Rightarrow> instant option"

record 'g recording_cid_generator =
  rcg_inner :: 'g

definition recording_new :: "'g random_cid_crate \<Rightarrow> nat \<Rightarrow> 'g recording_cid_generator" where
  "recording_new G cid_len = \<lparr>rcg_inner = random_cid_new G cid_len\<rparr>"

definition recording_cid_len :: "'g random_cid_crate \<Rightarrow> 'g recording_cid_generator \<Rightarrow> nat" where
  "recording_cid_len G g = random_cid_len G (rcg_inner g)"

definition recording_cid_lifetime :: "'g random_cid_crate \<Rightarrow> 'g recording_cid_generator \<Rightarrow> instant option" where
  "recording_cid_lifetime G g = random_cid_lifetime G (rcg_inner g)"

record 'g endpoint_config =
  ec_reset_key :: hmac_reset_key
  ec_cid_generator :: "unit \<Rightarrow> 'g recording_cid_generator"

definition recording_endpoint_config :: "(nat \<Rightarrow> bytes) \<Rightarrow> 'g random_cid_crate \<Rightarrow> 'g endpoint_config" where
  "recording_endpoint_config rng G =
     \<lparr>ec_reset_key = reset_key rng, ec_cid_generator = (\<lambda>_. recording_new G LOCAL_CID_LEN)\<rparr>"

text \<open>
  A connection ID of the length that quinn is told the generator has is what the endpoint reads back from a
  short header.
\<close>

lemma short_header_routes:
  assumes "\<And>n. random_cid_len G (random_cid_new G n) = n"
    and "length c = recording_cid_len G (ec_cid_generator (recording_endpoint_config rng G) ())" and "flags AND 0x80 = 0"
  shows "read_dcid_any (flags # c @ rest) = Some c"
proof -
  have "length c = LOCAL_CID_LEN" using assms(1,2) by (simp add: recording_endpoint_config_def recording_cid_len_def recording_new_def)
  then show ?thesis using assms(3) by (simp add: read_dcid_any_def get_range_def slice_def)
qed

section \<open>The secret source\<close>

text \<open>
  What the file system answers for a path: its mode, if its metadata can be read, and its text, or the
  error. The answer of \<open>load\<close>: whether it warned, and the secrets or the error.
\<close>

record file_system =
  fs_mode :: "string \<Rightarrow> u32 option"
  fs_text :: "string \<Rightarrow> string + string"

record file_source =
  fsrc_path :: string

definition file_source_new :: "string \<Rightarrow> file_source" where
  "file_source_new path = \<lparr>fsrc_path = path\<rparr>"

definition file_source_load ::
  "file_system \<Rightarrow> (string \<Rightarrow> string + server_secrets) \<Rightarrow> file_source \<Rightarrow> bool \<times> (config_error + server_secrets)" where
  "file_source_load fs parse src =
     (let warned = (case fs_mode fs (fsrc_path src) of
                      None \<Rightarrow> False
                    | Some m \<Rightarrow> let mode = m AND 0x1FF in mode AND 0x3F \<noteq> 0)
      in (warned,
          case fs_text fs (fsrc_path src) of
            Inl e \<Rightarrow> Inl (Io e)
          | Inr text \<Rightarrow> (case parse text of Inl e \<Rightarrow> Inl (Parse e) | Inr secrets \<Rightarrow> Inr secrets)))"

text \<open>
  The source warns exactly of a file with some permission bit for the group or for others, and never
  refuses one for it.
\<close>

lemma file_source_warns:
  "fst (file_source_load fs parse src) \<longleftrightarrow> (\<exists>m. fs_mode fs (fsrc_path src) = Some m \<and> (\<exists>i<6. bit m i))"
proof -
  have "(m AND 0x1FF) AND 0x3F \<noteq> 0 \<longleftrightarrow> (\<exists>i<6. bit m i)" for m :: u32
  proof -
    have "(m AND 0x1FF) AND 0x3F = take_bit 6 m"
      by (simp add: take_bit_eq_mask mask_eq_exp_minus_1 and.assoc)
    moreover have "take_bit 6 m \<noteq> 0 \<longleftrightarrow> (\<exists>i<6. bit m i)" 
      by (auto simp: bit_eq_iff bit_take_bit_iff) (rule_tac x = i in exI, simp)
    ultimately show ?thesis by simp
  qed
  then show ?thesis by (auto simp: file_source_load_def Let_def split: option.splits)
qed

end
