(* ===== verification/Spec2Isabelle.thy ===== *)
theory Spec2Isabelle
  imports Session Programs Pair PollLoop KeyMaterial
begin

text \<open>
  A verification library for quietquic, a QUIC transport whose server is silent to anyone who does not
  hold a pre-shared key. The repository is a sans-IO core, \<open>src/proto/src\<close>, and a tokio wrapper around it,
  \<open>src/src\<close>; the theories follow that split.

  \<^bold>\<open>The core and its theories.\<close> A datagram that reaches a server is first rate limited, then its connection
  ID is read and matched against the selectors of the configured keys, then checked for freshness and
  replay; only then does quinn-proto see it.

  \<^item> \<open>Prelude\<close>: byte strings, 64-bit words, association lists, \<open>while_some\<close> (a \<open>while let Some(x)\<close> loop that
    may not end), runs of machines, the locales \<open>guarded_machine\<close> and its kin. \<open>F64\<close>: IEEE binary64 addition,
    multiplication and rounding as far as the token buckets use them.
  \<^item> \<open>Freshness\<close>, \<open>Replay\<close>, \<open>Transport\<close>, \<open>Selector\<close>, \<open>Ratelimit\<close>, \<open>InitialKeys\<close>: the files of the same names
    (\<open>freshness.rs\<close>, \<open>replay.rs\<close>, \<open>transport.rs\<close>, \<open>selector.rs\<close>, \<open>ratelimit.rs\<close>, \<open>initial_keys.rs\<close>). The rate
    limiter has the code's intrusive doubly linked list and is shown to implement an LRU table; the
    Initial keys are shown to open at the peer. \<open>Session\<close>: the rest of \<open>initial_keys.rs\<close>, the TLS session and
    configurations that replace quinn's Initial keys and forward every other call.
  \<^item> \<open>Quinn\<close>: quinn-proto's connection and endpoint as records of functions, with what the code relies on as
    named predicates. \<open>Outcome\<close>: \<open>outcome.rs\<close>. \<open>Conn\<close>: \<open>proto/src/conn.rs\<close>, one connection's streams. \<open>Config\<close>:
    \<open>config.rs\<close> and the building of the client table. \<open>Registry\<close>: the connection IDs an endpoint has issued.
  \<^item> \<open>Endpoint\<close>: \<open>endpoint.rs\<close>, the state as the record \<open>endpoint\<close> and one definition for each function.
    \<open>EndpointInv\<close>, \<open>EndpointRun\<close>, \<open>EndpointOps\<close>: the invariant \<open>endpoint_ok\<close> (books of connection IDs, slab and
    handles, replay tables), that every public operation returns and keeps it, and runs of operations.
    \<open>Silence\<close>, \<open>Sessions\<close>, \<open>Lifecycle\<close>: what follows for the pre-filter, for admission and attribution, and for
    the life of connections. \<open>Story\<close>: the event queue, as a contract for the drivers.
  \<^item> \<open>Pair\<close>: \<open>testing.rs\<close>, a client and a server endpoint joined in memory. \<open>PollLoop\<close>: \<open>examples/poll_loop.rs\<close>, the
    event loop the driving contract is documented with, and its set-up. \<open>KeyMaterial\<close>: the keys, the TLS
    configurations and the certificate verifier of \<open>crypto.rs\<close>, quinn's endpoint configuration, and the secret
    source of \<open>src/config.rs\<close>.

  \<^bold>\<open>The wrapper and its theories.\<close> A driver task owns the endpoint; handles send it commands with a oneshot
  channel for the reply; operations that cannot complete are parked until an event says to try again.

  \<^item> \<open>Parked\<close>: \<open>src/conn.rs\<close>, the driver's side: commands, parked operations, the two pumps, and the ledger of
    reply senders. \<open>Handles\<close>: the application's side of the same file, every method of \<open>Connection\<close>,
    \<open>QuinnHandle\<close>, \<open>SendStream\<close> and \<open>RecvStream\<close> as a future.
  \<^item> \<open>Server\<close> and \<open>Client\<close>: \<open>src/server.rs\<close> and \<open>src/client.rs\<close>, each driver as a record with one operation for each
    arm of its \<open>select!\<close>, its pump, its end, and \<open>bind\<close> and \<open>connect\<close>. \<open>Work\<close>, \<open>Drive\<close>: a bound on the work quinn
    holds, and what both drivers share. \<open>ServerInv\<close>, \<open>ServerRun\<close>, \<open>ClientInv\<close>, \<open>ClientRun\<close>: their invariants and
    runs.
  \<^item> \<open>Kinds\<close>, \<open>DriverKinds\<close>: each channel carries one type of value, and both drivers answer it at that type.
    \<open>World\<close>, \<open>Calls\<close>: an application with any number of tasks beside a driver, and that its calls are typed,
    accounted for and answered.
  \<^item> \<open>Examples\<close>: the sessions of \<open>examples/echo_server.rs\<close>, \<open>echo_client.rs\<close> and \<open>full_duplex.rs\<close> as futures made of
    the handle methods, and the paths a future can take. \<open>Logs\<close>: the drivers' logs only grow. \<open>AtWork\<close>: a sample
    server at work, on which the witnesses of the next theory run. \<open>Programs\<close>: the examples beside a driver, what a
    task does during a run (its \<open>deeds\<close>), and the joining of the two halves of \<open>exchange\<close>. This theory: what spans
    both ends of a connection.

  \<^bold>\<open>Reading the definitions.\<close> A struct is a record, an enum a datatype, a \<open>HashMap\<close> an association list or a
  map; \<open>usize\<close> and counters whose overflow matters are words. Results are sums, with the error on the
  left. \<open>None\<close>, where a definition answers an option that the code does not, is a call that panics or does
  not return; theorems that something returns say so. A lock is held for a whole call, so it does not
  appear. The order in which a \<open>HashMap\<close> is iterated is the argument \<open>iter\<close>, any permutation. Clocks, sockets
  and random draws are arguments. What the drivers do to the outside is a log of effects. A release build is
  modelled, in which the \<open>debug_assert!\<close> of \<open>allocate_handle\<close> is compiled out (that of \<open>initial_keys_from_psk\<close> compares a
  constant with itself at both of its calls). A \<open>string\<close>
  is a sequence of code points up to 255, so that white space and UTF-8 are exact for those and other characters are
  outside the model.

  \<^bold>\<open>Interfaces.\<close> Each is a locale, interpreted on the model's own definitions: \<open>byte_codec\<close> on the timestamp
  and the connection ID's layout, \<open>once_filter\<close> on the replay guard, \<open>lru_cache\<close> and \<open>guarded_machine\<close> (every
  step returns and keeps an invariant) on the rate limiter, \<open>cid_table\<close> on the registry, \<open>reply_ledger\<close>
  (senders taken in are answered, dropped or held) on the parked operations, \<open>transparent_wrapper\<close> on the TLS
  session, and \<open>reply_host\<close> (what tasks rely on of a driver) and \<open>log_host\<close> (its log only grows) on both drivers.

  \<^bold>\<open>What the theorems assume of code outside the repository.\<close> \<open>quinn_ok\<close>: quinn's event queues drain, IDs it
  mints are new, chunks fit the requested size. \<open>writes_progress\<close>: a write that does not block takes at
  least one byte. \<open>settles\<close>: quinn's pending work is finite and no call of a driver's reactions adds more
  than a constant to it; \<open>driver_env\<close> is the three together. \<open>blake3_ok\<close>: a keyed hash has 32 bytes.
  \<open>crypto_ok\<close>: lengths, and that AEAD opening inverts sealing. \<open>varint_ok\<close>: a varint is below \<open>2^62\<close>. \<open>buffered\<close>
  (\<open>PollLoop\<close>): what a connection has received and not delivered is finite. Each is
  shown satisfiable by the sample instances at the end of the theories that state it, which the witnesses
  use. Runs are shorter than \<open>2^64\<close>, so that the generation counter, whose exhaustion the code turns into a
  panic, does not run out. The passes of \<open>Pair\<close> are bounded by the code's own \<open>MAX_PASSES\<close>; and those of \<open>PollLoop\<close> by its
  own; no other fuel is used.

  \<^bold>\<open>What the theorems show.\<close> Silence: without a configured key nothing is ever sent and quinn is never called;
  a rejected datagram leaves no trace but in the limiter and the replay tables; the pre-filter admits
  exactly the fresh, unseen selectors; each is admitted once, and the connection it makes is attributed to
  its key. The rate limiter stays bounded, tracks the most recent sources, caps what passes at one instant
  and locks no source out for good; the replay guard readmits a pair exactly when the clock ran past its window and was
  set back. The endpoint: tables agree after every run, handles are never reused, a pass reports exactly the lost
  connections, once, and removes what was theirs and nothing else, dirty work pulls the deadline forward. The drivers: they never stall, answer every sender exactly once,
  offer a connection once and come to rest; handle calls, and programs made of them, receive values of
  their own type and return once the driver is gone; a cancelled \<open>accept_bi\<close> still takes a stream. The
  examples: what they did in a run that ends well is what they promise, each step acknowledged by the driver in that
  run, complete and within their limits; the documented
  event loop returns, and returns well only with the payload intact and nothing left to send. Streams: bytes are written and read in order, completely, within limits. Keys: the
  two ends derive keys that open each other's packets, and only the Initial keys of the TLS session change.

  \<^bold>\<open>Not modelled.\<close> The crate roots declare modules. The \<open>Debug\<close> renderings, zeroisation of keys on drop, tracing
  and what the examples print have no effect on what is proved. \<open>replace_reply_ok\<close> and \<open>replace_reply_read\<close> of
  \<open>src/conn.rs\<close> move a sender out of a borrowed struct, which values do not need. \<open>bind_with_accept_capacity\<close> is
  compiled for tests only. The fuzz targets call \<open>parse_dcid\<close> and \<open>peek_dcid\<close> and drop the result. All of these
  aside, every function of the two crates and of the examples has its definition; what is left of the
  sources is documentation and tests.
\<close>

unbundle bit_operations_syntax

section \<open>Properties that span the components\<close>

text \<open>
  C11. A client that holds a configured key gets through, end to end: when a client dials with the key of
  the server's client \<open>i\<close>, every long-header datagram that carries the DCID its dial installs passes
  the server's pre-filter as client \<open>i\<close>, if the clocks agree within the window, the nonce was not used
  before and no earlier key yields the same DCID; and the Initial packets it seals with the keys
  derived from its key and that DCID open under the keys the server derives from the configuration it
  installs for client \<open>i\<close>.
\<close>

theorem dial_end_to_end:
  assumes P: "crypto_ok P" and B: "blake3_ok (blake3 D)" and ok: "filter_ok ep"
    and built: "build_clients env secrets = Inr (ep_clients ep)"
    and i: "i < length (ss_clients secrets)" "ce_psk (ss_clients secrets ! i) = cf_psk cfg"
    and nonce: "length nonce = 8" "(nonce, minute) \<notin> rg_seen (ep_replay ep ! i)"
    and fresh: "is_fresh minute (now_minutes clock) WINDOW_MINUTES"
    and unique: "\<forall>j<i. build_dcid (blake3 D) (psk_of ep i) nonce minute \<noteq> build_dcid (blake3 D) (psk_of ep j) nonce minute"
  shows "(\<forall>flags version rest. flags AND 0x80 \<noteq> 0 \<and> length version = 4 \<longrightarrow>
           (\<exists>ep'. prefilter D clock (long_header flags version (cc_initial_dst_cid (dial_config D nonce minute cfg)) rest) ep
                  = Some (Some i, ep')))
    \<and> (\<forall>hdr payload tagroom pn. length tagroom = TAG_LEN \<longrightarrow>
         (\<exists>sealed ks.
            packet_encrypt P (packet_local (session_initial_keys P (cc_psk (dial_config D nonce minute cfg))
               (cc_initial_dst_cid (dial_config D nonce minute cfg)) Client)) pn (hdr @ payload @ tagroom) (length hdr) = Some (hdr @ sealed)
            \<and> server_initial_keys P (sc_psk (cl_server_config (ep_clients ep ! i))) QUIC_V1
                (cc_initial_dst_cid (dial_config D nonce minute cfg)) = Some ks
            \<and> packet_decrypt P (packet_remote ks) pn hdr sealed = Some payload))"
proof -
  note b = build_clients_Inr [OF built]
  have len: "i < length (ep_clients ep)" using b(1) i(1) by (metis length_map)
  have key: "psk_of ep i = as_bytes (cf_psk cfg)"
    using b(2) len i by (metis (no_types, lifting) nth_map length_map)
  have sc: "sc_psk (cl_server_config (ep_clients ep ! i)) = as_bytes (cf_psk cfg)" using b(3) len key by simp
  let ?dcid = "build_dcid (blake3 D) (as_bytes (cf_psk cfg)) nonce minute"
  have cc: "cc_initial_dst_cid (dial_config D nonce minute cfg) = ?dcid" "cc_psk (dial_config D nonce minute cfg) = as_bytes (cf_psk cfg)"
    by (simp_all add: dial_config_def Let_def)
  have l: "length ?dcid = 20" using length_build_dcid [OF B nonce(1)] unfolding DCID_LEN_def .
  have adm: "\<exists>ep'. prefilter D clock (long_header flags version ?dcid rest) ep = Some (Some i, ep')"
    if "flags AND 0x80 \<noteq> 0" "length version = 4" for flags version rest
  proof -
    have "peek_dcid (long_header flags version ?dcid rest) = Some ?dcid"
      using that by (rule peek_dcid_long_header) (simp_all add: l)
    then have "carries D clock (long_header flags version ?dcid rest) (psk_of ep i) nonce minute"
      "\<forall>j<i. \<not> carries D clock (long_header flags version ?dcid rest) (psk_of ep j) nonce minute"
      using nonce(1) fresh unique key by (auto simp: carries_def)
    then show ?thesis unfolding prefilter_admits_iff [OF B ok] using len nonce(2) by blast
  qed
  moreover have "\<exists>sealed ks. packet_encrypt P (packet_local (session_initial_keys P (as_bytes (cf_psk cfg)) ?dcid Client)) pn
         (hdr @ payload @ tagroom) (length hdr) = Some (hdr @ sealed)
      \<and> server_initial_keys P (as_bytes (cf_psk cfg)) QUIC_V1 ?dcid = Some ks \<and> packet_decrypt P (packet_remote ks) pn hdr sealed = Some payload"
    if "length tagroom = TAG_LEN" for hdr payload tagroom pn
    using seal_opens [OF P that] server_opens_client [of P "as_bytes (cf_psk cfg)" ?dcid] by metis
  ultimately show ?thesis unfolding cc sc by blast
qed

text \<open>Witness: the sample client and the sample server.\<close>

theorem dial_end_to_end_witness:
  "\<exists>ep'. prefilter sample_deps (Some 0) (long_header 0xc0 [0, 0, 0, 1]
      (cc_initial_dst_cid (dial_config sample_deps sample_nonce 0 sample_client)) []) sample_server = Some (Some 0, ep')"
proof -
  have f: "filter_ok sample_server" using new_server_ok(1) [OF new_sample_server] by (simp add: endpoint_ok_def)
  have b: "build_clients sample_build_env sample_secrets = Inr (ep_clients sample_server)" by (rule new_server_ok(10) [OF new_sample_server])
  have s: "0 < length (ss_clients sample_secrets)" "ce_psk (ss_clients sample_secrets ! 0) = cf_psk sample_client"
    by (simp_all add: sample_secrets_def sample_client_def)
  have r: "(sample_nonce, 0) \<notin> rg_seen (ep_replay sample_server ! 0)"
    by (simp add: sample_server_def endpoint_literal_def replay_new_def)
  have "is_fresh 0 (now_minutes (Some 0)) WINDOW_MINUTES" by (simp add: is_fresh_nat now_minutes_def)
  from dial_end_to_end [OF toy_prims_ok sample_blake3_ok f b s length_sample_nonce r this] show ?thesis by simp
qed

end
